(* ===== verification/Xv6_Prelude.thy ===== *)
theory Xv6_Prelude
  imports Main "HOL-Library.Word"
begin

text \<open>
  Prelude of the development.  It fixes the machine types of \<open>types.h\<close>, the sizes of
  \<open>param.h\<close>, \<open>memlayout.h\<close> and \<open>mmu.h\<close>, the byte-addressed memory with its little-endian
  accesses, and the monad in which the kernel's C functions are written: a call takes the
  kernel state and either returns a value or ends in a fault (\<open>panic\<close>, a sleep, an endless
  spin, a page fault of the kernel), and in each case leaves a state behind.  The predicate
  \<open>wp\<close> is the weakest precondition of such a call; its rules form the collection \<open>wp_simps\<close>.
\<close>

unbundle bit_operations_syntax

named_theorems wp_simps \<open>weakest preconditions of the monad's operations\<close>

section \<open>Machine types and constants\<close>

type_synonym u8 = "8 word"
type_synonym u16 = "16 word"
type_synonym u32 = "32 word"

type_synonym memory = "u32 \<Rightarrow> u8"

definition NPROC :: nat where "NPROC = 64"
definition KSTACKSIZE :: u32 where "KSTACKSIZE = 4096"
definition NOFILE :: nat where "NOFILE = 16"
definition NFILE :: nat where "NFILE = 100"
definition NINODE :: nat where "NINODE = 50"
definition NDEV :: nat where "NDEV = 10"
definition ROOTDEV :: u32 where "ROOTDEV = 1"
definition MAXARG :: nat where "MAXARG = 32"
definition MAXOPBLOCKS :: nat where "MAXOPBLOCKS = 10"
definition LOGSIZE :: nat where "LOGSIZE = MAXOPBLOCKS * 3"
definition NBUF :: nat where "NBUF = MAXOPBLOCKS * 3"
definition FSSIZE :: nat where "FSSIZE = 1000"
definition NUMSIG :: nat where "NUMSIG = 32"
definition SIGALRM :: nat where "SIGALRM = 14"
definition MAX_UTHREADS :: nat where "MAX_UTHREADS = 64"
definition STACKSIZE :: u32 where "STACKSIZE = 4096"
definition UTHREAD_QUANTA :: int where "UTHREAD_QUANTA = 5"
definition MAX_BSEM :: nat where "MAX_BSEM = 128"

lemmas param_defs =
  NPROC_def KSTACKSIZE_def NOFILE_def NFILE_def NINODE_def NDEV_def ROOTDEV_def MAXARG_def
  MAXOPBLOCKS_def LOGSIZE_def NBUF_def FSSIZE_def NUMSIG_def SIGALRM_def MAX_UTHREADS_def
  STACKSIZE_def UTHREAD_QUANTA_def MAX_BSEM_def

section \<open>Byte-addressed memory\<close>

text \<open>x86 is little endian: the byte at the lowest address is the least significant one.\<close>

definition store32 :: "memory \<Rightarrow> u32 \<Rightarrow> u32 \<Rightarrow> memory" where
  "store32 m a w =
     m(a := ucast w, a + 1 := ucast (drop_bit 8 w),
       a + 2 := ucast (drop_bit 16 w), a + 3 := ucast (drop_bit 24 w))"

definition load32 :: "memory \<Rightarrow> u32 \<Rightarrow> u32" where
  "load32 m a =
     ucast (m a) OR push_bit 8 (ucast (m (a + 1))) OR
     push_bit 16 (ucast (m (a + 2))) OR push_bit 24 (ucast (m (a + 3)))"

lemma split_bytes32:
  fixes w :: u32
  shows "ucast (ucast w :: u8) OR push_bit 8 (ucast (ucast (drop_bit 8 w) :: u8)) OR
     push_bit 16 (ucast (ucast (drop_bit 16 w) :: u8)) OR
     push_bit 24 (ucast (ucast (drop_bit 24 w) :: u8)) = w" (is "?l = w")
proof (rule bit_word_eqI)
  fix n :: nat
  assume "n < LENGTH(32)"
  then consider "n < 8" | "8 \<le> n" "n < 16" | "16 \<le> n" "n < 24" | "24 \<le> n" "n < 32"
    by fastforce
  then show "bit ?l n = bit w n"
    by cases (auto simp: bit_simps)
qed

lemma load32_store32_same [simp]: "load32 (store32 m a w) a = w"
  unfolding load32_def store32_def by (simp add: split_bytes32)

section \<open>The kernel monad\<close>

text \<open>
  Addresses that the kernel only compares are symbolic: a spin lock is named by a \<open>lockid\<close>
  and a sleep channel by a \<open>chan\<close>, one constructor per object of the source whose address
  is used in that role.
\<close>

datatype lockid =
    L_ptable | L_ticks | L_kmem | L_bcache | L_log | L_icache | L_ftable | L_cons | L_ide
  | L_pipe nat        \<comment> \<open>\<open>p->lock\<close> of a pipe\<close>
  | L_buf nat         \<comment> \<open>the spin lock inside the sleep lock of \<open>bcache.buf[i]\<close>\<close>
  | L_inode nat       \<comment> \<open>the spin lock inside the sleep lock of \<open>icache.inode[i]\<close>\<close>

datatype chan =
    Ch_proc nat        \<comment> \<open>a parent waiting in \<open>wait()\<close> sleeps on its own \<open>struct proc\<close>\<close>
  | Ch_ticks | Ch_log | Ch_input
  | Ch_buf nat         \<comment> \<open>the sleep lock of a buffer\<close>
  | Ch_inode nat       \<comment> \<open>the sleep lock of an inode\<close>
  | Ch_ide nat         \<comment> \<open>a buffer in the disk queue\<close>
  | Ch_nread nat | Ch_nwrite nat

datatype fault =
    Panic string       \<comment> \<open>\<open>panic(s)\<close>\<close>
  | Sleeps chan        \<comment> \<open>the process gave up the CPU in \<open>sleep\<close>\<close>
  | Yields             \<comment> \<open>the process gave up the CPU in \<open>yield\<close>\<close>
  | Exits              \<comment> \<open>the process gave up the CPU for good in \<open>exit\<close>\<close>
  | Spins lockid       \<comment> \<open>waits for a spin lock that another CPU holds\<close>
  | Kfault u32         \<comment> \<open>the kernel touched an unmapped user address\<close>
  | Wild               \<comment> \<open>an access outside an array, to which C gives no meaning\<close>
  | Diverges           \<comment> \<open>a loop used up the fuel it was given\<close>

datatype 'a outcome = Val 'a | Fault fault

type_synonym ('s, 'a) K = "'s \<Rightarrow> 'a outcome \<times> 's"

definition kret :: "'a \<Rightarrow> ('s, 'a) K" where
  "kret x s = (Val x, s)"

definition kfail :: "fault \<Rightarrow> ('s, 'a) K" where
  "kfail e s = (Fault e, s)"

definition kbind :: "('s, 'a) K \<Rightarrow> ('a \<Rightarrow> ('s, 'b) K) \<Rightarrow> ('s, 'b) K" where
  "kbind f g s = (case f s of (Val x, s') \<Rightarrow> g x s' | (Fault e, s') \<Rightarrow> (Fault e, s'))"

definition kget :: "('s \<Rightarrow> 'a) \<Rightarrow> ('s, 'a) K" where
  "kget f s = (Val (f s), s)"

definition kmod :: "('s \<Rightarrow> 's) \<Rightarrow> ('s, unit) K" where
  "kmod f s = (Val (), f s)"

abbreviation kthen :: "('s, 'a) K \<Rightarrow> ('s, 'b) K \<Rightarrow> ('s, 'b) K" where
  "kthen f g \<equiv> kbind f (\<lambda>_. g)"

abbreviation kpanic :: "string \<Rightarrow> ('s, 'a) K" where
  "kpanic msg \<equiv> kfail (Panic msg)"

definition kwhen :: "bool \<Rightarrow> ('s, unit) K \<Rightarrow> ('s, unit) K" where
  "kwhen b f = (if b then f else kret ())"

text \<open>A counted loop \<open>for (i = lo; i < hi; i++) body\<close> whose body does not leave the loop.\<close>

fun kfor :: "nat list \<Rightarrow> (nat \<Rightarrow> ('s, unit) K) \<Rightarrow> ('s, unit) K" where
  "kfor [] body = kret ()"
| "kfor (i # is) body = kthen (body i) (kfor is body)"

text \<open>
  A loop \<open>while (b x) x = body x\<close> over its local variables \<open>x\<close>, with fuel.
\<close>

fun kwhile :: "nat \<Rightarrow> ('l \<Rightarrow> bool) \<Rightarrow> ('l \<Rightarrow> ('s, 'l) K) \<Rightarrow> 'l \<Rightarrow> ('s, 'l) K" where
  "kwhile 0 b body x = kfail Diverges"
| "kwhile (Suc n) b body x = (if b x then kbind (body x) (kwhile n b body) else kret x)"

lemma kbind_simps [simp]:
  "kbind (kret x) g = g x"
  "kbind (kfail e) g' = kfail e"
  "kbind (kget f) h s = h (f s) s"
  "kbind (kmod u) k s = k () (u s)"
  by (simp_all add: kbind_def kret_def kfail_def kget_def kmod_def fun_eq_iff)

lemma kbind_assoc: "kbind (kbind f g) h = kbind f (\<lambda>x. kbind (g x) h)"
  by (auto simp: kbind_def fun_eq_iff split: prod.splits outcome.splits)

lemma kbind_kret [simp]: "kbind f kret = f"
  by (auto simp: kbind_def kret_def fun_eq_iff split: prod.splits outcome.splits)

lemma kbind_Val: "f s = (Val x, s') \<Longrightarrow> kbind f g s = g x s'"
  by (simp add: kbind_def)

lemma kbind_Fault: "f s = (Fault e, s') \<Longrightarrow> kbind f g s = (Fault e, s')"
  by (simp add: kbind_def)

lemma kwhen_simps [simp]: "kwhen True f = f" "kwhen False f = kret ()"
  by (simp_all add: kwhen_def)

subsection \<open>Weakest preconditions\<close>

definition wp :: "('s, 'a) K \<Rightarrow> ('a \<Rightarrow> 's \<Rightarrow> bool) \<Rightarrow> (fault \<Rightarrow> 's \<Rightarrow> bool) \<Rightarrow> 's \<Rightarrow> bool" where
  "wp f Q E s = (case f s of (Val x, s') \<Rightarrow> Q x s' | (Fault e, s') \<Rightarrow> E e s')"

lemma wp_basic [wp_simps]:
  "wp (kret x) Q E s = Q x s"
  "wp (kfail e) Q E s = E e s"
  "wp (kget f) Q' E s = Q' (f s) s"
  "wp (kmod u) Q'' E s = Q'' () (u s)"
  by (simp_all add: wp_def kret_def kfail_def kget_def kmod_def)

lemma wp_bind [wp_simps]: "wp (kbind f g) Q E s = wp f (\<lambda>x. wp (g x) Q E) E s"
  by (simp add: wp_def kbind_def split: prod.splits outcome.splits)

lemma wp_if [wp_simps]: "wp (if b then f else g) Q E s = (if b then wp f Q E s else wp g Q E s)"
  by simp

lemma wp_when [wp_simps]: "wp (kwhen b f) Q E s = (if b then wp f Q E s else Q () s)"
  by (simp add: kwhen_def wp_simps)

lemma wp_mono:
  "wp f Q E s \<Longrightarrow> (\<And>x t. Q x t \<Longrightarrow> Q' x t) \<Longrightarrow> (\<And>e t. E e t \<Longrightarrow> E' e t) \<Longrightarrow> wp f Q' E' s"
  by (auto simp: wp_def split: prod.splits outcome.splits)

lemma wp_Val: "f s = (Val x, t) \<Longrightarrow> wp f Q E s = Q x t"
  by (simp add: wp_def)

lemma wp_Fault: "f s = (Fault e, t) \<Longrightarrow> wp f Q E s = E e t"
  by (simp add: wp_def)

lemma wp_returns: "wp f Q (\<lambda>_ _. False) s \<longleftrightarrow> (\<exists>x s'. f s = (Val x, s') \<and> Q x s')"
  by (auto simp: wp_def split: prod.splits outcome.splits)

text \<open>The loop rule: an invariant indexed by the iterations still to run.\<close>

lemma wp_kfor:
  assumes "I is s"
    and "\<And>i js t. I (i # js) t \<Longrightarrow> wp (body i) (\<lambda>_ t'. I js t') E t"
    and "\<And>t. I [] t \<Longrightarrow> Q () t"
  shows "wp (kfor is body) Q E s"
  using assms
proof (induction "is" arbitrary: s)
  case Nil
  then show ?case by (simp add: wp_simps)
next
  case (Cons i js)
  have "wp (body i) (\<lambda>_ t'. I js t') E s"
    using Cons.prems(1,2) by blast
  then have "wp (body i) (\<lambda>_. wp (kfor js body) Q E) E s"
    by (rule wp_mono) (use Cons.IH Cons.prems(2,3) in blast)+
  then show ?case by (simp add: wp_simps)
qed

section \<open>Generic lemmas\<close>

lemma unat_add_nowrap:
  fixes a :: "'w::len word"
  shows "unat a + n < 2 ^ LENGTH('w) \<Longrightarrow> unat (a + of_nat n) = unat a + n"
  by (simp add: unat_word_ariths unat_of_nat)

lemma sint_cases: "sint (w :: u32) = (if uint w < 2 ^ 31 then uint w else uint w - 2 ^ 32)"
proof -
  have lt: "uint w < 2 ^ 32" using uint_lt2p [of w] by simp
  have "bit (uint w) 31 \<longleftrightarrow> \<not> uint w < 2 ^ 31"
  proof -
    have "uint w div 2 ^ 31 = (if uint w < 2 ^ 31 then 0 else 1)" using lt by auto
    then show ?thesis by (simp add: bit_iff_odd)
  qed
  then show ?thesis using lt
    by (simp add: sint_uint signed_take_bit_eq_take_bit_minus take_bit_int_eq_self)
qed

lemma find_index_Some:
  assumes "find P xs = Some x" shows "P x" and "x \<in> set xs"
  using assms by (auto simp: find_Some_iff)

end
