(* ===== verification/Xv6_Spinlock.thy ===== *)
theory Xv6_Spinlock
  imports Xv6_Prelude
begin

text \<open>
  Spin locks (\<open>spinlock.c\<close>, \<open>spinlock.h\<close>) and the per-CPU fields they use (\<open>proc.h\<close>).
  The record \<open>kbase\<close> is the root of the kernel state: the executing CPU, the CPUs' interrupt
  bookkeeping and all spin locks.  Every other component extends this record, so that its
  operations call \<open>acquire\<close> and \<open>release\<close> directly.

  Two groups of results.  For one path through the kernel, \<open>acquire\<close> and \<open>release\<close> bracket a
  section and restore lock and interrupt state exactly (\<open>release_grab\<close>).  For several CPUs, the
  instruction-level step relation \<open>spin_step\<close> interleaves the CPUs' acquire and release code in
  any order; its reachable states satisfy mutual exclusion and never panic.
\<close>

section \<open>State\<close>

record cpu =
  ncli :: int          \<comment> \<open>depth of pushcli nesting\<close>
  intena :: bool       \<comment> \<open>were interrupts enabled before pushcli?\<close>
  IF :: bool           \<comment> \<open>the interrupt flag of the CPU's \<open>eflags\<close>\<close>

record spinlock =
  locked :: u32
  lk_cpu :: "nat option"     \<comment> \<open>the CPU holding the lock, \<open>None\<close> for 0\<close>

record kbase =
  me :: nat                  \<comment> \<open>\<open>cpu\<close>: index of the executing CPU\<close>
  cpus :: "nat \<Rightarrow> cpu"
  locks :: "lockid \<Rightarrow> spinlock"

section \<open>Operations\<close>

definition set_cpu :: "(cpu \<Rightarrow> cpu) \<Rightarrow> 'x kbase_scheme \<Rightarrow> 'x kbase_scheme" where
  "set_cpu f s = s\<lparr>cpus := (cpus s)(me s := f (cpus s (me s)))\<rparr>"

definition set_lock ::
  "lockid \<Rightarrow> (spinlock \<Rightarrow> spinlock) \<Rightarrow> 'x kbase_scheme \<Rightarrow> 'x kbase_scheme" where
  "set_lock lk f s = s\<lparr>locks := (locks s)(lk := f (locks s lk))\<rparr>"

definition initlock :: "lockid \<Rightarrow> ('x kbase_scheme, unit) K" where
  "initlock lk = kmod (set_lock lk (\<lambda>l. l\<lparr>locked := 0, lk_cpu := None\<rparr>))"

definition holding :: "lockid \<Rightarrow> 'x kbase_scheme \<Rightarrow> bool" where
  "holding lk s = (locked (locks s lk) \<noteq> 0 \<and> lk_cpu (locks s lk) = Some (me s))"

definition pushcli :: "('x kbase_scheme, unit) K" where
  "pushcli =
     kbind (kget (\<lambda>s. IF (cpus s (me s)))) (\<lambda>eflags_IF.
     kthen (kmod (set_cpu (\<lambda>c. c\<lparr>IF := False\<rparr>)))
     (kthen (kmod (set_cpu (\<lambda>c. if ncli c = 0 then c\<lparr>intena := eflags_IF\<rparr> else c)))
     (kmod (set_cpu (\<lambda>c. c\<lparr>ncli := ncli c + 1\<rparr>)))))"

definition popcli :: "('x kbase_scheme, unit) K" where
  "popcli =
     kbind (kget (\<lambda>s. IF (cpus s (me s)))) (\<lambda>eflags_IF.
     if eflags_IF then kpanic ''popcli - interruptible''
     else
     kthen (kmod (set_cpu (\<lambda>c. c\<lparr>ncli := ncli c - 1\<rparr>)))
     (kbind (kget (\<lambda>s. cpus s (me s))) (\<lambda>c.
     if ncli c < 0 then kpanic ''popcli''
     else kwhen (ncli c = 0 \<and> intena c) (kmod (set_cpu (\<lambda>c. c\<lparr>IF := True\<rparr>))))))"

text \<open>
  \<open>acquire\<close> in three parts, as the processor sees it: the entry check, the atomic exchange
  that is retried while it returns a non-zero value, and the note of the owner.
\<close>

definition acquire_enter :: "lockid \<Rightarrow> ('x kbase_scheme, unit) K" where
  "acquire_enter lk =
     kthen pushcli (kbind (kget (holding lk)) (\<lambda>h. kwhen h (kpanic ''acquire'')))"

definition xchg_locked :: "lockid \<Rightarrow> ('x kbase_scheme, u32) K" where
  "xchg_locked lk =
     kbind (kget (\<lambda>s. locked (locks s lk))) (\<lambda>old.
     kthen (kmod (set_lock lk (\<lambda>l. l\<lparr>locked := 1\<rparr>))) (kret old))"

definition acquire_own :: "lockid \<Rightarrow> ('x kbase_scheme, unit) K" where
  "acquire_own lk = kmod (\<lambda>s. set_lock lk (\<lambda>l. l\<lparr>lk_cpu := Some (me s)\<rparr>) s)"

definition acquire :: "lockid \<Rightarrow> ('x kbase_scheme, unit) K" where
  "acquire lk =
     kthen (acquire_enter lk)
     (kbind (xchg_locked lk) (\<lambda>old.
      if old \<noteq> 0 then kfail (Spins lk) else acquire_own lk))"

definition release_check :: "lockid \<Rightarrow> ('x kbase_scheme, unit) K" where
  "release_check lk =
     kbind (kget (holding lk)) (\<lambda>h.
     if \<not> h then kpanic ''release''
     else kmod (set_lock lk (\<lambda>l. l\<lparr>lk_cpu := None\<rparr>)))"

definition release_store :: "lockid \<Rightarrow> ('x kbase_scheme, unit) K" where
  "release_store lk = kmod (set_lock lk (\<lambda>l. l\<lparr>locked := 0\<rparr>))"

definition release :: "lockid \<Rightarrow> ('x kbase_scheme, unit) K" where
  "release lk = kthen (release_check lk) (kthen (release_store lk) popcli)"

section \<open>One path: a section restores the lock state\<close>

text \<open>
  Outside all sections the saved interrupt flag is dead; the lemmas are for a CPU where it
  agrees with the flag, as it does after every \<open>popcli\<close>.
\<close>

definition cpu_sane :: "cpu \<Rightarrow> bool" where
  "cpu_sane c = (if ncli c = 0 then intena c = IF c else 0 < ncli c \<and> \<not> IF c)"

definition can_take :: "lockid \<Rightarrow> 'x kbase_scheme \<Rightarrow> bool" where
  "can_take lk s =
     (locked (locks s lk) = 0 \<and> lk_cpu (locks s lk) = None \<and> cpu_sane (cpus s (me s)))"

text \<open>The state inside a section of \<open>lk\<close>, and the state after leaving it.\<close>

definition grab :: "lockid \<Rightarrow> 'x kbase_scheme \<Rightarrow> 'x kbase_scheme" where
  "grab lk s = s\<lparr>
     cpus := (cpus s)(me s := \<lparr>ncli = ncli (cpus s (me s)) + 1,
       intena = intena (cpus s (me s)), IF = False\<rparr>),
     locks := (locks s)(lk := \<lparr>locked = 1, lk_cpu = Some (me s)\<rparr>)\<rparr>"

definition ungrab :: "lockid \<Rightarrow> 'x kbase_scheme \<Rightarrow> 'x kbase_scheme" where
  "ungrab lk s = s\<lparr>
     cpus := (cpus s)(me s := \<lparr>ncli = ncli (cpus s (me s)) - 1,
       intena = intena (cpus s (me s)), IF = (ncli (cpus s (me s)) = 1 \<and> intena (cpus s (me s)))\<rparr>),
     locks := (locks s)(lk := \<lparr>locked = 0, lk_cpu = None\<rparr>)\<rparr>"

lemmas lock_defs = set_cpu_def set_lock_def holding_def

lemma acquire_grab: "can_take lk s \<Longrightarrow> acquire lk s = (Val (), grab lk s)"
  by (auto simp: can_take_def cpu_sane_def acquire_def acquire_enter_def xchg_locked_def
      acquire_own_def pushcli_def grab_def lock_defs kmod_def kret_def kbind_def kget_def
      kwhen_def fun_eq_iff split: if_splits)

text \<open>\<open>in_section lk s\<close>: this CPU holds \<open>lk\<close>, with its interrupt bookkeeping in order.\<close>

definition in_section :: "lockid \<Rightarrow> 'x kbase_scheme \<Rightarrow> bool" where
  "in_section lk s =
     (holding lk s \<and> \<not> IF (cpus s (me s)) \<and> 1 \<le> ncli (cpus s (me s)))"

lemma release_ungrab: "in_section lk s \<Longrightarrow> release lk s = (Val (), ungrab lk s)"
  by (auto simp: in_section_def release_def release_check_def release_store_def popcli_def
      ungrab_def lock_defs kmod_def kret_def kbind_def kget_def kwhen_def fun_eq_iff
      split: if_splits)

lemma in_section_grab: "can_take lk s \<Longrightarrow> in_section lk (grab lk s)"
  by (auto simp: can_take_def cpu_sane_def in_section_def grab_def holding_def split: if_splits)

lemma ungrab_grab: "can_take lk s \<Longrightarrow> ungrab lk (grab lk s) = s"
proof -
  assume h: "can_take lk s"
  have l: "locks s lk = \<lparr>locked = 0, lk_cpu = None\<rparr>"
    using h by (simp add: can_take_def)
  have c: "cpus s (me s) = \<lparr>ncli = ncli (cpus s (me s)), intena = intena (cpus s (me s)),
      IF = (ncli (cpus s (me s)) = 0 \<and> intena (cpus s (me s)))\<rparr>"
    using h by (auto simp: can_take_def cpu_sane_def split: if_splits)
  have "(cpus s)(me s := \<lparr>ncli = ncli (cpus s (me s)), intena = intena (cpus s (me s)),
      IF = (ncli (cpus s (me s)) = 0 \<and> intena (cpus s (me s)))\<rparr>) = cpus s"
    by (metis c fun_upd_triv)
  moreover have "(locks s)(lk := \<lparr>locked = 0, lk_cpu = None\<rparr>) = locks s"
    by (metis l fun_upd_triv)
  ultimately show ?thesis
    by (simp add: ungrab_def grab_def)
qed

subsection \<open>Sections as a combinator\<close>

text \<open>
  \<open>with_lock lk f\<close> is the idiom \<open>acquire(lk); ...; release(lk)\<close>.  A body that neither reads nor
  writes lock and interrupt state is \<open>oblivious\<close>; run inside a section of a free lock it does
  exactly what it does outside.
\<close>

definition with_lock :: "lockid \<Rightarrow> ('x kbase_scheme, 'a) K \<Rightarrow> ('x kbase_scheme, 'a) K" where
  "with_lock lk f = kthen (acquire lk) (kbind f (\<lambda>x. kthen (release lk) (kret x)))"

definition oblivious :: "('x kbase_scheme, 'a) K \<Rightarrow> bool" where
  "oblivious f =
     (\<forall>s. me (snd (f s)) = me s \<and>
        (\<forall>c l. f (s\<lparr>cpus := c, locks := l\<rparr>) = (fst (f s), (snd (f s))\<lparr>cpus := c, locks := l\<rparr>)))"

lemma obliviousD:
  assumes "oblivious f" and "f s = (r, t)"
  shows "f (s\<lparr>cpus := c, locks := l\<rparr>) = (r, t\<lparr>cpus := c, locks := l\<rparr>)" and "me t = me s"
  using assms by (simp_all add: oblivious_def, (metis snd_conv)+)

lemma oblivious_keeps:
  assumes "oblivious f" and "f s = (r, t)"
  shows "cpus t = cpus s" and "locks t = locks s"
proof -
  have "f s = (r, t\<lparr>cpus := cpus s, locks := locks s\<rparr>)"
    using obliviousD(1) [OF assms, where c = "cpus s" and l = "locks s"] by simp
  then have "t = t\<lparr>cpus := cpus s, locks := locks s\<rparr>" using assms(2) by simp
  then have "cpus t = cpus (t\<lparr>cpus := cpus s, locks := locks s\<rparr>)"
    and "locks t = locks (t\<lparr>cpus := cpus s, locks := locks s\<rparr>)" by metis+
  then show "cpus t = cpus s" and "locks t = locks s" by simp_all
qed

lemma grab_upd: "grab lk s = s\<lparr>cpus := cpus (grab lk s), locks := locks (grab lk s)\<rparr>"
  by (simp add: grab_def)

lemma with_lock_run:
  assumes "can_take lk s" and "f (grab lk s) = (Val x, grab lk t)" and "can_take lk t"
  shows "with_lock lk f s = (Val x, t)"
proof -
  have "release lk (grab lk t) = (Val (), t)"
    using release_ungrab [OF in_section_grab [OF assms(3)]] ungrab_grab [OF assms(3)] by simp
  then show ?thesis
    using acquire_grab [OF assms(1)] assms(2) by (simp add: with_lock_def kbind_def kret_def)
qed

lemma with_lock_Val:
  assumes "oblivious f" and "can_take lk s" and "f s = (Val x, t)"
  shows "with_lock lk f s = (Val x, t)"
proof -
  have me: "me t = me s" and same: "cpus t = cpus s" "locks t = locks s"
    using obliviousD(2) [OF assms(1,3)] oblivious_keeps [OF assms(1,3)] by simp_all
  then have take: "can_take lk t" using assms(2) by (simp add: can_take_def)
  have "f (grab lk s) = (Val x, t\<lparr>cpus := cpus (grab lk s), locks := locks (grab lk s)\<rparr>)"
    by (subst grab_upd) (rule obliviousD(1) [OF assms(1,3)])
  also have "t\<lparr>cpus := cpus (grab lk s), locks := locks (grab lk s)\<rparr> = grab lk t"
    by (simp add: grab_def me same)
  finally have "f (grab lk s) = (Val x, grab lk t)" .
  then show ?thesis by (rule with_lock_run [OF assms(2) _ take])
qed

lemma with_lock_Fault:
  assumes "oblivious f" and "can_take lk s" and "f s = (Fault e, t)"
  shows "with_lock lk f s = (Fault e, grab lk t)"
proof -
  have me: "me t = me s" and same: "cpus t = cpus s" "locks t = locks s"
    using obliviousD(2) [OF assms(1,3)] oblivious_keeps [OF assms(1,3)] by simp_all
  have "f (grab lk s) = (Fault e, t\<lparr>cpus := cpus (grab lk s), locks := locks (grab lk s)\<rparr>)"
    by (subst grab_upd) (rule obliviousD(1) [OF assms(1,3)])
  also have "t\<lparr>cpus := cpus (grab lk s), locks := locks (grab lk s)\<rparr> = grab lk t"
    by (simp add: grab_def me same)
  finally show ?thesis
    using acquire_grab [OF assms(2)] by (simp add: with_lock_def kbind_def)
qed

named_theorems obl \<open>which operations are oblivious of the locks\<close>

lemma oblivious_kret [obl]: "oblivious (kret x)"
  by (simp add: oblivious_def kret_def)

lemma oblivious_kfail [obl]: "oblivious (kfail e)"
  by (simp add: oblivious_def kfail_def)

lemma oblivious_kget [obl]:
  "(\<And>s c l. g (s\<lparr>cpus := c, locks := l\<rparr>) = g s) \<Longrightarrow> oblivious (kget g)"
  by (simp add: oblivious_def kget_def)

lemma oblivious_kmod [obl]:
  "(\<And>s. me (u s) = me s) \<Longrightarrow>
   (\<And>s c l. u (s\<lparr>cpus := c, locks := l\<rparr>) = (u s)\<lparr>cpus := c, locks := l\<rparr>) \<Longrightarrow> oblivious (kmod u)"
  by (simp add: oblivious_def kmod_def)

lemma oblivious_kbind [obl]:
  assumes "oblivious f" and "\<And>x. oblivious (g x)" shows "oblivious (kbind f g)"
  unfolding oblivious_def
proof (intro allI conjI)
  fix s c l
  obtain r t where f: "f s = (r, t)" by fastforce
  note f' = obliviousD [OF assms(1) f]
  have g: "me (snd (g x t)) = me t"
    "g x (t\<lparr>cpus := c, locks := l\<rparr>) = (fst (g x t), (snd (g x t))\<lparr>cpus := c, locks := l\<rparr>)" for x
    using assms(2) [of x] unfolding oblivious_def by blast+
  show "me (snd (kbind f g s)) = me s"
    using f f'(2) g(1) by (cases r) (simp_all add: kbind_def)
  show "kbind f g (s\<lparr>cpus := c, locks := l\<rparr>) =
      (fst (kbind f g s), (snd (kbind f g s))\<lparr>cpus := c, locks := l\<rparr>)"
    using f f'(1) g(2) by (cases r) (simp_all add: kbind_def)
qed

lemma oblivious_if [obl]: "oblivious f \<Longrightarrow> oblivious g \<Longrightarrow> oblivious (if b then f else g)"
  by simp

lemma oblivious_kwhen [obl]: "oblivious f \<Longrightarrow> oblivious (kwhen b f)"
  by (simp add: kwhen_def oblivious_kret)

lemma oblivious_kfor [obl]: "(\<And>i. oblivious (f i)) \<Longrightarrow> oblivious (kfor is f)"
  by (induction "is") (simp_all add: obl)

lemma oblivious_case_option [obl]:
  "oblivious f \<Longrightarrow> (\<And>x. oblivious (g x)) \<Longrightarrow> oblivious (case v of None \<Rightarrow> f | Some x \<Rightarrow> g x)"
  by (cases v) simp_all

section \<open>Several CPUs: mutual exclusion\<close>

text \<open>
  Where a CPU stands in the code between an \<open>acquire(lk)\<close> and the matching \<open>release(lk)\<close>:
  outside; in the exchange loop; past the exchange; inside the section; past the owner's reset
  in \<open>release\<close>; past the store of 0.
\<close>

datatype lkpc = Outside | Spinning | Taken | Critical | Releasing | Leaving

type_synonym spin_state = "kbase \<times> (nat \<Rightarrow> lkpc)"

definition on_cpu :: "nat \<Rightarrow> kbase \<Rightarrow> kbase" where
  "on_cpu c s = s\<lparr>me := c\<rparr>"

inductive spin_step :: "lockid \<Rightarrow> spin_state \<Rightarrow> spin_state \<Rightarrow> bool" for lk where
  enter: "pc c = Outside \<Longrightarrow> acquire_enter lk (on_cpu c s) = (Val (), s') \<Longrightarrow>
     spin_step lk (s, pc) (s', pc(c := Spinning))"
| retry: "pc c = Spinning \<Longrightarrow> xchg_locked lk (on_cpu c s) = (Val old, s') \<Longrightarrow> old \<noteq> 0 \<Longrightarrow>
     spin_step lk (s, pc) (s', pc)"
| take: "pc c = Spinning \<Longrightarrow> xchg_locked lk (on_cpu c s) = (Val old, s') \<Longrightarrow> old = 0 \<Longrightarrow>
     spin_step lk (s, pc) (s', pc(c := Taken))"
| own: "pc c = Taken \<Longrightarrow> acquire_own lk (on_cpu c s) = (Val (), s') \<Longrightarrow>
     spin_step lk (s, pc) (s', pc(c := Critical))"
| disown: "pc c = Critical \<Longrightarrow> release_check lk (on_cpu c s) = (Val (), s') \<Longrightarrow>
     spin_step lk (s, pc) (s', pc(c := Releasing))"
| store: "pc c = Releasing \<Longrightarrow> release_store lk (on_cpu c s) = (Val (), s') \<Longrightarrow>
     spin_step lk (s, pc) (s', pc(c := Leaving))"
| leave: "pc c = Leaving \<Longrightarrow> popcli (on_cpu c s) = (Val (), s') \<Longrightarrow>
     spin_step lk (s, pc) (s', pc(c := Outside))"

definition spin_init :: "lockid \<Rightarrow> spin_state \<Rightarrow> bool" where
  "spin_init lk st =
     (locks (fst st) lk = \<lparr>locked = 0, lk_cpu = None\<rparr> \<and> (\<forall>c. snd st c = Outside) \<and>
      (\<forall>c. ncli (cpus (fst st) c) = 0 \<and> IF (cpus (fst st) c)))"

inductive spin_reach :: "lockid \<Rightarrow> spin_state \<Rightarrow> bool" for lk where
  start: "spin_init lk st \<Longrightarrow> spin_reach lk st"
| step: "spin_reach lk st \<Longrightarrow> spin_step lk st st' \<Longrightarrow> spin_reach lk st'"

definition owns :: "lkpc \<Rightarrow> bool" where
  "owns p = (p = Taken \<or> p = Critical \<or> p = Releasing)"

definition lock_of :: "(nat \<Rightarrow> lkpc) \<Rightarrow> spinlock \<Rightarrow> bool" where
  "lock_of pc l =
     ((locked l = 0 \<longrightarrow> (\<forall>c. \<not> owns (pc c)) \<and> lk_cpu l = None) \<and>
      (locked l \<noteq> 0 \<longrightarrow> locked l = 1 \<and>
         (\<exists>c. owns (pc c) \<and> (\<forall>d. owns (pc d) \<longrightarrow> d = c) \<and>
              lk_cpu l = (if pc c = Critical then Some c else None))))"

definition cpu_of :: "lkpc \<Rightarrow> cpu \<Rightarrow> bool" where
  "cpu_of p c = (if p = Outside then ncli c = 0 \<and> IF c else ncli c = 1 \<and> \<not> IF c \<and> intena c)"

definition spin_inv :: "lockid \<Rightarrow> spin_state \<Rightarrow> bool" where
  "spin_inv lk st =
     (lock_of (snd st) (locks (fst st) lk) \<and> (\<forall>c. cpu_of (snd st c) (cpus (fst st) c)))"

lemma lock_of_cpu:
  assumes "lock_of pc l"
  shows "lk_cpu l = Some c \<Longrightarrow> pc c = Critical" and "pc c = Critical \<Longrightarrow> lk_cpu l = Some c"
    and "pc c = Critical \<Longrightarrow> locked l \<noteq> 0"
  using assms unfolding lock_of_def owns_def
  by (metis option.inject option.distinct(1), metis, metis)

lemma acquire_enter_inv:
  assumes "spin_inv lk (s, pc)" and "pc c = Outside"
  shows "acquire_enter lk (on_cpu c s) =
     (Val (), s\<lparr>me := c, cpus := (cpus s)(c := \<lparr>ncli = 1, intena = True, IF = False\<rparr>)\<rparr>)"
proof -
  have "cpu_of Outside (cpus s c)"
    using assms by (metis spin_inv_def fst_conv snd_conv)
  moreover have "lk_cpu (locks s lk) \<noteq> Some c"
    using assms lock_of_cpu(1) by (fastforce simp: spin_inv_def)
  ultimately show ?thesis
    by (cases "cpus s c") (simp add: cpu_of_def acquire_enter_def pushcli_def on_cpu_def lock_defs kmod_def
        kret_def kbind_def kget_def kwhen_def)
qed

lemma release_check_inv:
  assumes "spin_inv lk (s, pc)" and "pc c = Critical"
  shows "release_check lk (on_cpu c s) =
     (Val (), s\<lparr>me := c, locks := (locks s)(lk := (locks s lk)\<lparr>lk_cpu := None\<rparr>)\<rparr>)"
proof -
  have "locked (locks s lk) \<noteq> 0 \<and> lk_cpu (locks s lk) = Some c"
    using assms lock_of_cpu(2,3) by (metis spin_inv_def fst_conv snd_conv)
  then show ?thesis
    by (simp add: release_check_def on_cpu_def lock_defs kmod_def kbind_def kget_def)
qed

lemma popcli_inv:
  assumes "spin_inv lk (s, pc)" and "pc c = Leaving"
  shows "popcli (on_cpu c s) =
     (Val (), s\<lparr>me := c, cpus := (cpus s)(c := \<lparr>ncli = 0, intena = True, IF = True\<rparr>)\<rparr>)"
proof -
  have "cpu_of Leaving (cpus s c)"
    using assms by (metis spin_inv_def fst_conv snd_conv)
  then show ?thesis
    by (cases "cpus s c") (simp add: cpu_of_def popcli_def on_cpu_def lock_defs kmod_def
        kret_def kbind_def kget_def kwhen_def)
qed

lemmas xchg_on_cpu = xchg_locked_def on_cpu_def set_lock_def kbind_def kget_def kmod_def kret_def

text \<open>How each transition changes the agreement between program counters and lock.\<close>

lemma lock_of_other:
  assumes "\<not> owns (pc c)" and "\<not> owns p" and "lock_of pc l"
  shows "lock_of (pc(c := p)) l"
proof -
  have *: "owns ((pc(c := p)) d) = owns (pc d)" for d
    using assms(1,2) by simp
  moreover have "(if (pc(c := p)) d = Critical then Some d else None) =
      (if pc d = Critical then Some d else None)" if "owns (pc d)" for d
    using that assms(1,2) by auto
  ultimately show ?thesis
    using assms(3) unfolding lock_of_def by (metis (no_types, lifting))
qed

lemma lock_of_take:
  assumes "lock_of pc l" and "locked l = 0"
  shows "lock_of (pc(c := Taken)) (l\<lparr>locked := 1\<rparr>)"
  using assms by (auto simp: lock_of_def owns_def)

lemma lock_of_owner:
  assumes "lock_of pc l" and "owns (pc c)"
  shows "locked l = 1" and "owns (pc d) \<Longrightarrow> d = c"
  using assms unfolding lock_of_def by (metis, metis)

lemma lock_of_own:
  assumes "lock_of pc l" and "owns (pc c)"
  shows "lock_of (pc(c := Critical)) (l\<lparr>lk_cpu := Some c\<rparr>)"
    and "lock_of (pc(c := Releasing)) (l\<lparr>lk_cpu := None\<rparr>)"
    and "lk_cpu l = None \<Longrightarrow> lock_of (pc(c := Leaving)) (l\<lparr>locked := 0\<rparr>)"
  using lock_of_owner [OF assms] by (auto simp: lock_of_def owns_def)

lemma spin_step_inv:
  assumes "spin_step lk st st'" and "spin_inv lk st"
  shows "spin_inv lk st'"
  using assms
proof (induction rule: spin_step.induct)
  case (enter pc c s s')
  then have "lock_of (pc(c := Spinning)) (locks s lk)"
    by (intro lock_of_other) (auto simp: spin_inv_def owns_def)
  moreover have "s' = s\<lparr>me := c, cpus := (cpus s)(c := \<lparr>ncli = 1, intena = True, IF = False\<rparr>)\<rparr>"
    using enter acquire_enter_inv by fastforce
  ultimately show ?case
    using enter by (auto simp: spin_inv_def cpu_of_def)
next
  case (retry pc c s old s')
  then have "locked (locks s lk) = 1"
    by (auto simp: xchg_on_cpu spin_inv_def lock_of_def)
  then have "(locks s lk)\<lparr>locked := 1\<rparr> = locks s lk"
    by (cases "locks s lk") simp
  with retry show ?case
    by (auto simp: xchg_on_cpu spin_inv_def)
next
  case (take pc c s old s')
  then have "lock_of (pc(c := Taken)) ((locks s lk)\<lparr>locked := 1\<rparr>)"
    by (intro lock_of_take) (auto simp: xchg_on_cpu spin_inv_def)
  with take show ?case
    by (auto simp: xchg_on_cpu spin_inv_def cpu_of_def)
next
  case (own pc c s s')
  then have "lock_of (pc(c := Critical)) ((locks s lk)\<lparr>lk_cpu := Some c\<rparr>)"
    by (intro lock_of_own) (auto simp: spin_inv_def owns_def)
  with own show ?case
    by (auto simp: acquire_own_def on_cpu_def set_lock_def kmod_def spin_inv_def cpu_of_def)
next
  case (disown pc c s s')
  then have "lock_of (pc(c := Releasing)) ((locks s lk)\<lparr>lk_cpu := None\<rparr>)"
    by (intro lock_of_own) (auto simp: spin_inv_def owns_def)
  moreover have "s' = s\<lparr>me := c, locks := (locks s)(lk := (locks s lk)\<lparr>lk_cpu := None\<rparr>)\<rparr>"
    using disown release_check_inv by fastforce
  ultimately show ?case
    using disown by (auto simp: spin_inv_def cpu_of_def)
next
  case (store pc c s s')
  then have l: "lock_of pc (locks s lk)" and o: "owns (pc c)"
    by (simp_all add: spin_inv_def owns_def)
  have "lk_cpu (locks s lk) = None"
  proof (rule ccontr)
    assume "lk_cpu (locks s lk) \<noteq> None"
    then obtain d where "pc d = Critical"
      using lock_of_cpu(1) [OF l] by blast
    then show False
      using lock_of_owner(2) [OF l o, of d] store.hyps(1) by (simp add: owns_def)
  qed
  with store have "lock_of (pc(c := Leaving)) ((locks s lk)\<lparr>locked := 0\<rparr>)"
    by (intro lock_of_own) (auto simp: spin_inv_def owns_def)
  with store show ?case
    by (auto simp: release_store_def on_cpu_def set_lock_def kmod_def spin_inv_def cpu_of_def)
next
  case (leave pc c s s')
  then have "lock_of (pc(c := Outside)) (locks s lk)"
    by (intro lock_of_other) (auto simp: spin_inv_def owns_def)
  moreover have "s' = s\<lparr>me := c, cpus := (cpus s)(c := \<lparr>ncli = 0, intena = True, IF = True\<rparr>)\<rparr>"
    using leave popcli_inv by fastforce
  ultimately show ?case
    using leave by (auto simp: spin_inv_def cpu_of_def)
qed

lemma spin_reach_inv: "spin_reach lk st \<Longrightarrow> spin_inv lk st"
proof (induction rule: spin_reach.induct)
  case (start st)
  then show ?case
    by (auto simp: spin_init_def spin_inv_def lock_of_def cpu_of_def owns_def)
next
  case (step st st')
  then show ?case by (blast intro: spin_step_inv)
qed

text \<open>
  C4: However the CPUs' instructions interleave, two CPUs are never between the atomic exchange
  of \<open>acquire\<close> and the store of 0 in \<open>release\<close> of the same lock, and a CPU in the section is
  recorded as the owner, with interrupts off.
\<close>

theorem spinlock_mutual_exclusion:
  assumes "spin_reach lk (s, pc)" and "pc c = Critical"
  shows "(\<forall>d. pc d = Critical \<longrightarrow> d = c) \<and> holding lk (on_cpu c s) \<and> \<not> IF (cpus s c)"
proof -
  have inv: "spin_inv lk (s, pc)"
    using assms(1) by (rule spin_reach_inv)
  then have "cpu_of (pc c) (cpus s c)" and l: "lock_of pc (locks s lk)"
    by (simp_all add: spin_inv_def)
  then have "\<not> IF (cpus s c)" and "holding lk (on_cpu c s)"
    using lock_of_cpu(2,3) [OF l assms(2)] assms(2)
    by (simp_all add: cpu_of_def holding_def on_cpu_def)
  moreover have "\<forall>d. pc d = Critical \<longrightarrow> d = c"
    using lock_of_owner(2) [OF l, of c] assms(2) by (simp add: owns_def)
  ultimately show ?thesis by blast
qed


definition spin_ex :: kbase where
  "spin_ex = \<lparr>me = 0, cpus = (\<lambda>_. \<lparr>ncli = 0, intena = True, IF = True\<rparr>),
     locks = (\<lambda>_. \<lparr>locked = 0, lk_cpu = None\<rparr>)\<rparr>"

text \<open>CPU 1 enters, takes and owns the lock.\<close>

lemma spin_reach_init_ex: "spin_reach lk (spin_ex, \<lambda>_. Outside)"
  by (rule spin_reach.start) (simp add: spin_init_def spin_ex_def)

lemma spin_reach_critical_ex:
  "\<exists>s. spin_reach L_kmem (s, (\<lambda>_. Outside)(Suc 0 := Critical))"
proof -
  let ?o = "\<lambda>_::nat. Outside"
  obtain s1 where s1: "acquire_enter L_kmem (on_cpu (Suc 0) spin_ex) = (Val (), s1)"
      and l1: "locked (locks s1 L_kmem) = 0"
    by (simp add: acquire_enter_def pushcli_def on_cpu_def lock_defs kmod_def
        kret_def kbind_def kget_def kwhen_def spin_ex_def)
  have "spin_reach L_kmem (s1, ?o(Suc 0 := Spinning))"
    by (rule spin_reach.step [OF spin_reach_init_ex spin_step.enter]) (simp_all add: s1)
  moreover obtain s2 where s2: "xchg_locked L_kmem (on_cpu (Suc 0) s1) = (Val 0, s2)"
    using l1 by (simp add: xchg_on_cpu)
  ultimately have "spin_reach L_kmem (s2, (?o(Suc 0 := Spinning))(Suc 0 := Taken))"
    by (rule_tac spin_reach.step [OF _ spin_step.take]) auto
  moreover obtain s3 where s3: "acquire_own L_kmem (on_cpu (Suc 0) s2) = (Val (), s3)"
    by (simp add: acquire_own_def kmod_def)
  ultimately have "spin_reach L_kmem (s3, ((?o(Suc 0 := Spinning))(Suc 0 := Taken))(Suc 0 := Critical))"
    by (rule_tac spin_reach.step [OF _ spin_step.own]) auto
  then show ?thesis by auto
qed

theorem spinlock_mutual_exclusion_witness:
  "\<exists>s. (\<forall>d. ((\<lambda>_. Outside)(Suc 0 := Critical)) d = Critical \<longrightarrow> d = Suc 0) \<and>
     holding L_kmem (on_cpu (Suc 0) s) \<and> \<not> IF (cpus s (Suc 0))"
proof -
  obtain s where s: "spin_reach L_kmem (s, (\<lambda>_. Outside)(Suc 0 := Critical))"
    using spin_reach_critical_ex by blast
  have "((\<lambda>_. Outside)(Suc 0 := Critical)) (Suc 0) = Critical"
    by simp
  from spinlock_mutual_exclusion [OF s this] show ?thesis by blast
qed


end
