(* ===== verification/Xv6_String.thy ===== *)
theory Xv6_String
  imports Xv6_Prelude
begin

text \<open>
  The kernel's \<open>string.c\<close> and the string part of the user library \<open>ulib.c\<close>, on byte-addressed
  memory with 32-bit addresses: pointers wrap around, and a loop that walks to a NUL byte is a
  \<open>partial_function\<close> because nothing makes it stop in a memory without one.  \<open>stosb\<close> and
  \<open>stosl\<close> are the string instructions of \<open>x86.h\<close>.
\<close>

section \<open>Operations\<close>

fun stosb :: "memory \<Rightarrow> u32 \<Rightarrow> u8 \<Rightarrow> nat \<Rightarrow> memory" where
  "stosb m addr data 0 = m"
| "stosb m addr data (Suc cnt) = stosb (m(addr := data)) (addr + 1) data cnt"

fun stosl :: "memory \<Rightarrow> u32 \<Rightarrow> u32 \<Rightarrow> nat \<Rightarrow> memory" where
  "stosl m addr data 0 = m"
| "stosl m addr data (Suc cnt) = stosl (store32 m addr data) (addr + 4) data cnt"

text \<open>The aligned case of \<open>memset\<close> replicates the byte into a word and stores words.\<close>

definition memset :: "memory \<Rightarrow> u32 \<Rightarrow> u32 \<Rightarrow> u32 \<Rightarrow> memory" where
  "memset m dst c n =
     (if dst mod 4 = 0 \<and> n mod 4 = 0
      then let c = c AND 0xFF in
           stosl m dst (push_bit 24 c OR push_bit 16 c OR push_bit 8 c OR c) (unat (n div 4))
      else stosb m dst (ucast c) (unat n))"

fun memcmp :: "memory \<Rightarrow> u32 \<Rightarrow> u32 \<Rightarrow> nat \<Rightarrow> int" where
  "memcmp m s1 s2 0 = 0"
| "memcmp m s1 s2 (Suc n) =
     (if m s1 \<noteq> m s2 then uint (m s1) - uint (m s2) else memcmp m (s1 + 1) (s2 + 1) n)"

fun copy_up :: "memory \<Rightarrow> u32 \<Rightarrow> u32 \<Rightarrow> nat \<Rightarrow> memory" where
  "copy_up m d s 0 = m"
| "copy_up m d s (Suc n) = copy_up (m(d := m s)) (d + 1) (s + 1) n"

fun copy_down :: "memory \<Rightarrow> u32 \<Rightarrow> u32 \<Rightarrow> nat \<Rightarrow> memory" where
  "copy_down m d s 0 = m"
| "copy_down m d s (Suc n) = copy_down (m(d - 1 := m (s - 1))) (d - 1) (s - 1) n"

definition memmove :: "memory \<Rightarrow> u32 \<Rightarrow> u32 \<Rightarrow> u32 \<Rightarrow> memory" where
  "memmove m dst src n =
     (if src < dst \<and> src + n > dst
      then copy_down m (dst + n) (src + n) (unat n)
      else copy_up m dst src (unat n))"

definition memcpy :: "memory \<Rightarrow> u32 \<Rightarrow> u32 \<Rightarrow> u32 \<Rightarrow> memory" where
  "memcpy m dst src n = memmove m dst src n"

fun strncmp :: "memory \<Rightarrow> u32 \<Rightarrow> u32 \<Rightarrow> nat \<Rightarrow> int" where
  "strncmp m p q 0 = 0"
| "strncmp m p q (Suc n) =
     (if m p \<noteq> 0 \<and> m p = m q then strncmp m (p + 1) (q + 1) n
      else uint (m p) - uint (m q))"

text \<open>
  The two loops of \<open>strncpy\<close>.  The first returns the memory, the target pointer and the
  counter as \<open>n--\<close> leaves it, whichever of its two conditions failed.
\<close>

function strncpy_copy :: "memory \<Rightarrow> u32 \<Rightarrow> u32 \<Rightarrow> int \<Rightarrow> memory \<times> u32 \<times> int" where
  "strncpy_copy m s t n =
     (if n > 0 then
        (if m t \<noteq> 0 then strncpy_copy (m(s := m t)) (s + 1) (t + 1) (n - 1)
         else (m(s := m t), s + 1, n - 1))
      else (m, s, n - 1))"
  by pat_completeness auto
termination by (relation "measure (\<lambda>(m, s, t, n). nat n)") auto

function strncpy_pad :: "memory \<Rightarrow> u32 \<Rightarrow> int \<Rightarrow> memory" where
  "strncpy_pad m s n = (if n > 0 then strncpy_pad (m(s := 0)) (s + 1) (n - 1) else m)"
  by pat_completeness auto
termination by (relation "measure (\<lambda>(m, s, n). nat n)") auto

definition strncpy :: "memory \<Rightarrow> u32 \<Rightarrow> u32 \<Rightarrow> int \<Rightarrow> memory" where
  "strncpy m s t n = (case strncpy_copy m s t n of (m', s', n') \<Rightarrow> strncpy_pad m' s' n')"

function safestrcpy_copy :: "memory \<Rightarrow> u32 \<Rightarrow> u32 \<Rightarrow> int \<Rightarrow> memory \<times> u32" where
  "safestrcpy_copy m s t n =
     (if n - 1 > 0 then
        (if m t \<noteq> 0 then safestrcpy_copy (m(s := m t)) (s + 1) (t + 1) (n - 1)
         else (m(s := m t), s + 1))
      else (m, s))"
  by pat_completeness auto
termination by (relation "measure (\<lambda>(m, s, t, n). nat n)") auto

definition safestrcpy :: "memory \<Rightarrow> u32 \<Rightarrow> u32 \<Rightarrow> int \<Rightarrow> memory" where
  "safestrcpy m s t n =
     (if n \<le> 0 then m
      else case safestrcpy_copy m s t n of (m', s') \<Rightarrow> m'(s' := 0))"

partial_function (option) strlen :: "memory \<Rightarrow> u32 \<Rightarrow> nat \<Rightarrow> nat option" where
  "strlen m s n = (if m (s + of_nat n) \<noteq> 0 then strlen m s (Suc n) else Some n)"

declare strncpy_copy.simps [simp del] strncpy_pad.simps [simp del] safestrcpy_copy.simps [simp del]

subsection \<open>The user library\<close>

partial_function (option) strcpy :: "memory \<Rightarrow> u32 \<Rightarrow> u32 \<Rightarrow> memory option" where
  "strcpy m s t =
     (let m' = m(s := m t) in if m' s \<noteq> 0 then strcpy m' (s + 1) (t + 1) else Some m')"

partial_function (option) strcmp :: "memory \<Rightarrow> u32 \<Rightarrow> u32 \<Rightarrow> int option" where
  "strcmp m p q =
     (if m p \<noteq> 0 \<and> m p = m q then strcmp m (p + 1) (q + 1)
      else Some (uint (m p) - uint (m q)))"

text \<open>\<open>strchr\<close> returns the address of the first \<open>c\<close>, or 0.\<close>

partial_function (option) strchr :: "memory \<Rightarrow> u32 \<Rightarrow> u8 \<Rightarrow> u32 option" where
  "strchr m s c =
     (if m s \<noteq> 0 then (if m s = c then Some s else strchr m (s + 1) c) else Some 0)"

definition ulib_memset :: "memory \<Rightarrow> u32 \<Rightarrow> u32 \<Rightarrow> u32 \<Rightarrow> memory" where
  "ulib_memset m dst c n = stosb m dst (ucast c) (unat n)"

text \<open>The user library's \<open>memmove\<close> takes a signed count and always copies upwards.\<close>

definition ulib_memmove :: "memory \<Rightarrow> u32 \<Rightarrow> u32 \<Rightarrow> int \<Rightarrow> memory" where
  "ulib_memmove m vdst vsrc n = copy_up m vdst vsrc (nat n)"

section \<open>Reference semantics and lemmas\<close>

text \<open>\<open>bstr m p n\<close>: the bytes of the C string at \<open>p\<close>, cut off after \<open>n\<close> bytes.\<close>

fun bstr :: "memory \<Rightarrow> u32 \<Rightarrow> nat \<Rightarrow> u8 list" where
  "bstr m p 0 = []"
| "bstr m p (Suc n) = (if m p = 0 then [] else m p # bstr m (p + 1) n)"

lemma unat_minus_1: "(y :: 'w::len word) \<noteq> 0 \<Longrightarrow> unat (y - 1) = unat y - 1"
  by (simp add: unat_minus_one)

lemma stosb_apply: "n \<le> 2 ^ 32 \<Longrightarrow> stosb m a d n x = (if unat (x - a) < n then d else m x)"
proof (induction n arbitrary: m a)
  case 0
  then show ?case by simp
next
  case (Suc n)
  have "unat (x - (a + 1)) = unat (x - a) - 1" if "x \<noteq> a"
    using that unat_minus_1 [of "x - a"] by (simp add: diff_diff_eq)
  moreover have "unat (x - a) \<noteq> 0" if "x \<noteq> a"
    using that by (simp add: unat_gt_0)
  moreover have "unat (a - (a + 1)) = 2 ^ 32 - 1"
    by (simp add: unsigned_minus_1_eq_mask mask_eq_exp_minus_1)
  ultimately show ?case
    using Suc by (auto simp: fun_upd_def)
qed

lemma copy_up_apply:
  assumes "unat (d - s) = 0 \<or> n \<le> unat (d - s)" and "n \<le> 2 ^ 32"
  shows "copy_up m d s n x = (if unat (x - d) < n then m (s + (x - d)) else m x)"
  using assms
proof (induction n arbitrary: m d s)
  case 0
  then show ?case by simp
next
  case (Suc n)
  have IH: "copy_up m' (d + 1) (s + 1) n x =
      (if unat (x - (d + 1)) < n then m' (s + (x - d)) else m' x)" for m'
  proof -
    have e: "d + 1 - (s + 1) = d - s" "s + 1 + (x - (d + 1)) = s + (x - d)"
      by (simp_all add: algebra_simps)
    have "unat (d - s) = 0 \<or> n \<le> unat (d - s)" and "n \<le> 2 ^ 32"
      using Suc.prems by auto
    then show ?thesis
      using Suc.IH [of "d + 1" "s + 1" m'] unfolding e by blast
  qed
  have 1: "unat (x - (d + 1)) = unat (x - d) - 1" "unat (x - d) \<noteq> 0" if "x \<noteq> d"
    using that unat_minus_1 [of "x - d"] by (simp_all add: diff_diff_eq unat_gt_0)
  have 2: "unat (d - (d + 1)) = 2 ^ 32 - 1"
    by (simp add: unsigned_minus_1_eq_mask mask_eq_exp_minus_1)
  have 3: "s + (x - d) \<noteq> d" if "x \<noteq> d" "unat (x - d) < Suc n"
  proof
    assume "s + (x - d) = d"
    then have "x - d = d - s" by (simp add: algebra_simps)
    then have "unat (d - s) = unat (x - d)" by (rule arg_cong [OF sym])
    then show False using Suc.prems(1) that 1(2) by linarith
  qed
  show ?case
    using IH 1 2 3 Suc.prems(2) by (cases "x = d") auto
qed

lemma copy_down_apply:
  assumes "unat (s - d) = 0 \<or> n \<le> unat (s - d)" and "n \<le> 2 ^ 32"
  shows "copy_down m d s n x = (if unat (d - 1 - x) < n then m (s - (d - x)) else m x)"
  using assms
proof (induction n arbitrary: m d s)
  case 0
  then show ?case by simp
next
  case (Suc n)
  have IH: "copy_down m' (d - 1) (s - 1) n x =
      (if unat (d - 1 - 1 - x) < n then m' (s - (d - x)) else m' x)" for m'
  proof -
    have e: "s - 1 - (d - 1) = s - d" "s - 1 - (d - 1 - x) = s - (d - x)"
      by (simp_all add: algebra_simps)
    have "unat (s - d) = 0 \<or> n \<le> unat (s - d)" and "n \<le> 2 ^ 32"
      using Suc.prems by auto
    then show ?thesis
      using Suc.IH [of "s - 1" "d - 1" m'] unfolding e by blast
  qed
  have 1: "unat (d - 1 - 1 - x) = unat (d - 1 - x) - 1" "unat (d - 1 - x) \<noteq> 0" if "x \<noteq> d - 1"
    using that unat_minus_1 [of "d - 1 - x"] by (simp_all add: algebra_simps unat_gt_0)
  have 2: "unat (d - 1 - 1 - (d - 1)) = 2 ^ 32 - 1"
    by (simp add: unsigned_minus_1_eq_mask mask_eq_exp_minus_1)
  have 3: "s - (d - x) \<noteq> d - 1" if "x \<noteq> d - 1" "unat (d - 1 - x) < Suc n"
  proof
    assume "s - (d - x) = d - 1"
    then have "d - 1 - x = s - d" by (simp add: algebra_simps)
    then have "unat (s - d) = unat (d - 1 - x)" by (rule arg_cong [OF sym])
    then show False using Suc.prems(1) that 1(2) by linarith
  qed
  show ?case
    using IH 1 2 3 Suc.prems(2) by (cases "x = d - 1") auto
qed

lemma unat_sub32: "unat (a - b :: u32) = (if unat b \<le> unat a then unat a - unat b
    else 2 ^ 32 + unat a - unat b)"
  by (auto simp: unat_sub_if_size word_size)

lemma unat32_less: "unat (x :: u32) < 2 ^ 32"
  using unsigned_less [of x] by simp

lemma memmove_eq:
  assumes "unat src + unat n \<le> 2 ^ 32" and "unat dst + unat n \<le> 2 ^ 32"
  shows "memmove m dst src n = (\<lambda>x. if unat (x - dst) < unat n then m (src + (x - dst)) else m x)"
proof (cases "src < dst \<and> src + n > dst")
  case True
  then have lt: "unat src < unat dst" by (simp add: word_less_nat_alt)
  have c: "unat (src + n - (dst + n)) = 0 \<or> unat n \<le> unat (src + n - (dst + n))"
    using assms lt by (auto simp: unat_sub32)
  have r: "(unat (dst + n - 1 - x) < unat n) = (unat (x - dst) < unat n)" for x
  proof (cases "n = 0")
    case True then show ?thesis by simp
  next
    case False
    have "dst + n - 1 - x = n - 1 - (x - dst)" by (simp add: algebra_simps)
    then have "unat (dst + n - 1 - x) = unat (n - 1 - (x - dst))" by (rule arg_cong)
    moreover have "unat (n - 1) = unat n - 1" "unat n > 0" using False unat_minus_1 
      by (auto simp: unat_gt_0)
    moreover have "unat (x - dst) < 2 ^ 32" "unat n < 2 ^ 32" by (simp_all only: unat32_less)
    ultimately show ?thesis by (auto simp: unat_sub32 [of "n - 1"])
  qed
  have e: "src + n - (dst + n - x) = src + (x - dst)" for x by (simp add: algebra_simps)
  have "unat n \<le> 2 ^ 32"
    using assms(1) by simp
  then have "copy_down m (dst + n) (src + n) (unat n) x =
      (if unat (x - dst) < unat n then m (src + (x - dst)) else m x)" for x
    using copy_down_apply [OF c, of m x] unfolding r e by blast
  with True show ?thesis
    unfolding memmove_def by auto
next
  case False
  have "unat (dst - src) = 0 \<or> unat n \<le> unat (dst - src)"
  proof (cases "src < dst")
    case True
    then have lt: "unat src < unat dst" by (simp add: word_less_nat_alt)
    have nw: "unat (src + n) = unat src + unat n"
      using assms lt by (simp add: unat_word_ariths)
    then have "unat src + unat n \<le> unat dst" using False True by (simp add: word_less_nat_alt)
    then show ?thesis by (auto simp: unat_sub32)
  next
    case F: False
    then have "unat dst \<le> unat src" by (simp add: word_less_nat_alt)
    then show ?thesis using assms by (auto simp: unat_sub32)
  qed
  moreover have "unat n \<le> 2 ^ 32"
    using assms(1) by simp
  ultimately have "copy_up m dst src (unat n) x =
      (if unat (x - dst) < unat n then m (src + (x - dst)) else m x)" for x
    by (rule copy_up_apply)
  with False show ?thesis
    unfolding memmove_def by auto
qed

lemma replicate_bytes:
  fixes c :: u32
  defines "w \<equiv> push_bit 24 (c AND 0xFF) OR push_bit 16 (c AND 0xFF) OR push_bit 8 (c AND 0xFF) OR (c AND 0xFF)"
  shows "ucast w = (ucast c :: u8)" and "ucast (drop_bit 8 w) = (ucast c :: u8)"
    and "ucast (drop_bit 16 w) = (ucast c :: u8)" and "ucast (drop_bit 24 w) = (ucast c :: u8)"
proof -
  have ff: "c AND 0xFF = take_bit 8 c"
    by (simp add: take_bit_eq_mask mask_eq_exp_minus_1)
  show "ucast w = (ucast c :: u8)" "ucast (drop_bit 8 w) = (ucast c :: u8)"
    "ucast (drop_bit 16 w) = (ucast c :: u8)" "ucast (drop_bit 24 w) = (ucast c :: u8)"
    unfolding w_def ff by (rule bit_word_eqI; auto simp: bit_simps)+
qed

lemma stosl_stosb:
  assumes "ucast w = b" "ucast (drop_bit 8 w) = b" "ucast (drop_bit 16 w) = b" "ucast (drop_bit 24 w) = b"
  shows "stosl m a w k = stosb m a b (4 * k)"
proof (induction k arbitrary: m a)
  case 0
  then show ?case by simp
next
  case (Suc k)
  have "4 * Suc k = Suc (Suc (Suc (Suc (4 * k))))" by simp
  then show ?case
    using Suc assms by (simp add: store32_def add.assoc del: mult_Suc_right fun_upd_apply)
qed

lemma memset_eq_stosb: "memset m dst c n = stosb m dst (ucast c) (unat n)"
proof (cases "dst mod 4 = 0 \<and> n mod 4 = 0")
  case True
  have "unat (n mod 4) = 0" using True by simp
  then have "unat n mod 4 = 0" by (simp add: unat_mod)
  then have "4 * unat (n div 4) = unat n" by (simp add: unat_div) arith
  with True show ?thesis
    unfolding memset_def Let_def stosl_stosb [OF replicate_bytes] by simp
next
  case False
  then show ?thesis by (auto simp: memset_def)
qed

lemma bstr_2: "bstr m p 2 = bstr m p (Suc (Suc 0))"
  by (simp only: numeral_2_eq_2)

lemma length_bstr: "length (bstr m p n) \<le> n"
  by (induction n arbitrary: p) auto

lemma bstr_nonzero: "b \<in> set (bstr m p n) \<Longrightarrow> b \<noteq> 0"
  by (induction n arbitrary: p) (auto split: if_splits)

lemma strncmp_eq_0: "strncmp m p q n = 0 \<longleftrightarrow> bstr m p n = bstr m q n"
  by (induction n arbitrary: p q) (auto simp: word_uint_eq_iff)

lemma bstr_upd: "n \<le> unat (s - t) \<Longrightarrow> bstr (m(s := v)) t n = bstr m t n"
proof (induction n arbitrary: t)
  case 0
  then show ?case by simp
next
  case (Suc n)
  then have "s \<noteq> t" by auto
  then have "unat (s - (t + 1)) = unat (s - t) - 1"
    using unat_minus_1 [of "s - t"] by (simp add: diff_diff_eq)
  with Suc \<open>s \<noteq> t\<close> show ?case by auto
qed

lemma strncpy_pad_eq: "strncpy_pad m s n = stosb m s 0 (nat n)"
proof (induction m s n rule: strncpy_pad.induct)
  case (1 m s n)
  show ?case
  proof (cases "n > 0")
    case True
    then have "nat n = Suc (nat (n - 1))" by simp
    with True 1 show ?thesis by (simp add: strncpy_pad.simps [of m s n] del: fun_upd_apply)
  next
    case False
    then show ?thesis by (simp add: strncpy_pad.simps [of m s n])
  qed
qed

lemma strncpy_0: "strncpy m s t 0 = m"
  by (simp add: strncpy_def strncpy_copy.simps [of m s t] strncpy_pad_eq)

lemma strncpy_Suc: "strncpy m s t (int (Suc n)) =
   (if m t \<noteq> 0 then strncpy (m(s := m t)) (s + 1) (t + 1) (int n) else stosb m s 0 (Suc n))"
  by (simp add: strncpy_def strncpy_copy.simps [of m s t] strncpy_pad_eq)

lemma strncpy_eq:
  assumes "s = t \<or> n \<le> unat (s - t)" and "n \<le> 2 ^ 32"
  shows "strncpy m s t (int n) x =
     (if unat (x - s) < length (bstr m t n) then bstr m t n ! unat (x - s)
      else if unat (x - s) < n then 0 else m x)"
  using assms
proof (induction n arbitrary: m s t)
  case 0
  then show ?case by (simp add: strncpy_0)
next
  case (Suc n)
  show ?case
  proof (cases "m t = 0")
    case True
    then show ?thesis using Suc.prems by (simp add: strncpy_Suc stosb_apply del: stosb.simps of_nat_Suc)
  next
    case False
    have e: "s + 1 - (t + 1) = s - t" by simp
    have b: "bstr (m(s := m t)) (t + 1) n = bstr m (t + 1) n"
    proof (cases "s = t")
      case True
      then have "m(s := m t) = m" by simp
      then show ?thesis by simp
    next
      case F: False
      then have "unat (s - (t + 1)) = unat (s - t) - 1"
        using unat_minus_1 [of "s - t"] by (simp add: diff_diff_eq)
      then show ?thesis using Suc.prems(1) F by (intro bstr_upd) auto
    qed
    define m' where "m' = m(s := m t)"
    have pre: "s + 1 = t + 1 \<or> n \<le> unat (s + 1 - (t + 1))" "n \<le> 2 ^ 32"
      using Suc.prems unfolding e by auto
    have IH: "strncpy m' (s + 1) (t + 1) (int n) x =
      (if unat (x - (s + 1)) < length (bstr m (t + 1) n) then bstr m (t + 1) n ! unat (x - (s + 1))
      else if unat (x - (s + 1)) < n then 0 else m' x)"
      using Suc.IH [OF pre, of m'] unfolding b m'_def by blast
    have upd: "strncpy m s t (int (Suc n)) = strncpy m' (s + 1) (t + 1) (int n)"
      using False unfolding strncpy_Suc m'_def by simp
    have m': "m' s = m t" "x \<noteq> s \<Longrightarrow> m' x = m x"
      by (simp_all add: m'_def)
    have 1: "unat (x - (s + 1)) = unat (x - s) - 1" "unat (x - s) \<noteq> 0" if "x \<noteq> s"
      using that unat_minus_1 [of "x - s"] by (simp_all add: diff_diff_eq unat_gt_0)
    have 2: "unat (s - (s + 1)) = 2 ^ 32 - 1"
      by (simp add: unsigned_minus_1_eq_mask mask_eq_exp_minus_1)
    have 3: "length (bstr m (t + 1) n) \<le> n" by (rule length_bstr)
    show ?thesis
      unfolding upd using IH m' 1 2 3 False Suc.prems(2)
      by (cases "x = s") (auto simp: nth_Cons')
  qed
qed


lemma safestrcpy_1: "safestrcpy m s t (int (Suc 0)) = m(s := 0)"
  by (simp add: safestrcpy_def safestrcpy_copy.simps [of m s t])

lemma safestrcpy_Suc: "safestrcpy m s t (int (Suc (Suc k))) =
   (if m t \<noteq> 0 then safestrcpy (m(s := m t)) (s + 1) (t + 1) (int (Suc k))
    else m(s := 0, s + 1 := 0))"
  by (simp add: safestrcpy_def safestrcpy_copy.simps [of m s t] del: fun_upd_apply)

lemma safestrcpy_eq:
  assumes "s = t \<or> Suc k \<le> unat (s - t)" and "Suc k \<le> 2 ^ 32"
  shows "safestrcpy m s t (int (Suc k)) x =
     (if unat (x - s) < length (bstr m t k) then bstr m t k ! unat (x - s)
      else if unat (x - s) \<le> Suc (length (bstr m t k)) \<and> unat (x - s) \<le> k then 0 else m x)"
  using assms
proof (induction k arbitrary: m s t)
  case 0
  have "unat (x - s) = 0 \<longleftrightarrow> x = s"
    by (simp add: unat_eq_zero)
  then show ?case unfolding safestrcpy_1 by auto
next
  case (Suc k)
  have z: "unat (x - s) = 0 \<longleftrightarrow> x = s" by (simp add: unat_eq_zero)
  have 1: "unat (x - (s + 1)) = unat (x - s) - 1" "unat (x - s) \<noteq> 0" if "x \<noteq> s"
    using that unat_minus_1 [of "x - s"] by (simp_all add: diff_diff_eq unat_gt_0)
  show ?case
  proof (cases "m t = 0")
    case True
    have "x = s + 1 \<longleftrightarrow> unat (x - s) = 1"
      by (metis add_diff_cancel_left' diff_add_cancel unat_1 word_unat_eq_iff add.commute)
    then show ?thesis
      unfolding safestrcpy_Suc using True z by (auto simp: le_Suc_eq)
  next
    case False
    have b: "bstr (m(s := m t)) (t + 1) k = bstr m (t + 1) k"
    proof (cases "s = t")
      case True
      then have "m(s := m t) = m" by simp
      then show ?thesis by simp
    next
      case F: False
      then have "unat (s - (t + 1)) = unat (s - t) - 1"
        using unat_minus_1 [of "s - t"] by (simp add: diff_diff_eq)
      then show ?thesis using Suc.prems(1) F by (intro bstr_upd) auto
    qed
    define m' where "m' = m(s := m t)"
    have e: "s + 1 - (t + 1) = s - t" by simp
    have pre: "s + 1 = t + 1 \<or> Suc k \<le> unat (s + 1 - (t + 1))" "Suc k \<le> 2 ^ 32"
      using Suc.prems unfolding e by auto
    have IH: "safestrcpy m' (s + 1) (t + 1) (int (Suc k)) x =
      (if unat (x - (s + 1)) < length (bstr m (t + 1) k) then bstr m (t + 1) k ! unat (x - (s + 1))
       else if unat (x - (s + 1)) \<le> Suc (length (bstr m (t + 1) k)) \<and> unat (x - (s + 1)) \<le> k
            then 0 else m' x)"
      using Suc.IH [OF pre, of m'] unfolding b m'_def by blast
    have upd: "safestrcpy m s t (int (Suc (Suc k))) = safestrcpy m' (s + 1) (t + 1) (int (Suc k))"
      using False unfolding safestrcpy_Suc m'_def by simp
    have m': "m' s = m t" "x \<noteq> s \<Longrightarrow> m' x = m x"
      by (simp_all add: m'_def)
    have 2: "unat (s - (s + 1)) = 2 ^ 32 - 1"
      by (simp add: unsigned_minus_1_eq_mask mask_eq_exp_minus_1)
    have 3: "length (bstr m (t + 1) k) \<le> k" by (rule length_bstr)
    show ?thesis
      unfolding upd using IH m' 1 2 3 False Suc.prems(2)
      by (cases "x = s") (auto simp: nth_Cons')
  qed
qed

lemma bstr_takeWhile: "bstr m p n = takeWhile (\<lambda>b. b \<noteq> 0) (map (\<lambda>i. m (p + of_nat i)) [0..<n])"
proof (induction n arbitrary: p)
  case 0
  then show ?case by simp
next
  case (Suc n)
  have "map (\<lambda>i. m (p + of_nat i)) [0..<Suc n] = m p # map (\<lambda>i. m (p + 1 + of_nat i)) [0..<n]"
    by (simp add: upt_conv_Cons map_Suc_upt [symmetric] add.assoc del: upt_Suc)
  then show ?case using Suc by (simp del: upt_Suc)
qed

lemma bstr_eqI:
  assumes "\<And>i. i < length b \<Longrightarrow> m (p + of_nat i) = b ! i"
    and "length b < n \<Longrightarrow> m (p + of_nat (length b)) = 0" and "length b \<le> n" and "0 \<notin> set b"
  shows "bstr m p n = b"
  using assms
proof (induction b arbitrary: p n)
  case Nil
  then show ?case by (cases n) auto
next
  case (Cons c b)
  then obtain k where n: "n = Suc k" by (cases n) auto
  have "m p = c" using Cons.prems(1) [of 0] by simp
  moreover have "bstr m (p + 1) k = b"
  proof (rule Cons.IH)
    fix i assume "i < length b"
    then show "m (p + 1 + of_nat i) = b ! i"
      using Cons.prems(1) [of "Suc i"] by (simp add: add.assoc)
  qed (use Cons.prems n in \<open>auto simp: add.assoc\<close>)
  ultimately show ?case using Cons.prems(4) n by auto
qed

lemma unat_offset: "i < 2 ^ 32 \<Longrightarrow> unat (p + of_nat i - p :: u32) = i"
  by (simp add: unat_of_nat)

lemma strncpy_bstr:
  assumes "s = t \<or> n \<le> unat (s - t)" and "n \<le> 2 ^ 32"
  shows "bstr (strncpy m s t (int n)) s n = bstr m t n"
proof (rule bstr_eqI)
  have l: "length (bstr m t n) \<le> n" by (rule length_bstr)
  show "strncpy m s t (int n) (s + of_nat i) = bstr m t n ! i" if "i < length (bstr m t n)" for i
    using that l assms(2) by (simp only: strncpy_eq [OF assms] unat_offset) auto
  show "strncpy m s t (int n) (s + of_nat (length (bstr m t n))) = 0" if "length (bstr m t n) < n"
    using that l assms(2) by (simp only: strncpy_eq [OF assms] unat_offset) auto
qed (use length_bstr bstr_nonzero in blast)+

lemma safestrcpy_bstr:
  assumes "s = t \<or> Suc k \<le> unat (s - t)" and "Suc k \<le> 2 ^ 32"
  shows "bstr (safestrcpy m s t (int (Suc k))) s (Suc k) = bstr m t k"
proof (rule bstr_eqI)
  have l: "length (bstr m t k) \<le> k" by (rule length_bstr)
  show "safestrcpy m s t (int (Suc k)) (s + of_nat i) = bstr m t k ! i" if "i < length (bstr m t k)" for i
    using that l assms(2) by (simp only: safestrcpy_eq [OF assms] unat_offset) auto
  show "safestrcpy m s t (int (Suc k)) (s + of_nat (length (bstr m t k))) = 0"
    using l assms(2) by (simp only: safestrcpy_eq [OF assms] unat_offset) auto
  show "length (bstr m t k) \<le> Suc k" using l by simp
qed (use bstr_nonzero in blast)

lemma strlen_from:
  assumes "\<And>i. i < k \<Longrightarrow> m (s + of_nat i) \<noteq> 0" and "m (s + of_nat k) = 0" and "j \<le> k"
  shows "strlen m s j = Some k"
  using assms(3)
proof (induction "k - j" arbitrary: j)
  case 0
  then show ?case using assms(2) by (simp add: strlen.simps [of m s j])
next
  case (Suc d)
  then have "strlen m s (Suc j) = Some k" by simp
  moreover have "m (s + of_nat j) \<noteq> 0" using assms(1) Suc by simp
  ultimately show ?case by (simp add: strlen.simps [of m s j])
qed

lemma strcmp_strncmp:
  assumes "m (p + of_nat k) = 0"
  shows "strcmp m p q = Some (strncmp m p q (Suc k))"
  using assms
proof (induction k arbitrary: p q)
  case 0
  then show ?case by (simp add: strcmp.simps [of m p q])
next
  case (Suc k)
  then have "m (p + 1 + of_nat k) = 0" by (simp add: add.assoc)
  then show ?case using Suc.IH [of "p + 1" "q + 1"]
    by (subst strcmp.simps) (simp del: strncmp.simps(2) add: strncmp.simps(2) [of m p q])
qed


section \<open>Properties\<close>

text \<open>
  C9: \<open>memmove\<close> copies correctly whether or not the two areas overlap: every byte of the target
  area is the byte that was in the source area before the call, and no other byte changes.
\<close>

theorem memmove_correct:
  assumes "unat src + unat n \<le> 2 ^ 32" and "unat dst + unat n \<le> 2 ^ 32"
  shows "memmove m dst src n x = (if unat (x - dst) < unat n then m (src + (x - dst)) else m x)"
  using memmove_eq [OF assms, of m] by simp

theorem memmove_correct_witness:
  "map (memmove (\<lambda>a. if a = 10 then 1 else if a = 11 then 2 else if a = 12 then 3 else 0) 11 10 3)
     [10, 11, 12, 13] = [1, 1, 2, 3]"
  using memmove_correct [of 10 3 11]
  by (simp add: unsigned_minus_1_eq_mask mask_eq_exp_minus_1)

text \<open>
  C10: The word-wise fast path of the kernel's \<open>memset\<close> has the effect of the byte-wise one: for
  every pointer, value and count it equals the user library's \<open>memset\<close>, which sets exactly
  the \<open>n\<close> bytes from \<open>dst\<close> on to the low byte of \<open>c\<close>.
\<close>

theorem memset_bytewise:
  "memset m dst c n = ulib_memset m dst c n \<and>
   memset m dst c n x = (if unat (x - dst) < unat n then ucast c else m x)"
proof -
  have "unat n \<le> 2 ^ 32" using unat32_less [of n] by simp
  then show ?thesis
    by (simp add: memset_eq_stosb ulib_memset_def stosb_apply)
qed

text \<open>
  C11: A name stored with \<open>strncpy\<close> is found again with \<open>strncmp\<close>: after \<open>strncpy(s, t, n)\<close>,
  comparing any string outside the target area with the stored copy gives 0 exactly for the
  strings that agree with \<open>t\<close> on their first \<open>n\<close> bytes up to the NUL.
\<close>

theorem strncpy_strncmp:
  assumes "s = t \<or> n \<le> unat (s - t)" and "n \<le> 2 ^ 32"
    and q: "\<And>i. i < n \<Longrightarrow> n \<le> unat (q + of_nat i - s)"
  shows "strncmp (strncpy m s t (int n)) q s n = 0 \<longleftrightarrow> bstr m q n = bstr m t n"
proof -
  have "strncpy m s t (int n) (q + of_nat i) = m (q + of_nat i)" if "i < n" for i
    using q [OF that] length_bstr [of m t n]
    by (simp only: strncpy_eq [OF assms(1,2)]) auto
  then have "map (\<lambda>i. strncpy m s t (int n) (q + of_nat i)) [0..<n] = map (\<lambda>i. m (q + of_nat i)) [0..<n]"
    by auto
  then have "bstr (strncpy m s t (int n)) q n = bstr m q n"
    by (simp only: bstr_takeWhile)
  then show ?thesis
    by (simp add: strncmp_eq_0 strncpy_bstr [OF assms(1,2)])
qed

theorem strncpy_strncmp_witness:
  "strncmp (strncpy (\<lambda>a. if a = 100 then 97 else if a = 300 then 97 else 0) 200 100 (int 2)) 300 200 2 = 0"
proof -
  let ?m = "\<lambda>a :: u32. if a = 100 then 97 else if a = 300 then 97 else 0 :: u8"
  have "2 \<le> unat (300 + of_nat i - 200 :: u32)" if "i < 2" for i :: nat
    using that by (auto simp: less_2_cases_iff)
  moreover have "(2::nat) \<le> unat (200 - 100 :: u32)" by simp
  moreover have "bstr ?m 300 2 = bstr ?m 100 2"
    by (simp add: bstr_2)
  ultimately show ?thesis
    using strncpy_strncmp [of 200 100 2 300 ?m] by auto
qed

text \<open>
  C12: \<open>safestrcpy(s, t, n)\<close> with \<open>n > 0\<close> leaves a NUL-terminated string of at most \<open>n - 1\<close>
  characters at \<open>s\<close>, the longest such prefix of the string at \<open>t\<close>, and writes nothing outside the
  \<open>n\<close> bytes at \<open>s\<close>.
\<close>

theorem safestrcpy_terminates_string:
  assumes "n > 0" and "s = t \<or> nat n \<le> unat (s - t)" and "nat n \<le> 2 ^ 32"
  shows "bstr (safestrcpy m s t n) s (nat n) = bstr m t (nat n - 1) \<and>
     (\<exists>k < nat n. safestrcpy m s t n (s + of_nat k) = 0) \<and>
     (unat (x - s) < nat n \<or> safestrcpy m s t n x = m x)"
proof -
  obtain k where n: "n = int (Suc k)"
    using assms(1) by (metis gr0_conv_Suc pos_int_cases)
  have pre: "s = t \<or> Suc k \<le> unat (s - t)" "Suc k \<le> 2 ^ 32"
    using assms(2,3) n by (simp_all add: nat_add_distrib)
  have l: "length (bstr m t k) \<le> k" by (rule length_bstr)
  have "safestrcpy m s t n (s + of_nat (length (bstr m t k))) = 0"
    using l pre(2) unfolding n by (simp only: safestrcpy_eq [OF pre] unat_offset) auto
  then have "\<exists>j < nat n. safestrcpy m s t n (s + of_nat j) = 0"
    using l n by (intro exI [of _ "length (bstr m t k)"]) simp
  moreover have "unat (x - s) < nat n \<or> safestrcpy m s t n x = m x"
    using l unfolding n by (simp only: safestrcpy_eq [OF pre]) auto
  moreover have "nat n = Suc k" "nat n - 1 = k"
    using n by simp_all
  ultimately show ?thesis
    using safestrcpy_bstr [OF pre, of m] by (simp only: n)
qed

theorem safestrcpy_terminates_string_witness:
  "bstr (safestrcpy (\<lambda>a. if a = 100 then 97 else if a = 101 then 98 else 0) 200 100 2) 200 2 = [97]"
proof -
  let ?m = "\<lambda>a :: u32. if a = 100 then 97 else if a = 101 then 98 else 0 :: u8"
  have "bstr ?m 100 1 = [97]" by simp
  moreover have "nat 2 \<le> unat (200 - 100 :: u32)" "nat 2 \<le> (2 :: nat) ^ 32" by simp_all
  ultimately show ?thesis
    using safestrcpy_terminates_string [of 2 200 100 ?m] by simp
qed

end
