(* ===== verification/Xv6_Grep.thy ===== *)
theory Xv6_Grep
  imports Xv6_Prelude
begin

text \<open>
  The user program \<open>grep.c\<close>: the backtracking matcher \<open>match\<close>, \<open>matchhere\<close>, \<open>matchstar\<close> and the
  buffered loop \<open>grep\<close>.  A C string is the list of its characters before the NUL, a pointer into
  it is a suffix, so \<open>re[0] == 0\<close> is the empty list.  The matcher is compared with a reference
  semantics on parsed patterns; the loop with the list of matching lines of its input.
\<close>

section \<open>The matcher\<close>

function (sequential)
  matchhere :: "string \<Rightarrow> string \<Rightarrow> bool" and
  matchstar :: "char \<Rightarrow> string \<Rightarrow> string \<Rightarrow> bool"
where
  "matchhere [] tx = True"
| "matchhere (c # re) tx =
     (if re \<noteq> [] \<and> hd re = CHR ''*'' then matchstar c (tl re) tx
      else if c = CHR ''$'' \<and> re = [] then tx = []
      else if tx \<noteq> [] \<and> (c = CHR ''.'' \<or> c = hd tx) then matchhere re (tl tx)
      else False)"
| "matchstar c re tx =
     (if matchhere re tx then True
      else if tx \<noteq> [] \<and> (hd tx = c \<or> c = CHR ''.'') then matchstar c re (tl tx)
      else False)"
  by pat_completeness auto
termination
proof (relation "inv_image (less_than <*lex*> less_than)
    (case_sum (\<lambda>(re, t). (2 * length re, length t)) (\<lambda>(c, re, t). (2 * length re + 1, length t)))")
qed auto

fun match_from :: "string \<Rightarrow> string \<Rightarrow> bool" where
  "match_from re tx =
     (if matchhere re tx then True
      else if tx \<noteq> [] then match_from re (tl tx) else False)"

definition match :: "string \<Rightarrow> string \<Rightarrow> bool" where
  "match re tx =
     (if re \<noteq> [] \<and> hd re = CHR ''^'' then matchhere (tl re) tx else match_from re tx)"

declare matchhere.simps(2) [simp del] matchstar.simps [simp del] match_from.simps [simp del]

section \<open>The loop\<close>

text \<open>Index of the newline \<open>strchr(p, '\n')\<close> finds, which gives up at a NUL.\<close>

fun find_nl :: "string \<Rightarrow> nat option" where
  "find_nl [] = None"
| "find_nl (c # cs) =
     (if c = CHR 0x00 then None
      else if c = CHR 0x0A then Some 0 else map_option Suc (find_nl cs))"

lemma find_nl_less: "find_nl s = Some k \<Longrightarrow> k < length s"
  by (induction s arbitrary: k) (auto split: if_splits)

text \<open>The inner loop over the complete lines of the buffer: its output and the rest from \<open>p\<close>.\<close>

function grep_lines :: "string \<Rightarrow> string \<Rightarrow> string \<times> string" where
  "grep_lines pat p =
     (case find_nl p of
        None \<Rightarrow> ([], p)
      | Some q \<Rightarrow>
          (let (out, rest) = grep_lines pat (drop (Suc q) p)
           in ((if match pat (take q p) then take (Suc q) p else []) @ out, rest)))"
  by pat_completeness auto
termination
  by (relation "measure (\<lambda>(pat, p). length p)") (auto dest: find_nl_less)

declare grep_lines.simps [simp del]

text \<open>
  The outer loop.  \<open>buf\<close> holds the \<open>m\<close> bytes kept from the last round, \<open>inp\<close> what the file
  descriptor still has to deliver, and \<open>rd i\<close> bounds what the \<open>i\<close>-th \<open>read\<close> returns, since
  a read from a pipe or the console may return less than it was asked for.
\<close>

function grep :: "string \<Rightarrow> (nat \<Rightarrow> nat) \<Rightarrow> nat \<Rightarrow> string \<Rightarrow> string \<Rightarrow> string" where
  "grep pat rd i buf inp =
     (let got = take (min (1024 - length buf - 1) (rd i)) inp in
      if got = [] then []
      else
        let s = buf @ got;
            (out, rest) = grep_lines pat s;
            buf' = (if length rest = length s then [] else rest)
        in out @ grep pat rd (Suc i) buf' (drop (length got) inp))"
  by pat_completeness auto
termination
  by (relation "measure (\<lambda>(pat, rd, i, buf, inp). length inp)") (auto simp: min_def split: if_splits)

declare grep.simps [simp del]

section \<open>Reference semantics\<close>

datatype item = One char | Many char | Eol

fun parse_re :: "string \<Rightarrow> item list" where
  "parse_re [] = []"
| "parse_re (c # re) =
     (if re \<noteq> [] \<and> hd re = CHR ''*'' then Many c # parse_re (tl re)
      else if c = CHR ''$'' \<and> re = [] then [Eol]
      else One c # parse_re re)"

definition fits :: "char \<Rightarrow> char \<Rightarrow> bool" where
  "fits c t = (c = CHR ''.'' \<or> c = t)"

text \<open>\<open>denotes is t\<close>: some prefix of \<open>t\<close> is matched by the items; a final \<open>Eol\<close> demands all of \<open>t\<close>.\<close>

fun denotes :: "item list \<Rightarrow> string \<Rightarrow> bool" where
  "denotes [] t = True"
| "denotes (One c # is) t = (\<exists>x u. t = x # u \<and> fits c x \<and> denotes is u)"
| "denotes (Many c # is) t = (\<exists>xs u. t = xs @ u \<and> (\<forall>x \<in> set xs. fits c x) \<and> denotes is u)"
| "denotes (Eol # is) t = (t = [])"

text \<open>The newline-terminated lines of a text, without their newlines.\<close>

fun nl_lines :: "string \<Rightarrow> string list" where
  "nl_lines [] = []"
| "nl_lines (c # cs) =
     (if c = CHR 0x0A then [] # nl_lines cs
      else case nl_lines cs of [] \<Rightarrow> [] | l # ls \<Rightarrow> (c # l) # ls)"

section \<open>Properties of the matcher\<close>

lemma denotes_Many:
  "denotes (Many c # is) t \<longleftrightarrow>
     denotes is t \<or> (\<exists>x u. t = x # u \<and> fits c x \<and> denotes (Many c # is) u)"
proof
  assume "denotes (Many c # is) t"
  then obtain xs u where "t = xs @ u" "\<forall>x \<in> set xs. fits c x" "denotes is u"
    by auto
  then show "denotes is t \<or> (\<exists>x u. t = x # u \<and> fits c x \<and> denotes (Many c # is) u)"
    by (cases xs) auto
next
  assume "denotes is t \<or> (\<exists>x u. t = x # u \<and> fits c x \<and> denotes (Many c # is) u)"
  then show "denotes (Many c # is) t"
  proof
    assume "denotes is t"
    then show ?thesis by (auto intro: exI [of _ "[]"])
  next
    assume "\<exists>x u. t = x # u \<and> fits c x \<and> denotes (Many c # is) u"
    then obtain x xs u where "t = x # xs @ u" "fits c x" "\<forall>x \<in> set xs. fits c x" "denotes is u"
      by auto
    then show ?thesis
      by (simp, intro exI [of _ "x # xs"] exI [of _ u]) simp
  qed
qed

lemma match_semantics:
  "matchhere re tx \<longleftrightarrow> denotes (parse_re re) tx"
  "matchstar c re tx \<longleftrightarrow> denotes (Many c # parse_re re) tx"
proof (induction re tx and c re tx rule: matchhere_matchstar.induct)
  case (1 tx)
  then show ?case by simp
next
  case (2 c re tx)
  show ?case
  proof (cases "re \<noteq> [] \<and> hd re = CHR ''*''")
    case True
    then show ?thesis using 2(1) by (simp add: matchhere.simps(2))
  next
    case F: False
    show ?thesis
    proof (cases "c = CHR ''$'' \<and> re = []")
      case True
      then show ?thesis by (simp add: matchhere.simps(2))
    next
      case False
      then have "matchhere (c # re) tx \<longleftrightarrow>
          tx \<noteq> [] \<and> (c = CHR ''.'' \<or> c = hd tx) \<and> denotes (parse_re re) (tl tx)"
        using F 2(2) by (auto simp: matchhere.simps(2))
      then show ?thesis
        using F False by (cases tx) (auto simp: fits_def)
    qed
  qed
next
  case (3 c re tx)
  have "matchstar c re tx \<longleftrightarrow>
      denotes (parse_re re) tx \<or>
      (tx \<noteq> [] \<and> (hd tx = c \<or> c = CHR ''.'') \<and> denotes (Many c # parse_re re) (tl tx))"
    using 3 by (auto simp: matchstar.simps [of c re tx])
  then show ?case
    unfolding denotes_Many [of c "parse_re re" tx]
    by (cases tx) (auto simp: fits_def simp del: denotes.simps)
qed

lemma match_from_suffix: "match_from re tx \<longleftrightarrow> (\<exists>xs u. tx = xs @ u \<and> matchhere re u)"
proof (induction tx)
  case Nil
  then show ?case by (simp add: match_from.simps [of re "[]"])
next
  case (Cons c tx)
  have "(\<exists>xs u. c # tx = xs @ u \<and> matchhere re u) \<longleftrightarrow>
      matchhere re (c # tx) \<or> (\<exists>xs u. tx = xs @ u \<and> matchhere re u)"
    by (auto simp: Cons_eq_append_conv)
  then show ?case
    using Cons by (simp add: match_from.simps [of re "c # tx"])
qed

text \<open>
  C13: \<open>match\<close> is the matcher it is meant to be: it always stops, and it answers true exactly when
  the parsed pattern denotes a prefix of the text (pattern starting with \<open>^\<close>) or of one of the
  tx's suffixes.
\<close>

theorem match_correct:
  "match re tx \<longleftrightarrow>
     (if re \<noteq> [] \<and> hd re = CHR ''^'' then denotes (parse_re (tl re)) tx
      else \<exists>xs u. tx = xs @ u \<and> denotes (parse_re re) u)"
  by (simp add: match_def match_from_suffix match_semantics)

section \<open>Properties of the loop\<close>

abbreviation NL :: char where "NL \<equiv> CHR 0x0A"
abbreviation NUL :: char where "NUL \<equiv> CHR 0x00"

text \<open>What \<open>grep\<close> should print, and the unterminated rest of a text.\<close>

definition grep_spec :: "string \<Rightarrow> string \<Rightarrow> string" where
  "grep_spec pat s = concat (map (\<lambda>l. l @ [NL]) (filter (match pat) (nl_lines s)))"

definition nl_rest :: "string \<Rightarrow> string" where
  "nl_rest s = rev (takeWhile (\<lambda>c. c \<noteq> NL) (rev s))"

lemma nl_rest_line [simp]: "nl_rest (l @ NL # r) = nl_rest r"
  by (induction r rule: rev_induct) (auto simp: nl_rest_def takeWhile_append)

lemma nl_rest_none [simp]: "NL \<notin> set s \<Longrightarrow> nl_rest s = s"
  unfolding nl_rest_def by (subst takeWhile_eq_all_conv [THEN iffD2]) auto

lemma NL_notin_nl_rest: "NL \<notin> set (nl_rest s)"
  by (auto simp: nl_rest_def dest: set_takeWhileD)

lemma nl_rest_suffix: "\<exists>u. s = u @ nl_rest s"
proof -
  have "rev s = takeWhile (\<lambda>c. c \<noteq> NL) (rev s) @ dropWhile (\<lambda>c. c \<noteq> NL) (rev s)"
    by simp
  then have "s = rev (dropWhile (\<lambda>c. c \<noteq> NL) (rev s)) @ nl_rest s"
    unfolding nl_rest_def by (metis rev_append rev_rev_ident)
  then show ?thesis ..
qed

lemma nl_lines_none [simp]: "NL \<notin> set s \<Longrightarrow> nl_lines s = []"
  by (induction s) auto

lemma nl_lines_line [simp]: "NL \<notin> set l \<Longrightarrow> nl_lines (l @ NL # r) = l # nl_lines r"
  by (induction l) auto

text \<open>Induction over the lines of a text.\<close>

lemma line_induct [case_names none line]:
  assumes "\<And>s. NL \<notin> set s \<Longrightarrow> P s"
    and "\<And>l r. NL \<notin> set l \<Longrightarrow> P r \<Longrightarrow> P (l @ NL # r)"
  shows "P s"
proof (induction s rule: length_induct)
  case (1 s)
  show ?case
  proof (cases "NL \<in> set s")
    case True
    then obtain l r where "s = l @ NL # r" "NL \<notin> set l"
      by (meson split_list_first)
    with 1 assms(2) show ?thesis by simp
  qed (rule assms(1))
qed

lemma grep_spec_append: "grep_spec pat (s @ t) = grep_spec pat s @ grep_spec pat (nl_rest s @ t)"
  by (induction s rule: line_induct) (simp_all add: grep_spec_def)

lemma find_nl_none: "NL \<notin> set s \<Longrightarrow> find_nl s = None"
  by (induction s) auto

lemma find_nl_line: "NL \<notin> set l \<Longrightarrow> NUL \<notin> set l \<Longrightarrow> find_nl (l @ NL # r) = Some (length l)"
  by (induction l) auto

lemma grep_lines_eq: "NUL \<notin> set s \<Longrightarrow> grep_lines pat s = (grep_spec pat s, nl_rest s)"
proof (induction s rule: line_induct)
  case (none s)
  then show ?case by (simp add: grep_lines.simps [of pat s] find_nl_none grep_spec_def)
next
  case (line l r)
  then show ?case
    by (simp add: grep_lines.simps [of pat "l @ NL # r"] find_nl_line grep_spec_def)
qed

definition short_lines :: "string \<Rightarrow> bool" where
  "short_lines s = (\<forall>xs ys zs. s = xs @ ys @ zs \<longrightarrow> NL \<notin> set ys \<longrightarrow> length ys < 1023)"

lemma short_lines_suffix: "short_lines (xs @ s) \<Longrightarrow> short_lines s"
  unfolding short_lines_def by (metis append.assoc)

lemma short_lines_infix: "short_lines (s @ t) \<Longrightarrow> NL \<notin> set s \<Longrightarrow> length s < 1023"
  unfolding short_lines_def by (metis append_Nil)

lemma grep_eq:
  assumes "\<And>i. 1023 \<le> rd i" and "NL \<notin> set buf" and "NUL \<notin> set (buf @ inp)"
    and "short_lines (buf @ inp)"
  shows "grep pat rd i buf inp = grep_spec pat (buf @ inp)"
  using assms(2-4)
proof (induction "length inp" arbitrary: i buf inp rule: less_induct)
  case less
  have buf: "length buf < 1023"
    using less.prems short_lines_infix by blast
  define got where "got = take (1023 - length buf) inp"
  have min: "min (1024 - length buf - 1) (rd i) = 1023 - length buf"
    using assms(1) [of i] by simp
  have inp: "inp = got @ drop (length got) inp"
    unfolding got_def by (cases "1023 - length buf \<le> length inp") simp_all
  show ?case
  proof (cases "got = []")
    case True
    then have "inp = []" using buf by (simp add: got_def)
    then show ?thesis
      using less.prems by (simp add: grep.simps [of pat rd i buf "[]"] grep_spec_def)
  next
    case False
    let ?s = "buf @ got" and ?inp = "drop (length got) inp"
    have s: "buf @ inp = ?s @ ?inp" using inp by simp
    have nul: "NUL \<notin> set ?s"
      using less.prems(2) inp by (metis UnI1 append_assoc set_append)
    have step: "grep pat rd i buf inp = grep_spec pat ?s @
        grep pat rd (Suc i) (if length (nl_rest ?s) = length ?s then [] else nl_rest ?s) ?inp"
      using False nul unfolding grep.simps [of pat rd i buf inp] min got_def [symmetric]
      by (simp add: Let_def grep_lines_eq)
    show ?thesis
    proof (cases "NL \<in> set ?s")
      case True
      obtain u where u: "?s = u @ nl_rest ?s" using nl_rest_suffix by blast
      have "nl_rest ?s \<noteq> ?s" using True NL_notin_nl_rest by metis
      then have len: "length (nl_rest ?s) \<noteq> length ?s"
        using u by (metis append_eq_append_conv append_Nil)
      have su: "buf @ inp = u @ (nl_rest ?s @ ?inp)" using s u by (metis append.assoc)
      have "grep pat rd (Suc i) (nl_rest ?s) ?inp = grep_spec pat (nl_rest ?s @ ?inp)"
      proof (rule less.hyps)
        show "length ?inp < length inp"
          using False by (auto simp: got_def)
        show "NUL \<notin> set (nl_rest ?s @ ?inp)"
          using less.prems(2) su by (metis UnI2 set_append)
        show "short_lines (nl_rest ?s @ ?inp)"
          using less.prems(3) unfolding su by (rule short_lines_suffix)
      qed (rule NL_notin_nl_rest)
      then show ?thesis
        using step len unfolding s grep_spec_append [of pat ?s ?inp] by simp
    next
      case F: False
      have "length ?s < 1023"
        using less.prems(3) F unfolding s by (rule short_lines_infix)
      then have "got = inp" unfolding got_def by (cases "length inp \<le> 1023 - length buf") auto
      then show ?thesis
        using step F by (simp add: grep.simps [of pat rd "Suc i" "[]" "[]"] grep_spec_def)
    qed
  qed
qed

text \<open>
  C14: Reading a file (each \<open>read\<close> returns all it is asked for), whose lines have fewer than 1023
  characters and which holds no NUL, \<open>grep\<close> stops and prints exactly the newline-terminated lines
  that match, in order and complete.
\<close>

theorem grep_correct:
  assumes "\<And>i. 1023 \<le> rd i" and "NUL \<notin> set inp" and "short_lines inp"
  shows "grep pat rd 0 [] inp =
     concat (map (\<lambda>l. l @ [NL]) (filter (match pat) (nl_lines inp)))"
  using grep_eq [of rd "[]" inp pat 0] assms by (simp add: grep_spec_def)

lemma short_lines_if_short: "length s < 1023 \<Longrightarrow> short_lines s"
  by (auto simp: short_lines_def)

theorem grep_correct_witness:
  "grep ''b'' (\<lambda>_. 1023) 0 [] (''abc'' @ [NL] @ ''xyz'' @ [NL]) = ''abc'' @ [NL]"
proof -
  have "short_lines (''abc'' @ [NL] @ ''xyz'' @ [NL])"
    by (rule short_lines_if_short) simp
  moreover have "match ''b'' ''abc''" "\<not> match ''b'' ''xyz''"
    by (simp_all add: match_def match_from.simps matchhere.simps(2))
  ultimately show ?thesis
    using grep_correct [of "\<lambda>_. 1023" "''abc'' @ [NL] @ ''xyz'' @ [NL]" "''b''"] by simp
qed


end
