(* ===== verification/Xv6_Mmu.thy ===== *)
theory Xv6_Mmu
  imports Xv6_String
begin

text \<open>
  The address arithmetic of \<open>mmu.h\<close> and \<open>memlayout.h\<close>: pages, page directory and page table
  indices, page table entries, and the kernel's linear mapping of physical memory.  The lemmas
  say when two accesses touch different words or different pages; \<open>page_of\<close> and \<open>word_of\<close> are
  the page and the aligned word an address lies in.
\<close>

section \<open>Definitions\<close>

definition PGSIZE :: u32 where "PGSIZE = 4096"
definition EXTMEM :: u32 where "EXTMEM = 0x100000"
definition PHYSTOP :: u32 where "PHYSTOP = 0xE000000"
definition DEVSPACE :: u32 where "DEVSPACE = 0xFE000000"
definition KERNBASE :: u32 where "KERNBASE = 0x80000000"
definition KERNLINK :: u32 where "KERNLINK = KERNBASE + EXTMEM"
definition NPDENTRIES :: nat where "NPDENTRIES = 1024"

definition V2P :: "u32 \<Rightarrow> u32" where "V2P a = a - KERNBASE"
definition P2V :: "u32 \<Rightarrow> u32" where "P2V a = a + KERNBASE"

definition PDX :: "u32 \<Rightarrow> u32" where "PDX va = drop_bit 22 va AND 0x3FF"
definition PTX :: "u32 \<Rightarrow> u32" where "PTX va = drop_bit 12 va AND 0x3FF"
definition PGADDR :: "u32 \<Rightarrow> u32 \<Rightarrow> u32 \<Rightarrow> u32" where
  "PGADDR d t o' = (push_bit 22 d OR push_bit 12 t OR o')"
definition PGROUNDUP :: "u32 \<Rightarrow> u32" where "PGROUNDUP sz = (sz + PGSIZE - 1) AND NOT (PGSIZE - 1)"
definition PGROUNDDOWN :: "u32 \<Rightarrow> u32" where "PGROUNDDOWN a = a AND NOT (PGSIZE - 1)"

definition PTE_P :: u32 where "PTE_P = 0x001"
definition PTE_W :: u32 where "PTE_W = 0x002"
definition PTE_U :: u32 where "PTE_U = 0x004"
definition PTE_ADDR :: "u32 \<Rightarrow> u32" where "PTE_ADDR pte = pte AND NOT 0xFFF"
definition PTE_FLAGS :: "u32 \<Rightarrow> u32" where "PTE_FLAGS pte = pte AND 0xFFF"

lemmas mmu_defs = PGSIZE_def EXTMEM_def PHYSTOP_def DEVSPACE_def KERNBASE_def KERNLINK_def
  NPDENTRIES_def V2P_def P2V_def PTE_P_def PTE_W_def PTE_U_def

definition page_of :: "u32 \<Rightarrow> u32" where "page_of a = drop_bit 12 a"
definition word_of :: "u32 \<Rightarrow> u32" where "word_of a = drop_bit 2 a"
definition page_aligned :: "u32 \<Rightarrow> bool" where "page_aligned a = (a mod PGSIZE = 0)"
definition word_aligned :: "u32 \<Rightarrow> bool" where "word_aligned a = (a mod 4 = 0)"

section \<open>Arithmetic of pages and words\<close>

lemma page_aligned_unat: "page_aligned a \<longleftrightarrow> unat a mod 4096 = 0"
proof -
  have "a mod PGSIZE = 0 \<longleftrightarrow> unat (a mod PGSIZE) = 0" by (simp only: unat_eq_zero)
  then show ?thesis by (simp add: page_aligned_def PGSIZE_def unat_mod)
qed

lemma word_aligned_unat: "word_aligned a \<longleftrightarrow> unat a mod 4 = 0"
proof -
  have "a mod 4 = 0 \<longleftrightarrow> unat (a mod 4) = 0" by (simp only: unat_eq_zero)
  then show ?thesis by (simp add: word_aligned_def unat_mod)
qed

lemma page_word_aligned: "page_aligned a \<Longrightarrow> word_aligned a"
  unfolding page_aligned_unat word_aligned_unat
  using mod_mod_cancel [of 4 4096 "unat a"] by simp

lemma page_of_eq: "page_of a = page_of b \<longleftrightarrow> unat a div 4096 = unat b div 4096"
proof -
  have "unat (page_of x) = unat x div 4096" for x
    by (simp add: page_of_def drop_bit_eq_div unat_div)
  then show ?thesis by (simp add: word_unat_eq_iff)
qed

lemma word_of_eq: "word_of a = word_of b \<longleftrightarrow> unat a div 4 = unat b div 4"
proof -
  have "unat (word_of x) = unat x div 4" for x
    by (simp add: word_of_def drop_bit_eq_div unat_div)
  then show ?thesis by (simp add: word_unat_eq_iff)
qed

lemma same_word_same_page: "word_of a = word_of b \<Longrightarrow> page_of a = page_of b"
  using div_mult2_eq [of "unat a" 4 1024] div_mult2_eq [of "unat b" 4 1024]
  unfolding word_of_eq page_of_eq by simp

lemma block_fits:
  fixes k v :: nat
  assumes "v mod k = 0" and "0 < k" and "k dvd 2 ^ 32" and "v < 2 ^ 32"
  shows "v + k \<le> 2 ^ 32"
proof -
  obtain q where q: "v = k * q" using assms(1) by (metis dvd_eq_mod_eq_0 dvd_def)
  obtain n where n: "(2::nat) ^ 32 = k * n" using assms(3) by (metis dvd_def)
  have "q < n" using assms(2,4) unfolding q n by simp
  then have "k * Suc q \<le> k * n" by (intro mult_le_mono2) simp
  then show ?thesis by (simp only: q n mult_Suc_right add.commute)
qed

lemma in_block:
  fixes k v x :: nat
  assumes "v mod k = 0" and "0 < k" and "k dvd 2 ^ 32" and "x < 2 ^ 32" and "v < 2 ^ 32"
  shows "(if v \<le> x then x - v else 2 ^ 32 + x - v) < k \<longleftrightarrow> x div k = v div k"
proof -
  obtain q where q: "v = k * q" using assms(1) by (metis dvd_eq_mod_eq_0 dvd_def)
  have "x div k = q \<longleftrightarrow> k * q \<le> x \<and> x < k * q + k"
    using div_nat_eqI [of k q x] times_div_less_eq_dividend [of k x]
      dividend_less_times_div [of k x] assms(2) by (auto simp: algebra_simps)
  moreover have "v div k = q" using q assms(2) by simp
  ultimately have "x div k = v div k \<longleftrightarrow> v \<le> x \<and> x < v + k"
    by (metis q)
  then show ?thesis
    using block_fits [OF assms(1-3,5)] assms(2) by (simp, linarith)
qed

lemma in_page: "page_aligned v \<Longrightarrow> unat (x - v) < 4096 \<longleftrightarrow> page_of x = page_of v"
  using unat32_less [of x] unat32_less [of v] in_block [of "unat v" 4096 "unat x"]
  unfolding page_aligned_unat page_of_eq unat_sub32 by simp

lemma in_word: "word_aligned v \<Longrightarrow> unat (x - v) < 4 \<longleftrightarrow> word_of x = word_of v"
  using unat32_less [of x] unat32_less [of v] in_block [of "unat v" 4 "unat x"]
  unfolding word_aligned_unat word_of_eq unat_sub32 by simp

lemma unat_less_4: "unat (x - a :: u32) < 4 \<longleftrightarrow> x \<in> {a, a + 1, a + 2, a + 3}"
proof -
  have "unat (x - a) < 4 \<longleftrightarrow> unat (x - a) \<in> {unat (0 :: u32), unat (1 :: u32), unat (2 :: u32), unat (3 :: u32)}"
    by auto
  also have "\<dots> \<longleftrightarrow> x - a \<in> {0, 1, 2, 3}"
    by (simp only: word_unat_eq_iff insert_iff empty_iff)
  finally show ?thesis by (auto simp: diff_eq_eq add.commute)
qed

section \<open>Accesses to distinct words and pages\<close>

lemma store32_other: "word_aligned a \<Longrightarrow> word_of x \<noteq> word_of a \<Longrightarrow> store32 m a w x = m x"
  using in_word [of a x] unat_less_4 [of x a] by (auto simp: store32_def)

lemma load32_cong:
  assumes "word_aligned a" and "\<And>x. word_of x = word_of a \<Longrightarrow> m x = m' x"
  shows "load32 m a = load32 m' a"
proof -
  have "m x = m' x" if "x \<in> {a, a + 1, a + 2, a + 3}" for x
    using that assms in_word unat_less_4 by blast
  then show ?thesis by (simp add: load32_def)
qed

lemma load32_store32_other:
  "word_aligned a \<Longrightarrow> word_aligned b \<Longrightarrow> word_of a \<noteq> word_of b \<Longrightarrow>
   load32 (store32 m a w) b = load32 m b"
  by (rule load32_cong) (simp_all add: store32_other)

lemma word_of_aligned_inj: "word_aligned a \<Longrightarrow> word_aligned b \<Longrightarrow> word_of a = word_of b \<longleftrightarrow> a = b"
  unfolding word_of_eq word_aligned_unat
  by (metis div_mult_mod_eq add.right_neutral word_unat_eq_iff)

lemma page_of_aligned_inj: "page_aligned a \<Longrightarrow> page_aligned b \<Longrightarrow> page_of a = page_of b \<longleftrightarrow> a = b"
  unfolding page_of_eq page_aligned_unat
  by (metis div_mult_mod_eq add.right_neutral word_unat_eq_iff)

text \<open>An access to another page.\<close>

lemma store32_other_page: "word_aligned a \<Longrightarrow> page_of x \<noteq> page_of a \<Longrightarrow> store32 m a w x = m x"
  using store32_other same_word_same_page by blast

lemma load32_other_page:
  "word_aligned a \<Longrightarrow> (\<And>x. page_of x = page_of a \<Longrightarrow> m x = m' x) \<Longrightarrow> load32 m a = load32 m' a"
  using load32_cong same_word_same_page by blast

lemma memset_page:
  "page_aligned v \<Longrightarrow> memset m v c PGSIZE x = (if page_of x = page_of v then ucast c else m x)"
  by (simp add: memset_eq_stosb stosb_apply PGSIZE_def in_page)

lemma page_fits: "page_aligned v \<Longrightarrow> unat v + 4096 \<le> 2 ^ 32"
  using block_fits [of "unat v" 4096] unat32_less [of v] unfolding page_aligned_unat by simp

lemma memmove_page:
  assumes "page_aligned d" and "page_aligned s"
  shows "memmove m d s PGSIZE x = (if page_of x = page_of d then m (s + (x - d)) else m x)"
  using memmove_eq [of s PGSIZE d m] page_fits [OF assms(1)] page_fits [OF assms(2)]
  by (simp add: PGSIZE_def in_page [OF assms(1)])

section \<open>Rounding\<close>

lemma PGROUNDDOWN_eq: "PGROUNDDOWN a = a - a mod 4096"
proof -
  have "PGROUNDDOWN a = push_bit 12 (drop_bit 12 a)"
    unfolding PGROUNDDOWN_def
  proof (rule bit_word_eqI)
    fix n assume n: "n < LENGTH(32)"
    have "PGSIZE - 1 = mask 12" by (simp add: PGSIZE_def mask_eq_exp_minus_1)
    then show "bit (a AND NOT (PGSIZE - 1)) n = bit (push_bit 12 (drop_bit 12 a)) n"
      using n by (simp add: bit_simps) auto
  qed
  moreover have "a = push_bit 12 (drop_bit 12 a) + take_bit 12 a"
    by (simp add: bits_ident)
  moreover have "take_bit 12 a = a mod 4096" by (simp add: take_bit_eq_mod)
  ultimately show ?thesis by (metis add_diff_cancel_right')
qed

lemma unat_PGROUNDDOWN: "unat (PGROUNDDOWN a) = unat a - unat a mod 4096"
proof -
  have le: "a mod 4096 \<le> a" by (simp add: word_le_nat_alt unat_mod)
  have "unat (a mod 4096) = unat a mod 4096" by (simp add: unat_mod)
  with le show ?thesis unfolding PGROUNDDOWN_eq by (simp only: unat_sub)
qed

lemma PGROUNDUP_eq: "PGROUNDUP a = PGROUNDDOWN (a + 4095)"
  by (simp add: PGROUNDUP_def PGROUNDDOWN_def PGSIZE_def add.commute)

lemma PGROUNDDOWN_aligned [simp]: "page_aligned (PGROUNDDOWN a)"
  unfolding page_aligned_unat unat_PGROUNDDOWN by (simp add: mod_eq_0_iff_dvd dvd_minus_mod)

lemma PGROUNDUP_aligned [simp]: "page_aligned (PGROUNDUP a)"
  by (simp add: PGROUNDUP_eq)

lemma page_of_PGROUNDDOWN [simp]: "page_of (PGROUNDDOWN a) = page_of a"
  unfolding page_of_eq unat_PGROUNDDOWN by (simp add: div_mult_mod_eq minus_mod_eq_mult_div)

lemma unat_PGROUNDUP:
  assumes "unat a + 4095 < 2 ^ 32"
  shows "unat a \<le> unat (PGROUNDUP a)" and "unat (PGROUNDUP a) < unat a + 4096"
proof -
  have "unat (a + 4095) = unat a + 4095"
    using unat_add_nowrap [of a 4095] assms by simp
  then have "unat (PGROUNDUP a) = unat a + 4095 - (unat a + 4095) mod 4096"
    by (simp add: PGROUNDUP_eq unat_PGROUNDDOWN)
  moreover have "(unat a + 4095) mod 4096 < 4096" by simp
  ultimately show "unat a \<le> unat (PGROUNDUP a)" "unat (PGROUNDUP a) < unat a + 4096"
    by linarith+
qed

lemma PGROUNDDOWN_small: "unat a < 4096 \<Longrightarrow> PGROUNDDOWN a = 0"
  using unat_PGROUNDDOWN [of a] by (simp add: unat_eq_zero)

lemma PGROUNDDOWN_diff: "4096 \<le> unat d \<Longrightarrow> PGROUNDDOWN (d - PGSIZE) = PGROUNDDOWN d - PGSIZE"
proof -
  assume d: "4096 \<le> unat d"
  have u: "unat (d - PGSIZE) = unat d - 4096" using d by (simp add: unat_sub32 PGSIZE_def)
  have "unat (PGROUNDDOWN d) = unat d - unat d mod 4096" by (rule unat_PGROUNDDOWN)
  moreover have "4096 * 1 \<le> 4096 * (unat d div 4096)" using d by (intro mult_le_mono2) linarith
  ultimately have "4096 \<le> unat (PGROUNDDOWN d)" by (simp add: minus_mod_eq_mult_div)
  then have "unat (PGROUNDDOWN d - PGSIZE) = unat d - unat d mod 4096 - 4096"
    by (simp add: unat_sub32 PGSIZE_def unat_PGROUNDDOWN)
  moreover have "unat (PGROUNDDOWN (d - PGSIZE)) = unat d - 4096 - (unat d - 4096) mod 4096"
    by (simp add: unat_PGROUNDDOWN u)
  moreover have "(unat d - 4096) mod 4096 = unat d mod 4096"
    using le_mod_geq [OF d] by simp
  ultimately show ?thesis by (simp add: word_unat_eq_iff add.commute)
qed

lemma page_gap:
  assumes "page_aligned p" and "page_aligned v" and "unat p < unat v"
  shows "unat p + 4096 \<le> unat v"
proof -
  obtain j k where "unat p = 4096 * j" "unat v = 4096 * k"
    using assms(1,2) unfolding page_aligned_unat by (metis dvd_eq_mod_eq_0 dvd_def)
  with assms(3) show ?thesis by simp
qed

lemma page_aligned_add: "page_aligned p \<Longrightarrow> page_aligned (p + PGSIZE)"
proof -
  assume "page_aligned p"
  then have "unat p mod 4096 = 0" by (simp add: page_aligned_unat)
  moreover have "unat (p + PGSIZE) mod 4096 = (unat p + 4096) mod 2 ^ 32 mod 4096"
    by (simp add: PGSIZE_def unat_word_ariths)
  moreover have "(unat p + 4096) mod 2 ^ 32 mod 4096 = (unat p + 4096) mod 4096"
    by (rule mod_mod_cancel) simp
  ultimately show ?thesis by (simp add: page_aligned_unat)
qed

section \<open>Page table entries\<close>

lemma PTE_ADDR_eq: "PTE_ADDR e = PGROUNDDOWN e"
  by (simp add: PTE_ADDR_def PGROUNDDOWN_def PGSIZE_def)

lemma PTE_ADDR_aligned [simp]: "page_aligned (PTE_ADDR e)"
  by (simp add: PTE_ADDR_eq)

lemma page_aligned_mask: "page_aligned a \<longleftrightarrow> a AND 0xFFF = 0"
proof -
  have "a mod 4096 = a AND mask 12" by (simp add: take_bit_eq_mask [symmetric] take_bit_eq_mod)
  then show ?thesis by (simp add: page_aligned_def PGSIZE_def mask_eq_exp_minus_1)
qed

lemma page_aligned_diff: "page_aligned a \<Longrightarrow> page_aligned b \<Longrightarrow> page_aligned (a - b)"
  unfolding page_aligned_unat unat_sub32
  by (auto simp: mod_eq_0_iff_dvd intro!: dvd_diff_nat dvd_add)

lemma page_aligned_plus: "page_aligned a \<Longrightarrow> page_aligned b \<Longrightarrow> page_aligned (a + b)"
proof -
  have "page_aligned (0 - b)" if "page_aligned b" for b
    using that page_aligned_diff [of 0 b] by (simp add: page_aligned_def)
  then show "page_aligned a \<Longrightarrow> page_aligned b \<Longrightarrow> page_aligned (a + b)"
    using page_aligned_diff [of a "0 - b"] by simp
qed

lemma KERNBASE_aligned: "page_aligned KERNBASE"
  by (simp add: page_aligned_def mmu_defs)

lemma P2V_aligned [simp]: "page_aligned a \<Longrightarrow> page_aligned (P2V a)"
  and V2P_aligned [simp]: "page_aligned a \<Longrightarrow> page_aligned (V2P a)"
  by (simp_all add: P2V_def V2P_def page_aligned_plus page_aligned_diff KERNBASE_aligned)

lemma P2V_V2P [simp]: "P2V (V2P a) = a" "V2P (P2V a) = a"
  by (simp_all add: P2V_def V2P_def)

lemma PTE_ADDR_OR [simp]:
  assumes "page_aligned a" and "f AND NOT 0xFFF = 0" shows "PTE_ADDR (a OR f) = a"
proof -
  have a: "a AND 0xFFF = 0" using assms(1) by (simp add: page_aligned_mask)
  have "(a OR f) AND NOT 0xFFF = (a AND NOT 0xFFF) OR (f AND NOT 0xFFF)"
    by (simp only: bit.conj_disj_distrib2)
  also have "\<dots> = a AND NOT 0xFFF" using assms(2) by simp
  also have "\<dots> = a"
  proof -
    have "a = a AND (0xFFF OR NOT 0xFFF)" by (simp only: bit.disj_cancel_right bit.conj_one_right)
    also have "\<dots> = (a AND 0xFFF) OR (a AND NOT 0xFFF)" by (simp only: bit.conj_disj_distrib)
    also have "\<dots> = a AND NOT 0xFFF" using a by (simp only: or.left_neutral)
    finally show ?thesis by simp
  qed
  finally show ?thesis by (simp add: PTE_ADDR_def)
qed

lemma OR_PTE_P: "(x OR PTE_P) AND PTE_P \<noteq> 0"
proof
  assume "(x OR PTE_P) AND PTE_P = 0"
  then have "\<not> bit ((x OR PTE_P) AND PTE_P) 0" by simp
  then show False by (simp add: bit_simps PTE_P_def)
qed

section \<open>Indices\<close>

lemma PDX_less: "PDX va < 1024" and PTX_less: "PTX va < 1024"
proof -
  have "(x AND 0x3FF :: u32) < 1024" for x
  proof -
    have "x AND 0x3FF = take_bit 10 x" by (simp add: take_bit_eq_mask mask_eq_exp_minus_1)
    also have "\<dots> = x mod 1024" by (simp add: take_bit_eq_mod)
    also have "\<dots> < 1024" by (rule word_mod_less_divisor) simp
    finally show ?thesis .
  qed
  then show "PDX va < 1024" "PTX va < 1024" by (simp_all add: PDX_def PTX_def)
qed

lemma page_of_indices: "page_of a = page_of b \<longleftrightarrow> PDX a = PDX b \<and> PTX a = PTX b"
proof
  assume "page_of a = page_of b"
  then have "drop_bit 12 a = drop_bit 12 b" by (simp add: page_of_def)
  moreover from this have "drop_bit 22 a = drop_bit 22 b"
    using drop_bit_drop_bit [of 10 12 a] drop_bit_drop_bit [of 10 12 b] by simp
  ultimately show "PDX a = PDX b \<and> PTX a = PTX b" by (simp add: PDX_def PTX_def)
next
  assume eq: "PDX a = PDX b \<and> PTX a = PTX b"
  show "page_of a = page_of b" unfolding page_of_def
  proof (rule bit_word_eqI)
    fix n assume n: "n < LENGTH(32)"
    have m: "(0x3FF :: u32) = mask 10" by (simp add: mask_eq_exp_minus_1)
    have "bit (PTX a) n = bit (PTX b) n" "bit (PDX a) (n - 10) = bit (PDX b) (n - 10)"
      using eq by simp_all
    then show "bit (drop_bit 12 a) n = bit (drop_bit 12 b) n"
      using n bit_imp_le_length [of a "12 + n"] bit_imp_le_length [of b "12 + n"]
      by (cases "n < 10"; cases "n < 20") (auto simp: PTX_def PDX_def m bit_simps)
  qed
qed

lemma slot_unat:
  assumes "page_aligned p" and "i < 1024"
  shows "unat (p + 4 * i) = unat p + 4 * unat i"
proof -
  have i: "unat i < 1024" using assms(2) by (simp add: word_less_nat_alt)
  then have "unat (4 * i) = 4 * unat i" by (simp add: unat_word_ariths)
  moreover have "unat p + 4 * unat i < 2 ^ 32" using page_fits [OF assms(1)] i by simp
  ultimately show ?thesis by (simp add: unat_word_ariths)
qed

lemma slot_page: "page_aligned p \<Longrightarrow> i < 1024 \<Longrightarrow> page_of (p + 4 * i) = page_of p"
  using in_page [of p "p + 4 * i"] slot_unat [of p i] unsigned_less [of i]
  by (simp add: word_less_nat_alt unat_word_ariths)

lemma slot_word: "page_aligned p \<Longrightarrow> i < 1024 \<Longrightarrow> word_aligned (p + 4 * i)"
  using page_word_aligned [of p] by (simp add: word_aligned_unat slot_unat)

lemma slot_inj: "page_aligned p \<Longrightarrow> i < 1024 \<Longrightarrow> j < 1024 \<Longrightarrow> p + 4 * i = p + 4 * j \<longleftrightarrow> i = j"
  using slot_unat [of p i] slot_unat [of p j] by (auto simp: word_unat_eq_iff)

lemma slot_words:
  "page_aligned p \<Longrightarrow> i < 1024 \<Longrightarrow> j < 1024 \<Longrightarrow> i \<noteq> j \<Longrightarrow> word_of (p + 4 * i) \<noteq> word_of (p + 4 * j)"
  using slot_word slot_inj by (metis word_of_aligned_inj)

end
