(* ===== verification/Xv6_Kalloc.thy ===== *)
theory Xv6_Kalloc
  imports Xv6_Mmu Xv6_Spinlock
begin

text \<open>
  The physical page allocator (\<open>kalloc.c\<close>).  The free list is threaded through the free pages
  themselves: \<open>r->next\<close> is the first word of the page.  \<open>kend\<close> is the linker symbol \<open>end\<close>.
  The locale \<open>page_allocator\<close> is the contract the rest of the kernel relies on; its lemma
  \<open>run\<close> says that in any sequence of allocations and frees the pages in use and the free list
  stay disjoint and are together always the same pages.
\<close>

section \<open>State and operations\<close>

record kmemst = kbase +
  mem :: memory
  use_lock :: bool
  freelist :: u32
  kend :: u32

definition kmem_section :: "('x kmemst_scheme, 'a) K \<Rightarrow> ('x kmemst_scheme, 'a) K" where
  "kmem_section f = kbind (kget use_lock) (\<lambda>ul. if ul then with_lock L_kmem f else f)"

definition kfree_push :: "u32 \<Rightarrow> ('x kmemst_scheme, unit) K" where
  "kfree_push r =
     kthen (kmod (\<lambda>s. s\<lparr>mem := store32 (mem s) r (freelist s)\<rparr>))
     (kmod (\<lambda>s. s\<lparr>freelist := r\<rparr>))"

definition kfree :: "u32 \<Rightarrow> ('x kmemst_scheme, unit) K" where
  "kfree v =
     kbind (kget kend) (\<lambda>end'.
     if v mod PGSIZE \<noteq> 0 \<or> v < end' \<or> V2P v \<ge> PHYSTOP then kpanic ''kfree''
     else
     kthen (kmod (\<lambda>s. s\<lparr>mem := memset (mem s) v 1 PGSIZE\<rparr>))
     (kmem_section (kfree_push v)))"

definition kalloc_pop :: "('x kmemst_scheme, u32) K" where
  "kalloc_pop =
     kbind (kget freelist) (\<lambda>r.
     kthen (kwhen (r \<noteq> 0) (kmod (\<lambda>s. s\<lparr>freelist := load32 (mem s) r\<rparr>))) (kret r))"

definition kalloc :: "('x kmemst_scheme, u32) K" where
  "kalloc = kmem_section kalloc_pop"

text \<open>The loop of \<open>freerange\<close> visits at most every page of the address space once.\<close>

definition freerange :: "u32 \<Rightarrow> u32 \<Rightarrow> ('x kmemst_scheme, unit) K" where
  "freerange vstart vend =
     kthen (kwhile (2 ^ 20 + 1) (\<lambda>p. p + PGSIZE \<le> vend)
       (\<lambda>p. kthen (kfree p) (kret (p + PGSIZE))) (PGROUNDUP vstart))
     (kret ())"

definition kinit1 :: "u32 \<Rightarrow> u32 \<Rightarrow> ('x kmemst_scheme, unit) K" where
  "kinit1 vstart vend =
     kthen (initlock L_kmem)
     (kthen (kmod (\<lambda>s. s\<lparr>use_lock := False\<rparr>))
     (freerange vstart vend))"

definition kinit2 :: "u32 \<Rightarrow> u32 \<Rightarrow> ('x kmemst_scheme, unit) K" where
  "kinit2 vstart vend = kthen (freerange vstart vend) (kmod (\<lambda>s. s\<lparr>use_lock := True\<rparr>))"

section \<open>The contract of a page allocator\<close>

text \<open>A program that allocates pages and frees the \<open>i\<close>-th of those it has.\<close>

datatype pgop = Palloc | Pfree nat

fun pages_run ::
  "('s, u32) K \<Rightarrow> (u32 \<Rightarrow> ('s, unit) K) \<Rightarrow> pgop list \<Rightarrow> u32 list \<Rightarrow> ('s, u32 list) K" where
  "pages_run alloc free [] own = kret own"
| "pages_run alloc free (Palloc # ops) own =
     kbind alloc (\<lambda>v. pages_run alloc free ops (if v = 0 then own else v # own))"
| "pages_run alloc free (Pfree i # ops) own =
     (if i < length own
      then kthen (free (own ! i)) (pages_run alloc free ops (take i own @ drop (Suc i) own))
      else pages_run alloc free ops own)"

locale page_allocator =
  fixes alloc :: "('s, u32) K"
    and free :: "u32 \<Rightarrow> ('s, unit) K"
    and inv :: "'s \<Rightarrow> u32 list \<Rightarrow> bool"
    and valid :: "'s \<Rightarrow> u32 \<Rightarrow> bool"
    and bytes :: "'s \<Rightarrow> memory"
  assumes free_list: "inv s fl \<Longrightarrow> distinct fl \<and> 0 \<notin> set fl \<and> (\<forall>v \<in> set fl. valid s v)"
    and alloc_empty: "inv s [] \<Longrightarrow> alloc s = (Val 0, s)"
    and alloc_page: "inv s (v # fl) \<Longrightarrow>
      \<exists>s'. alloc s = (Val v, s') \<and> inv s' fl \<and> bytes s' = bytes s \<and> valid s' = valid s"
    and free_page: "inv s fl \<Longrightarrow> valid s v \<Longrightarrow> v \<notin> set fl \<Longrightarrow>
      \<exists>s'. free v s = (Val (), s') \<and> inv s' (v # fl) \<and> valid s' = valid s \<and>
        (\<forall>x. page_of x \<noteq> page_of v \<longrightarrow> bytes s' x = bytes s x)"
begin

lemma run:
  assumes "inv s fl" and "distinct (own @ fl)" and "\<forall>v \<in> set own. valid s v"
  shows "\<exists>own' s' fl'. pages_run alloc free ops own s = (Val own', s') \<and> inv s' fl' \<and>
     distinct (own' @ fl') \<and> set (own' @ fl') = set (own @ fl)"
  using assms
proof (induction ops arbitrary: s fl own)
  case Nil
  then show ?case by (auto simp: kret_def)
next
  case (Cons op ops)
  show ?case
  proof (cases op)
    case Palloc
    show ?thesis
    proof (cases fl)
      case Nil
      then have "alloc s = (Val 0, s)" using Cons.prems(1) alloc_empty by simp
      then show ?thesis using Cons.IH [OF Cons.prems] Palloc by (simp add: kbind_def)
    next
      case (Cons v fl')
      have "v \<noteq> 0" "valid s v" using free_list [OF Cons.prems(1)] Cons by auto
      moreover obtain s' where "alloc s = (Val v, s')" "inv s' fl'" "valid s' = valid s"
        using alloc_page Cons.prems(1) Cons by metis
      ultimately show ?thesis
        using Cons.IH [of s' fl' "v # own"] Cons.prems(2,3) Palloc Cons by (simp add: kbind_def)
    qed
  next
    case (Pfree i)
    show ?thesis
    proof (cases "i < length own")
      case True
      define a w b where "a = take i own" and "w = own ! i" and "b = drop (Suc i) own"
      have own: "own = a @ w # b" unfolding a_def w_def b_def by (rule id_take_nth_drop [OF True])
      have d: "distinct ((a @ b) @ w # fl)" and v: "valid s w" "w \<notin> set fl"
        using Cons.prems(2,3) unfolding own by auto
      obtain s' where s': "free w s = (Val (), s')" "inv s' (w # fl)" "valid s' = valid s"
        using free_page Cons.prems(1) v by metis
      have "\<forall>u \<in> set (a @ b). valid s' u" using Cons.prems(3) s'(3) unfolding own by auto
      from Cons.IH [OF s'(2) d this] obtain own' t fl' where
        "pages_run alloc free ops (a @ b) s' = (Val own', t)" "inv t fl'" "distinct (own' @ fl')"
        "set (own' @ fl') = set ((a @ b) @ w # fl)" by blast
      moreover have "set ((a @ b) @ w # fl) = set (own @ fl)" unfolding own by auto
      moreover have "pages_run alloc free (op # ops) own s = pages_run alloc free ops (a @ b) s'"
        using s'(1) True Pfree by (simp add: kbind_def a_def w_def b_def)
      ultimately show ?thesis by metis
    next
      case False
      then show ?thesis using Cons.IH [OF Cons.prems] Pfree by simp
    qed
  qed
qed

end

section \<open>The allocator meets the contract\<close>

fun free_chain :: "memory \<Rightarrow> u32 \<Rightarrow> u32 list \<Rightarrow> bool" where
  "free_chain m p [] = (p = 0)"
| "free_chain m p (v # fl) = (p = v \<and> free_chain m (load32 m v) fl)"

definition page_ok :: "'x kmemst_scheme \<Rightarrow> u32 \<Rightarrow> bool" where
  "page_ok s v = (page_aligned v \<and> kend s \<le> v \<and> V2P v < PHYSTOP)"

definition kmem_inv :: "'x kmemst_scheme \<Rightarrow> u32 list \<Rightarrow> bool" where
  "kmem_inv s fl =
     (free_chain (mem s) (freelist s) fl \<and> distinct fl \<and> (\<forall>v \<in> set fl. page_ok s v) \<and>
      (use_lock s \<longrightarrow> can_take L_kmem s))"

lemma page_ok_nonzero: "page_ok s v \<Longrightarrow> v \<noteq> 0"
  by (auto simp: page_ok_def mmu_defs)

lemma page_ok_aligned: "page_ok s v \<Longrightarrow> page_aligned v"
  by (simp add: page_ok_def)

lemma free_chain_cong:
  "(\<And>v x. v \<in> set fl \<Longrightarrow> page_of x = page_of v \<Longrightarrow> m' x = m x) \<Longrightarrow> (\<And>v. v \<in> set fl \<Longrightarrow> page_aligned v) \<Longrightarrow>
   free_chain m' p fl = free_chain m p fl"
proof (induction fl arbitrary: p)
  case (Cons v fl)
  have "load32 m' v = load32 m v"
    using Cons.prems page_word_aligned by (intro load32_other_page) auto
  moreover have "free_chain m' q fl = free_chain m q fl" for q
    using Cons.prems by (intro Cons.IH) auto
  ultimately show ?case by simp
qed simp

lemma kmem_section_Val:
  assumes "oblivious f" and "use_lock s \<longrightarrow> can_take L_kmem s" and "f s = (Val x, t)"
  shows "kmem_section f s = (Val x, t)"
  using assms with_lock_Val [OF assms(1) _ assms(3)] by (simp add: kmem_section_def)

lemma oblivious_kalloc_pop [obl]: "oblivious kalloc_pop"
  unfolding kalloc_pop_def by (intro obl) simp_all

lemma oblivious_kfree_push [obl]: "oblivious (kfree_push v)"
  unfolding kfree_push_def by (intro obl) simp_all

lemma kalloc_empty: "kmem_inv s [] \<Longrightarrow> kalloc s = (Val 0, s)"
  unfolding kalloc_def kmem_inv_def
  by (intro kmem_section_Val obl) (simp_all add: kalloc_pop_def kret_def)

lemma kalloc_page:
  assumes "kmem_inv s (v # fl)"
  shows "kalloc s = (Val v, s\<lparr>freelist := load32 (mem s) v\<rparr>)"
    and "kmem_inv (s\<lparr>freelist := load32 (mem s) v\<rparr>) fl"
proof -
  have "v \<noteq> 0" "freelist s = v" using assms page_ok_nonzero by (auto simp: kmem_inv_def)
  then show "kalloc s = (Val v, s\<lparr>freelist := load32 (mem s) v\<rparr>)"
    using assms unfolding kalloc_def kmem_inv_def
    by (intro kmem_section_Val obl) (simp_all add: kalloc_pop_def kret_def)
  show "kmem_inv (s\<lparr>freelist := load32 (mem s) v\<rparr>) fl"
    using assms by (auto simp: kmem_inv_def page_ok_def can_take_def)
qed

definition freed :: "u32 \<Rightarrow> 'x kmemst_scheme \<Rightarrow> 'x kmemst_scheme" where
  "freed v s = s\<lparr>mem := store32 (memset (mem s) v 1 PGSIZE) v (freelist s), freelist := v\<rparr>"

lemma page_ok_freed: "page_ok (freed v s) = page_ok s"
  by (simp add: page_ok_def freed_def fun_eq_iff)

lemma mem_freed: "page_aligned v \<Longrightarrow> page_of x \<noteq> page_of v \<Longrightarrow> mem (freed v s) x = mem s x"
  by (simp add: freed_def store32_other_page page_word_aligned memset_page)

lemma kfree_page:
  assumes "kmem_inv s fl" and "page_ok s v" and "v \<notin> set fl"
  shows "kfree v s = (Val (), freed v s)" and "kmem_inv (freed v s) (v # fl)"
proof -
  have ok: "v mod PGSIZE = 0" "kend s \<le> v" "V2P v < PHYSTOP" "page_aligned v"
    using assms(2) by (simp_all add: page_ok_def page_aligned_def)
  let ?s = "s\<lparr>mem := memset (mem s) v 1 PGSIZE\<rparr>"
  have "kmem_section (kfree_push v) ?s = (Val (), freed v s)"
    using assms(1) by (intro kmem_section_Val obl)
      (auto simp: kmem_inv_def can_take_def kfree_push_def freed_def kmod_def)
  then show "kfree v s = (Val (), freed v s)"
    using ok by (auto simp: kfree_def)
  have "free_chain (mem (freed v s)) p fl = free_chain (mem s) p fl" for p
  proof (rule free_chain_cong)
    fix u x assume u: "u \<in> set fl" "page_of x = page_of u"
    then have "page_of x \<noteq> page_of v"
      using assms page_of_aligned_inj page_ok_aligned by (metis kmem_inv_def)
    then show "mem (freed v s) x = mem s x" using ok(4) mem_freed by blast
  qed (use assms(1) in \<open>auto simp: kmem_inv_def page_ok_def\<close>)
  then show "kmem_inv (freed v s) (v # fl)"
    using assms by (auto simp: kmem_inv_def freed_def page_ok_def can_take_def)
qed

interpretation kpages: page_allocator kalloc kfree kmem_inv page_ok mem
proof
  fix s :: "'x kmemst_scheme" and fl v
  show "kmem_inv s fl \<Longrightarrow> distinct fl \<and> 0 \<notin> set fl \<and> (\<forall>v \<in> set fl. page_ok s v)"
    using page_ok_nonzero by (auto simp: kmem_inv_def)
  show "kmem_inv s [] \<Longrightarrow> kalloc s = (Val 0, s)" by (rule kalloc_empty)
  show "kmem_inv s (v # fl) \<Longrightarrow> \<exists>s'. kalloc s = (Val v, s') \<and> kmem_inv s' fl \<and>
      mem s' = mem s \<and> page_ok s' = page_ok s"
    using kalloc_page by (fastforce simp: page_ok_def)
  show "kmem_inv s fl \<Longrightarrow> page_ok s v \<Longrightarrow> v \<notin> set fl \<Longrightarrow>
      \<exists>s'. kfree v s = (Val (), s') \<and> kmem_inv s' (v # fl) \<and> page_ok s' = page_ok s \<and>
        (\<forall>x. page_of x \<noteq> page_of v \<longrightarrow> mem s' x = mem s x)"
    using kfree_page [of s fl v] mem_freed [of v _ s] page_ok_aligned [of s v] page_ok_freed [of v s]
    by blast
qed

section \<open>Filling the free list\<close>

definition pages_between :: "u32 \<Rightarrow> u32 \<Rightarrow> u32 set" where
  "pages_between p vend = {v. page_aligned v \<and> p \<le> v \<and> unat v + 4096 \<le> unat vend}"

lemma unat_next_page: "unat p + 4096 < 2 ^ 32 \<Longrightarrow> unat (p + PGSIZE) = unat p + 4096"
  using unat_add_nowrap [of p 4096] by (simp add: PGSIZE_def)

lemma pages_between_step:
  assumes "page_aligned p" and "unat vend + 4096 < 2 ^ 32"
  shows "p + PGSIZE \<le> vend \<Longrightarrow> unat p \<le> unat vend \<Longrightarrow>
      pages_between p vend = insert p (pages_between (p + PGSIZE) vend)"
    and "\<not> p + PGSIZE \<le> vend \<Longrightarrow> unat p \<le> unat vend \<Longrightarrow> pages_between p vend = {}"
  using assms page_gap [OF assms(1)]
  by (fastforce simp: pages_between_def word_le_nat_alt unat_next_page word_unat_eq_iff)+

lemma freerange_loop:
  assumes "kmem_inv s fl" and "page_aligned p" and "unat vend + 4096 < 2 ^ 32" and "unat p \<le> unat vend"
    and "unat vend < unat p + 4096 * Suc n"
    and "\<And>v. v \<in> pages_between p vend \<Longrightarrow> page_ok s v \<and> v \<notin> set fl"
  shows "\<exists>q s' fl'. kwhile (Suc n) (\<lambda>p. p + PGSIZE \<le> vend) (\<lambda>p. kthen (kfree p) (kret (p + PGSIZE))) p s
      = (Val q, s') \<and> kmem_inv s' fl' \<and> set fl' = set fl \<union> pages_between p vend"
  using assms
proof (induction n arbitrary: s fl p)
  case 0
  then show ?case
    using pages_between_step(2) [of p vend]
    by (auto simp: word_le_nat_alt unat_next_page kret_def)
next
  case (Suc n)
  let ?body = "\<lambda>p. kthen (kfree p) (kret (p + PGSIZE))"
  show ?case
  proof (cases "p + PGSIZE \<le> vend")
    case True
    note step = pages_between_step(1) [OF Suc.prems(2,3) True Suc.prems(4)]
    have p: "page_ok s p" "p \<notin> set fl" using Suc.prems(6) step by auto
    note k = kfree_page [OF Suc.prems(1) p]
    have next_p: "unat (p + PGSIZE) = unat p + 4096" using Suc.prems(3,4) unat_next_page by simp
    have "\<exists>q s' fl'. kwhile (Suc n) (\<lambda>p. p + PGSIZE \<le> vend) ?body (p + PGSIZE) (freed p s) = (Val q, s') \<and>
        kmem_inv s' fl' \<and> set fl' = set (p # fl) \<union> pages_between (p + PGSIZE) vend"
    proof (rule Suc.IH [OF k(2) page_aligned_add [OF Suc.prems(2)] Suc.prems(3)])
      show "unat (p + PGSIZE) \<le> unat vend" "unat vend < unat (p + PGSIZE) + 4096 * Suc n"
        using True Suc.prems(5) next_p by (simp_all add: word_le_nat_alt)
      fix v assume v: "v \<in> pages_between (p + PGSIZE) vend"
      then have "v \<noteq> p" using next_p by (auto simp: pages_between_def word_le_nat_alt)
      then show "page_ok (freed p s) v \<and> v \<notin> set (p # fl)"
        using Suc.prems(6) v step by (auto simp: page_ok_freed)
    qed
    moreover have "kwhile (Suc (Suc n)) (\<lambda>p. p + PGSIZE \<le> vend) ?body p s =
        kwhile (Suc n) (\<lambda>p. p + PGSIZE \<le> vend) ?body (p + PGSIZE) (freed p s)"
      using True k(1) by (subst kwhile.simps(2)) (simp add: kbind_def kret_def del: kwhile.simps)
    ultimately show ?thesis by (simp add: step del: kwhile.simps)
  next
    case False
    then show ?thesis
      using Suc.prems pages_between_step(2) by (auto simp: kret_def)
  qed
qed

text \<open>
  C16: In any sequence of \<open>kalloc\<close> calls and \<open>kfree\<close> calls on pages in use, none panics, no page is
  handed out twice, and the pages in use and the free pages are together always the same pages.
\<close>

theorem kalloc_kfree_run:
  assumes "kmem_inv s fl" and "distinct (own @ fl)" and "\<forall>v \<in> set own. page_ok s v"
  shows "\<exists>own' s' fl'. pages_run kalloc kfree ops own s = (Val own', s') \<and> kmem_inv s' fl' \<and>
     distinct (own' @ fl') \<and> set (own' @ fl') = set (own @ fl)"
  using assms by (rule kpages.run)

definition kmem_ex :: "u32 \<Rightarrow> kmemst" where
  "kmem_ex r = \<lparr>me = 0, cpus = (\<lambda>_. \<lparr>ncli = 0, intena = True, IF = True\<rparr>),
     locks = (\<lambda>_. \<lparr>locked = 0, lk_cpu = None\<rparr>),
     mem = store32 (\<lambda>_. 0) 0x80400000 0x80401000, use_lock = True, freelist = r, kend = 0x80100000\<rparr>"

lemma kmem_ex_inv:
  "kmem_inv (kmem_ex 0x80400000) [0x80400000, 0x80401000]" "kmem_inv (kmem_ex 0) []"
  by (simp_all add: kmem_inv_def kmem_ex_def page_ok_def page_aligned_def mmu_defs can_take_def
      cpu_sane_def) (simp add: load32_def store32_def)

theorem kalloc_kfree_run_witness:
  "\<exists>own' s' fl'. pages_run kalloc kfree [Palloc, Palloc, Pfree 1, Palloc] [] (kmem_ex 0x80400000) =
     (Val own', s') \<and> kmem_inv s' fl' \<and> distinct (own' @ fl') \<and>
     set (own' @ fl') = {0x80400000, 0x80401000}"
  using kalloc_kfree_run [OF kmem_ex_inv(1), of "[]" "[Palloc, Palloc, Pfree 1, Palloc]"] by simp

text \<open>
  C17: \<open>freerange\<close> ends and puts exactly the whole pages between its two bounds on the free list.
\<close>

theorem freerange_correct:
  assumes "kmem_inv s fl" and "kend s \<le> vstart" and "KERNBASE \<le> vstart" and "vstart \<le> vend"
    and "vend \<le> P2V PHYSTOP" and "pages_between (PGROUNDUP vstart) vend \<inter> set fl = {}"
    and "PGROUNDUP vstart \<le> vend"
  shows "\<exists>s' fl'. freerange vstart vend s = (Val (), s') \<and> kmem_inv s' fl' \<and>
     set fl' = set fl \<union> pages_between (PGROUNDUP vstart) vend"
proof -
  have lim: "unat vend \<le> unat (P2V PHYSTOP)" using assms(5) by (simp add: word_le_nat_alt)
  then have vend: "unat vend + 4096 < 2 ^ 32" by (simp add: mmu_defs)
  have up: "unat vstart \<le> unat (PGROUNDUP vstart)"
    using assms(4) vend by (intro unat_PGROUNDUP) (simp add: word_le_nat_alt)
  have ok: "page_ok s v \<and> v \<notin> set fl" if "v \<in> pages_between (PGROUNDUP vstart) vend" for v
  proof -
    have v: "page_aligned v" "unat vstart \<le> unat v" "unat v + 4096 \<le> unat vend"
      using that up by (auto simp: pages_between_def word_le_nat_alt)
    then have "unat KERNBASE \<le> unat v" using assms(3) by (simp add: word_le_nat_alt)
    then have "unat (V2P v) = unat v - unat KERNBASE"
      unfolding V2P_def by (simp add: unat_sub word_le_nat_alt)
    then have "V2P v < PHYSTOP"
      using v(3) lim by (simp add: word_less_nat_alt) (simp add: mmu_defs)
    moreover have "kend s \<le> v" using assms(2) v(2) by (simp add: word_le_nat_alt)
    ultimately show ?thesis using v(1) that assms(6) by (auto simp: page_ok_def)
  qed
  have "\<exists>q s' fl'. kwhile (Suc (2 ^ 20)) (\<lambda>p. p + PGSIZE \<le> vend)
      (\<lambda>p. kthen (kfree p) (kret (p + PGSIZE))) (PGROUNDUP vstart) s = (Val q, s') \<and>
      kmem_inv s' fl' \<and> set fl' = set fl \<union> pages_between (PGROUNDUP vstart) vend"
    using assms(7) unat32_less [of vend] ok
    by (intro freerange_loop [OF assms(1) PGROUNDUP_aligned vend]) (simp_all add: word_le_nat_alt)
  then show ?thesis
    unfolding freerange_def Suc_eq_plus1 by (auto simp: kbind_def kret_def)
qed

theorem freerange_correct_witness:
  "\<exists>s' fl'. freerange 0x80400010 0x80403000 (kmem_ex 0) = (Val (), s') \<and> kmem_inv s' fl' \<and>
     set fl' = pages_between 0x80401000 0x80403000"
proof -
  have up: "PGROUNDUP 0x80400010 = 0x80401000"
    by (simp add: PGROUNDUP_def PGSIZE_def)
  show ?thesis
    using freerange_correct [OF kmem_ex_inv(2), of "0x80400010" "0x80403000"]
    by (simp add: up kmem_ex_def) (simp add: mmu_defs)
qed

end
