(* ===== verification/Xv6_Vm.thy ===== *)
theory Xv6_Vm
  imports Xv6_Kalloc
begin

text \<open>
  Page tables (\<open>vm.c\<close>) as bytes in kernel memory.  A page directory is named by its kernel
  address; \<open>walkpgdir\<close> returns the address of a page table entry, or 0.  \<open>kdata\<close> is the linker
  symbol \<open>data\<close>.  Loops over pages carry fuel \<open>2 ^ 20 + 1\<close>, one more than the number of pages of
  the address space.  \<open>loaduvm\<close>, which reads a file, is in the theory of \<open>exec\<close>.

  \<open>lookup\<close> is what the hardware sees: the entry that maps an address.  \<open>vm_wf\<close> is the invariant
  of one address space: directory, page tables, user frames and the free pages are all
  different pages, and no user frame is mapped twice.
\<close>

section \<open>State and operations\<close>

record vmst = kmemst +
  kpgdir :: u32
  cr3 :: u32             \<comment> \<open>the page table register, a physical address\<close>
  ts_esp0 :: u32         \<comment> \<open>\<open>cpu->ts.esp0\<close>: kernel stack for the next trap\<close>
  kdata :: u32

definition walkpgdir :: "u32 \<Rightarrow> u32 \<Rightarrow> bool \<Rightarrow> ('x kmemst_scheme, u32) K" where
  "walkpgdir pgdir va alloc =
     (let pde = pgdir + 4 * PDX va in
      kbind (kget (\<lambda>s. load32 (mem s) pde)) (\<lambda>e.
      if e AND PTE_P \<noteq> 0 then kret (P2V (PTE_ADDR e) + 4 * PTX va)
      else if \<not> alloc then kret 0
      else
      kbind kalloc (\<lambda>pgtab.
      if pgtab = 0 then kret 0
      else
      kthen (kmod (\<lambda>s. s\<lparr>mem := memset (mem s) pgtab 0 PGSIZE\<rparr>))
      (kthen (kmod (\<lambda>s. s\<lparr>mem := store32 (mem s) pde (V2P pgtab OR PTE_P OR PTE_W OR PTE_U)\<rparr>))
      (kret (pgtab + 4 * PTX va))))))"

fun mappages_loop :: "nat \<Rightarrow> u32 \<Rightarrow> u32 \<Rightarrow> u32 \<Rightarrow> u32 \<Rightarrow> u32 \<Rightarrow> ('x kmemst_scheme, int) K" where
  "mappages_loop 0 pgdir a lst pa perm = kfail Diverges"
| "mappages_loop (Suc n) pgdir a lst pa perm =
     kbind (walkpgdir pgdir a True) (\<lambda>pte.
     if pte = 0 then kret (-1)
     else
     kbind (kget (\<lambda>s. load32 (mem s) pte)) (\<lambda>e.
     if e AND PTE_P \<noteq> 0 then kpanic ''remap''
     else
     kthen (kmod (\<lambda>s. s\<lparr>mem := store32 (mem s) pte (pa OR perm OR PTE_P)\<rparr>))
     (if a = lst then kret 0
      else mappages_loop n pgdir (a + PGSIZE) lst (pa + PGSIZE) perm)))"

definition mappages :: "u32 \<Rightarrow> u32 \<Rightarrow> u32 \<Rightarrow> u32 \<Rightarrow> u32 \<Rightarrow> ('x kmemst_scheme, int) K" where
  "mappages pgdir va size' pa perm =
     mappages_loop (2 ^ 20 + 1) pgdir (PGROUNDDOWN va) (PGROUNDDOWN (va + size' - 1)) pa perm"

text \<open>The rows of \<open>kmap\<close>: virtual address, physical start and end, permissions.\<close>

definition kmap :: "u32 \<Rightarrow> (u32 \<times> u32 \<times> u32 \<times> u32) list" where
  "kmap data' =
     [(KERNBASE, 0, EXTMEM, PTE_W),
      (KERNLINK, V2P KERNLINK, V2P data', 0),
      (data', V2P data', PHYSTOP, PTE_W),
      (DEVSPACE, DEVSPACE, 0, PTE_W)]"

fun setupkvm_loop :: "(u32 \<times> u32 \<times> u32 \<times> u32) list \<Rightarrow> u32 \<Rightarrow> ('x kmemst_scheme, u32) K" where
  "setupkvm_loop [] pgdir = kret pgdir"
| "setupkvm_loop ((virt, phys_start, phys_end, perm) # ks) pgdir =
     kbind (mappages pgdir virt (phys_end - phys_start) phys_start perm) (\<lambda>r.
     if r < 0 then kret 0 else setupkvm_loop ks pgdir)"

definition setupkvm :: "('x vmst_scheme, u32) K" where
  "setupkvm =
     kbind kalloc (\<lambda>pgdir.
     if pgdir = 0 then kret 0
     else
     kthen (kmod (\<lambda>s. s\<lparr>mem := memset (mem s) pgdir 0 PGSIZE\<rparr>))
     (if P2V PHYSTOP > DEVSPACE then kpanic ''PHYSTOP too high''
      else kbind (kget kdata) (\<lambda>data'. setupkvm_loop (kmap data') pgdir)))"

definition switchkvm :: "('x vmst_scheme, unit) K" where
  "switchkvm = kmod (\<lambda>s. s\<lparr>cr3 := V2P (kpgdir s)\<rparr>)"

definition kvmalloc :: "('x vmst_scheme, unit) K" where
  "kvmalloc =
     kbind setupkvm (\<lambda>d. kthen (kmod (\<lambda>s. s\<lparr>kpgdir := d\<rparr>)) switchkvm)"

text \<open>
  \<open>switchuvm\<close> gets the process's kernel stack and page directory (\<open>None\<close> for a null process).
  The constant fields of the task state segment and its descriptor are not kept.
\<close>

definition switchuvm :: "(u32 \<times> u32) option \<Rightarrow> ('x vmst_scheme, unit) K" where
  "switchuvm p =
     (case p of
        None \<Rightarrow> kpanic ''switchuvm: no process''
      | Some (kstack, pgdir) \<Rightarrow>
          if kstack = 0 then kpanic ''switchuvm: no kstack''
          else if pgdir = 0 then kpanic ''switchuvm: no pgdir''
          else
          kthen pushcli
          (kthen (kmod (\<lambda>s. s\<lparr>ts_esp0 := kstack + KSTACKSIZE\<rparr>))
          (kthen (kmod (\<lambda>s. s\<lparr>cr3 := V2P pgdir\<rparr>))
          popcli)))"

text \<open>
  \<open>inituvm\<close> does not check what \<open>kalloc\<close> returns: with no memory left the \<open>memset\<close> hits
  address 0, which the kernel page table does not map.
\<close>

definition inituvm :: "u32 \<Rightarrow> u32 \<Rightarrow> u32 \<Rightarrow> ('x kmemst_scheme, unit) K" where
  "inituvm pgdir init sz =
     (if sz \<ge> PGSIZE then kpanic ''inituvm: more than a page''
      else
      kbind kalloc (\<lambda>mem'.
      if mem' = 0 then kfail (Kfault 0)
      else
      kthen (kmod (\<lambda>s. s\<lparr>mem := memset (mem s) mem' 0 PGSIZE\<rparr>))
      (kthen (mappages pgdir 0 PGSIZE (V2P mem') (PTE_W OR PTE_U))
      (kmod (\<lambda>s. s\<lparr>mem := memmove (mem s) mem' init sz\<rparr>)))))"

fun deallocuvm_loop :: "nat \<Rightarrow> u32 \<Rightarrow> u32 \<Rightarrow> u32 \<Rightarrow> ('x kmemst_scheme, unit) K" where
  "deallocuvm_loop 0 pgdir a oldsz = kfail Diverges"
| "deallocuvm_loop (Suc n) pgdir a oldsz =
     (if a < oldsz then
        kbind (walkpgdir pgdir a False) (\<lambda>pte.
        if pte = 0 then
          deallocuvm_loop n pgdir (PGADDR (PDX a + 1) 0 0 - PGSIZE + PGSIZE) oldsz
        else
        kbind (kget (\<lambda>s. load32 (mem s) pte)) (\<lambda>e.
        if e AND PTE_P \<noteq> 0 then
          let pa = PTE_ADDR e in
          if pa = 0 then kpanic ''kfree''
          else
          kthen (kfree (P2V pa))
          (kthen (kmod (\<lambda>s. s\<lparr>mem := store32 (mem s) pte 0\<rparr>))
          (deallocuvm_loop n pgdir (a + PGSIZE) oldsz))
        else deallocuvm_loop n pgdir (a + PGSIZE) oldsz))
      else kret ())"

definition deallocuvm :: "u32 \<Rightarrow> u32 \<Rightarrow> u32 \<Rightarrow> ('x kmemst_scheme, u32) K" where
  "deallocuvm pgdir oldsz newsz =
     (if newsz \<ge> oldsz then kret oldsz
      else kthen (deallocuvm_loop (2 ^ 20 + 1) pgdir (PGROUNDUP newsz) oldsz) (kret newsz))"

fun allocuvm_loop :: "nat \<Rightarrow> u32 \<Rightarrow> u32 \<Rightarrow> u32 \<Rightarrow> u32 \<Rightarrow> ('x kmemst_scheme, u32) K" where
  "allocuvm_loop 0 pgdir a oldsz newsz = kfail Diverges"
| "allocuvm_loop (Suc n) pgdir a oldsz newsz =
     (if a < newsz then
        kbind kalloc (\<lambda>mem'.
        if mem' = 0 then kthen (deallocuvm pgdir newsz oldsz) (kret 0)
        else
        kthen (kmod (\<lambda>s. s\<lparr>mem := memset (mem s) mem' 0 PGSIZE\<rparr>))
        (kbind (mappages pgdir a PGSIZE (V2P mem') (PTE_W OR PTE_U)) (\<lambda>r.
        if r < 0 then
          kthen (deallocuvm pgdir newsz oldsz) (kthen (kfree mem') (kret 0))
        else allocuvm_loop n pgdir (a + PGSIZE) oldsz newsz)))
      else kret newsz)"

definition allocuvm :: "u32 \<Rightarrow> u32 \<Rightarrow> u32 \<Rightarrow> ('x kmemst_scheme, u32) K" where
  "allocuvm pgdir oldsz newsz =
     (if newsz \<ge> KERNBASE then kret 0
      else if newsz < oldsz then kret oldsz
      else allocuvm_loop (2 ^ 20 + 1) pgdir (PGROUNDUP oldsz) oldsz newsz)"

definition freevm :: "u32 \<Rightarrow> ('x kmemst_scheme, unit) K" where
  "freevm pgdir =
     (if pgdir = 0 then kpanic ''freevm: no pgdir''
      else
      kthen (deallocuvm pgdir KERNBASE 0)
      (kthen (kfor [0..<NPDENTRIES] (\<lambda>i.
         kbind (kget (\<lambda>s. load32 (mem s) (pgdir + 4 * of_nat i))) (\<lambda>e.
         kwhen (e AND PTE_P \<noteq> 0) (kfree (P2V (PTE_ADDR e))))))
      (kfree pgdir)))"

definition clearpteu :: "u32 \<Rightarrow> u32 \<Rightarrow> ('x kmemst_scheme, unit) K" where
  "clearpteu pgdir uva =
     kbind (walkpgdir pgdir uva False) (\<lambda>pte.
     if pte = 0 then kpanic ''clearpteu''
     else kmod (\<lambda>s. s\<lparr>mem := store32 (mem s) pte (load32 (mem s) pte AND NOT PTE_U)\<rparr>))"

fun copyuvm_loop :: "nat \<Rightarrow> u32 \<Rightarrow> u32 \<Rightarrow> u32 \<Rightarrow> u32 \<Rightarrow> ('x kmemst_scheme, u32) K" where
  "copyuvm_loop 0 pgdir d i sz = kfail Diverges"
| "copyuvm_loop (Suc n) pgdir d i sz =
     (if i < sz then
        kbind (walkpgdir pgdir i False) (\<lambda>pte.
        if pte = 0 then kpanic ''copyuvm: pte should exist''
        else
        kbind (kget (\<lambda>s. load32 (mem s) pte)) (\<lambda>e.
        if e AND PTE_P = 0 then kpanic ''copyuvm: page not present''
        else
        kbind kalloc (\<lambda>mem'.
        if mem' = 0 then kthen (freevm d) (kret 0)
        else
        kthen (kmod (\<lambda>s. s\<lparr>mem := memmove (mem s) mem' (P2V (PTE_ADDR e)) PGSIZE\<rparr>))
        (kbind (mappages d i PGSIZE (V2P mem') (PTE_FLAGS e)) (\<lambda>r.
        if r < 0 then kthen (freevm d) (kret 0)
        else copyuvm_loop n pgdir d (i + PGSIZE) sz)))))
      else kret d)"

definition copyuvm :: "u32 \<Rightarrow> u32 \<Rightarrow> ('x vmst_scheme, u32) K" where
  "copyuvm pgdir sz =
     kbind setupkvm (\<lambda>d. if d = 0 then kret 0 else copyuvm_loop (2 ^ 20 + 1) pgdir d 0 sz)"

text \<open>\<open>uva2ka\<close> reads \<open>*pte\<close> without a check for a null \<open>pte\<close>.\<close>

definition uva2ka :: "u32 \<Rightarrow> u32 \<Rightarrow> ('x kmemst_scheme, u32) K" where
  "uva2ka pgdir uva =
     kbind (walkpgdir pgdir uva False) (\<lambda>pte.
     if pte = 0 then kfail (Kfault 0)
     else
     kbind (kget (\<lambda>s. load32 (mem s) pte)) (\<lambda>e.
     if e AND PTE_P = 0 then kret 0
     else if e AND PTE_U = 0 then kret 0
     else kret (P2V (PTE_ADDR e))))"

fun copyout_loop :: "nat \<Rightarrow> u32 \<Rightarrow> u32 \<Rightarrow> u32 \<Rightarrow> u32 \<Rightarrow> ('x kmemst_scheme, int) K" where
  "copyout_loop 0 pgdir va buf len = kfail Diverges"
| "copyout_loop (Suc k) pgdir va buf len =
     (if len > 0 then
        let va0 = PGROUNDDOWN va in
        kbind (uva2ka pgdir va0) (\<lambda>pa0.
        if pa0 = 0 then kret (-1)
        else
        let n = min (PGSIZE - (va - va0)) len in
        kthen (kmod (\<lambda>s. s\<lparr>mem := memmove (mem s) (pa0 + (va - va0)) buf n\<rparr>))
        (copyout_loop k pgdir (va0 + PGSIZE) (buf + n) (len - n)))
      else kret 0)"

definition copyout :: "u32 \<Rightarrow> u32 \<Rightarrow> u32 \<Rightarrow> u32 \<Rightarrow> ('x kmemst_scheme, int) K" where
  "copyout pgdir va p len = copyout_loop (2 ^ 20 + 2) pgdir va p len"

section \<open>Page tables as a data structure\<close>

definition present :: "memory \<Rightarrow> u32 \<Rightarrow> u32 \<Rightarrow> bool" where
  "present m pgdir i = (load32 m (pgdir + 4 * i) AND PTE_P \<noteq> 0)"

definition pgtab :: "memory \<Rightarrow> u32 \<Rightarrow> u32 \<Rightarrow> u32" where
  "pgtab m pgdir i = P2V (PTE_ADDR (load32 m (pgdir + 4 * i)))"

definition slot :: "memory \<Rightarrow> u32 \<Rightarrow> u32 \<Rightarrow> u32" where
  "slot m pgdir va = pgtab m pgdir (PDX va) + 4 * PTX va"

definition lookup :: "memory \<Rightarrow> u32 \<Rightarrow> u32 \<Rightarrow> u32 option" where
  "lookup m pgdir va =
     (if present m pgdir (PDX va) \<and> load32 m (slot m pgdir va) AND PTE_P \<noteq> 0
      then Some (load32 m (slot m pgdir va)) else None)"

definition frame :: "u32 \<Rightarrow> u32" where "frame e = P2V (PTE_ADDR e)"

definition pt_pages :: "memory \<Rightarrow> u32 \<Rightarrow> u32 set" where
  "pt_pages m pgdir = insert pgdir (pgtab m pgdir ` {i. i < 1024 \<and> present m pgdir i})"

text \<open>\<open>F\<close> holds pages that are not part of this address space, the free pages among them.\<close>

definition dir_wf :: "(u32 \<Rightarrow> bool) \<Rightarrow> memory \<Rightarrow> u32 \<Rightarrow> u32 set \<Rightarrow> bool" where
  "dir_wf ok m pgdir F =
     (page_aligned pgdir \<and> pt_pages m pgdir \<inter> F = {} \<and> (\<forall>p \<in> pt_pages m pgdir. ok p) \<and>
      (\<forall>i < 1024. present m pgdir i \<longrightarrow> pgtab m pgdir i \<noteq> pgdir) \<and>
      inj_on (pgtab m pgdir) {i. i < 1024 \<and> present m pgdir i})"

definition user_frames :: "memory \<Rightarrow> u32 \<Rightarrow> u32 set" where
  "user_frames m pgdir = {frame e |va e. va < KERNBASE \<and> lookup m pgdir va = Some e}"

definition user_inj :: "memory \<Rightarrow> u32 \<Rightarrow> bool" where
  "user_inj m pgdir =
     (\<forall>va va' e e'. va < KERNBASE \<longrightarrow> va' < KERNBASE \<longrightarrow> lookup m pgdir va = Some e \<longrightarrow>
        lookup m pgdir va' = Some e' \<longrightarrow> frame e = frame e' \<longrightarrow> page_of va = page_of va')"

definition user_wf :: "(u32 \<Rightarrow> bool) \<Rightarrow> memory \<Rightarrow> u32 \<Rightarrow> u32 set \<Rightarrow> bool" where
  "user_wf ok m pgdir F =
     ((\<forall>f \<in> user_frames m pgdir. ok f) \<and> user_frames m pgdir \<inter> F = {} \<and>
      user_frames m pgdir \<inter> pt_pages m pgdir = {} \<and> user_inj m pgdir)"

lemma pgtab_aligned [simp]: "page_aligned (pgtab m pgdir i)"
  by (simp add: pgtab_def)

lemma frame_aligned [simp]: "page_aligned (frame e)"
  by (simp add: frame_def)

lemma pt_pages_aligned: "page_aligned pgdir \<Longrightarrow> p \<in> pt_pages m pgdir \<Longrightarrow> page_aligned p"
  by (auto simp: pt_pages_def)

lemma pgdir_in: "pgdir \<in> pt_pages m pgdir"
  and pgtab_in: "i < 1024 \<Longrightarrow> present m pgdir i \<Longrightarrow> pgtab m pgdir i \<in> pt_pages m pgdir"
  by (auto simp: pt_pages_def)

text \<open>The translation depends on the pages of the tables only.\<close>

lemma dir_cong:
  assumes "page_aligned pgdir" and "\<And>x. page_of x = page_of pgdir \<Longrightarrow> m' x = m x" and "i < 1024"
  shows "present m' pgdir i = present m pgdir i" "pgtab m' pgdir i = pgtab m pgdir i"
proof -
  have "load32 m' (pgdir + 4 * i) = load32 m (pgdir + 4 * i)"
    using assms slot_page slot_word by (intro load32_other_page) auto
  then show "present m' pgdir i = present m pgdir i" "pgtab m' pgdir i = pgtab m pgdir i"
    by (simp_all add: present_def pgtab_def)
qed

lemma tables_cong:
  assumes "page_aligned pgdir"
    and "\<And>p x. p \<in> pt_pages m pgdir \<Longrightarrow> page_of x = page_of p \<Longrightarrow> m' x = m x"
  shows "pt_pages m' pgdir = pt_pages m pgdir" and "lookup m' pgdir = lookup m pgdir"
proof -
  have d: "present m' pgdir i = present m pgdir i" "pgtab m' pgdir i = pgtab m pgdir i"
    if "i < 1024" for i
    using dir_cong [OF assms(1) _ that] assms(2) pgdir_in by metis+
  then show "pt_pages m' pgdir = pt_pages m pgdir"
    by (auto simp: pt_pages_def image_iff)
  have "load32 m' (slot m pgdir va) = load32 m (slot m pgdir va)" if "present m pgdir (PDX va)" for va
    using that assms(2) pgtab_in [OF PDX_less that] PTX_less slot_page slot_word
    unfolding slot_def by (intro load32_other_page) auto
  then show "lookup m' pgdir = lookup m pgdir"
    using d PDX_less by (auto simp: lookup_def slot_def fun_eq_iff)
qed

lemma dir_wf_cong:
  assumes "dir_wf ok m pgdir F"
    and "\<And>p x. p \<in> pt_pages m pgdir \<Longrightarrow> page_of x = page_of p \<Longrightarrow> m' x = m x"
  shows "dir_wf ok m' pgdir F"
proof -
  have al: "page_aligned pgdir" using assms(1) by (simp add: dir_wf_def)
  have d: "present m' pgdir i = present m pgdir i" "pgtab m' pgdir i = pgtab m pgdir i"
    if "i < 1024" for i
    using dir_cong [OF al _ that] assms(2) pgdir_in by metis+
  then have "{i. i < 1024 \<and> present m' pgdir i} = {i. i < 1024 \<and> present m pgdir i}" by auto
  moreover have "inj_on (pgtab m' pgdir) {i. i < 1024 \<and> present m pgdir i} \<longleftrightarrow>
      inj_on (pgtab m pgdir) {i. i < 1024 \<and> present m pgdir i}"
    using d by (intro inj_on_cong) simp
  ultimately show ?thesis
    using assms(1) tables_cong(1) [OF al assms(2)] d by (simp add: dir_wf_def)
qed

text \<open>Adding an empty page table.\<close>

definition with_table :: "memory \<Rightarrow> u32 \<Rightarrow> u32 \<Rightarrow> u32 \<Rightarrow> memory" where
  "with_table m pgdir i v =
     store32 (memset m v 0 PGSIZE) (pgdir + 4 * i) (V2P v OR PTE_P OR PTE_W OR PTE_U)"

lemma with_table_other:
  assumes "page_aligned pgdir" "page_aligned v" "i < 1024" "page_of x \<noteq> page_of v"
    "page_of x \<noteq> page_of pgdir"
  shows "with_table m pgdir i v x = m x"
  using assms by (simp add: with_table_def store32_other_page slot_word slot_page memset_page)

lemma with_table_zero:
  assumes "page_aligned pgdir" "page_aligned v" "i < 1024" "v \<noteq> pgdir" "j < 1024"
  shows "load32 (with_table m pgdir i v) (v + 4 * j) = 0"
proof -
  have "page_of v \<noteq> page_of pgdir" using assms page_of_aligned_inj by blast
  then have "load32 (with_table m pgdir i v) (v + 4 * j) = load32 (\<lambda>_. 0) (v + 4 * j)"
    using assms by (intro load32_other_page)
      (simp_all add: with_table_def store32_other_page slot_word slot_page memset_page)
  then show ?thesis by (simp add: load32_def)
qed

lemma with_table_dir:
  assumes "page_aligned pgdir" "page_aligned v" "i < 1024" "v \<noteq> pgdir" "j < 1024"
  shows "present (with_table m pgdir i v) pgdir j = (j = i \<or> present m pgdir j)"
    and "pgtab (with_table m pgdir i v) pgdir j = (if j = i then v else pgtab m pgdir j)"
proof -
  have pg: "page_of v \<noteq> page_of pgdir" using assms page_of_aligned_inj by blast
  have e: "load32 (with_table m pgdir i v) (pgdir + 4 * j) =
      (if j = i then V2P v OR PTE_P OR PTE_W OR PTE_U else load32 m (pgdir + 4 * j))"
  proof (cases "j = i")
    case False
    then have "load32 (with_table m pgdir i v) (pgdir + 4 * j) = load32 (memset m v 0 PGSIZE) (pgdir + 4 * j)"
      using assms unfolding with_table_def
      by (intro load32_store32_other slot_word slot_words) simp_all
    also have "\<dots> = load32 m (pgdir + 4 * j)"
      using assms pg by (intro load32_other_page) (simp_all add: slot_word slot_page memset_page)
    finally show ?thesis using False by simp
  qed (simp add: with_table_def)
  have p: "(V2P v OR PTE_P OR PTE_W OR PTE_U) AND PTE_P \<noteq> 0"
    using OR_PTE_P [of "V2P v OR PTE_W OR PTE_U"] by (simp add: or.assoc or.commute or.left_commute)
  have a: "PTE_ADDR (V2P v OR PTE_P OR PTE_W OR PTE_U) = V2P v"
    using assms(2) by (intro PTE_ADDR_OR) (simp_all add: PTE_P_def PTE_W_def PTE_U_def)
  show "present (with_table m pgdir i v) pgdir j = (j = i \<or> present m pgdir j)"
    using e p by (simp add: present_def)
  show "pgtab (with_table m pgdir i v) pgdir j = (if j = i then v else pgtab m pgdir j)"
    using e a by (simp add: pgtab_def)
qed

lemma with_table_pages:
  assumes "page_aligned pgdir" "page_aligned v" "i < 1024" "v \<noteq> pgdir" "\<not> present m pgdir i"
  shows "pt_pages (with_table m pgdir i v) pgdir = insert v (pt_pages m pgdir)"
  using assms with_table_dir [OF assms(1-4)] unfolding pt_pages_def by (auto simp: image_iff)

definition fresh_table :: "(u32 \<Rightarrow> bool) \<Rightarrow> memory \<Rightarrow> u32 \<Rightarrow> u32 set \<Rightarrow> u32 \<Rightarrow> u32 \<Rightarrow> bool" where
  "fresh_table ok m pgdir F i v =
     (dir_wf ok m pgdir F \<and> v \<in> F \<and> page_aligned v \<and> ok v \<and> i < 1024 \<and> \<not> present m pgdir i)"

lemma fresh_tableD:
  assumes "fresh_table ok m pgdir F i v"
  shows "dir_wf ok m pgdir F" "v \<in> F" "page_aligned v" "ok v" "i < 1024" "\<not> present m pgdir i"
    and "page_aligned pgdir" "v \<noteq> pgdir" "v \<notin> pt_pages m pgdir"
  using assms pgdir_in by (auto simp: fresh_table_def dir_wf_def)

lemma with_table_lookup:
  assumes "fresh_table ok m pgdir F i v"
  shows "lookup (with_table m pgdir i v) pgdir = lookup m pgdir"
proof
  fix va
  let ?m = "with_table m pgdir i v"
  note v = fresh_tableD(2-4) [OF assms] and i = fresh_tableD(5,6) [OF assms]
    and sep = fresh_tableD(7-9) [OF assms] and wf = fresh_tableD(1) [OF assms]
  note d = with_table_dir [OF sep(1) v(2) i(1) sep(2) PDX_less, of m va]
  show "lookup ?m pgdir va = lookup m pgdir va"
  proof (cases "PDX va = i")
    case True
    have "load32 ?m (slot ?m pgdir va) = 0"
      using with_table_zero [OF sep(1) v(2) i(1) sep(2) PTX_less] d True by (simp add: slot_def)
    then show ?thesis using True i(2) by (simp add: lookup_def)
  next
    case False
    have "load32 ?m (slot m pgdir va) = load32 m (slot m pgdir va)" if pr: "present m pgdir (PDX va)"
    proof (rule load32_other_page)
      show "word_aligned (slot m pgdir va)" unfolding slot_def by (simp add: slot_word PTX_less)
      fix x assume "page_of x = page_of (slot m pgdir va)"
      then have x: "page_of x = page_of (pgtab m pgdir (PDX va))"
        by (simp add: slot_def slot_page PTX_less)
      have "pgtab m pgdir (PDX va) \<noteq> v" "pgtab m pgdir (PDX va) \<noteq> pgdir"
        using pgtab_in [OF PDX_less pr] sep(3) wf PDX_less pr by (auto simp: dir_wf_def)
      then show "?m x = m x"
        using sep(1) v(2) i(1) x pgtab_aligned page_of_aligned_inj
        by (intro with_table_other) metis+
    qed
    then show ?thesis using d False by (auto simp: lookup_def slot_def)
  qed
qed

lemma with_table_dir_wf:
  assumes "fresh_table ok m pgdir F i v"
  shows "dir_wf ok (with_table m pgdir i v) pgdir (F - {v})"
proof -
  note v = fresh_tableD(2-4) [OF assms] and i = fresh_tableD(5,6) [OF assms]
    and sep = fresh_tableD(7-9) [OF assms] and wf = fresh_tableD(1) [OF assms]
  note d = with_table_dir [OF sep(1) v(2) i(1) sep(2), of _ m]
  have s: "{j. j < 1024 \<and> present (with_table m pgdir i v) pgdir j} = insert i {j. j < 1024 \<and> present m pgdir j}"
    using d(1) i(1) by auto
  have "inj_on (\<lambda>j. if j = i then v else pgtab m pgdir j) (insert i {j. j < 1024 \<and> present m pgdir j})"
    using wf sep(3) pgtab_in i(2) by (fastforce simp: dir_wf_def inj_on_def)
  then have "inj_on (pgtab (with_table m pgdir i v) pgdir) (insert i {j. j < 1024 \<and> present m pgdir j})"
    using d(2) i(1) by (subst inj_on_cong [where g = "\<lambda>j. if j = i then v else pgtab m pgdir j"]) auto
  then show ?thesis
    using wf v sep d with_table_pages [OF sep(1) v(2) i(1) sep(2) i(2)]
    unfolding dir_wf_def s by auto
qed

lemma with_table_user_wf:
  assumes "fresh_table ok m pgdir F i v" and "user_wf ok m pgdir F"
  shows "user_wf ok (with_table m pgdir i v) pgdir (F - {v})"
proof -
  have "pt_pages (with_table m pgdir i v) pgdir = insert v (pt_pages m pgdir)"
    using fresh_tableD [OF assms(1)] by (intro with_table_pages)
  moreover have "user_frames (with_table m pgdir i v) pgdir = user_frames m pgdir"
    "user_inj (with_table m pgdir i v) pgdir = user_inj m pgdir"
    by (simp_all only: user_frames_def user_inj_def with_table_lookup [OF assms(1)])
  ultimately show ?thesis
    using assms(2) fresh_tableD(2) [OF assms(1)] by (auto simp: user_wf_def)
qed

text \<open>Setting one entry of a present page table.\<close>

lemma set_pte:
  fixes w :: u32
  assumes "dir_wf ok m pgdir F" and "present m pgdir (PDX va)"
  defines "m' \<equiv> store32 m (slot m pgdir va) w"
  shows "lookup m' pgdir va' =
      (if page_of va' = page_of va then (if w AND PTE_P \<noteq> 0 then Some w else None) else lookup m pgdir va')"
    and "pt_pages m' pgdir = pt_pages m pgdir" and "dir_wf ok m' pgdir F"
    and "\<And>x. page_of x \<noteq> page_of (pgtab m pgdir (PDX va)) \<Longrightarrow> m' x = m x"
proof -
  let ?t = "pgtab m pgdir (PDX va)"
  have al: "page_aligned pgdir" and t: "?t \<noteq> pgdir"
    using assms(1,2) PDX_less by (auto simp: dir_wf_def)
  have sw: "word_aligned (slot m pgdir va)" and pg: "page_of (slot m pgdir va) = page_of ?t"
    by (simp_all add: slot_def slot_word slot_page PTX_less)
  show other: "m' x = m x" if "page_of x \<noteq> page_of ?t" for x
    using that sw pg by (simp add: m'_def store32_other_page)
  have "page_of pgdir \<noteq> page_of ?t" using al t page_of_aligned_inj pgtab_aligned by metis
  then have "\<And>x. page_of x = page_of pgdir \<Longrightarrow> m' x = m x" using other by simp
  note d = dir_cong [OF al this]
  then show pp: "pt_pages m' pgdir = pt_pages m pgdir" by (auto simp: pt_pages_def image_iff)
  have s: "{i. i < 1024 \<and> present m' pgdir i} = {i. i < 1024 \<and> present m pgdir i}" using d by auto
  have "inj_on (pgtab m' pgdir) {i. i < 1024 \<and> present m pgdir i} \<longleftrightarrow>
      inj_on (pgtab m pgdir) {i. i < 1024 \<and> present m pgdir i}"
    using d by (intro inj_on_cong) simp
  then show "dir_wf ok m' pgdir F" using assms(1) d s pp by (simp add: dir_wf_def)
  have same: "slot m' pgdir va' = slot m pgdir va'" "present m' pgdir (PDX va') = present m pgdir (PDX va')"
    using d PDX_less by (simp_all add: slot_def)
  show "lookup m' pgdir va' =
      (if page_of va' = page_of va then (if w AND PTE_P \<noteq> 0 then Some w else None) else lookup m pgdir va')"
  proof (cases "page_of va' = page_of va")
    case True
    then have "slot m pgdir va' = slot m pgdir va" "PDX va' = PDX va"
      by (simp_all add: page_of_indices slot_def)
    then show ?thesis using True same assms(2) by (simp add: lookup_def m'_def)
  next
    case False
    have "load32 m' (slot m pgdir va') = load32 m (slot m pgdir va')" if pr: "present m pgdir (PDX va')"
    proof (cases "PDX va' = PDX va")
      case True
      then have "PTX va' \<noteq> PTX va" using False by (simp add: page_of_indices)
      then show ?thesis
        using True PTX_less slot_words slot_word unfolding m'_def slot_def
        by (intro load32_store32_other) simp_all
    next
      case False
      then have "pgtab m pgdir (PDX va') \<noteq> ?t"
        using assms(1,2) pr PDX_less by (auto simp: dir_wf_def inj_on_def)
      then have "page_of (slot m pgdir va') \<noteq> page_of ?t"
        by (simp add: slot_def slot_page PTX_less page_of_aligned_inj)
      then show ?thesis
        using other by (intro load32_other_page) (auto simp: slot_def slot_word PTX_less)
    qed
    then show ?thesis using False same by (auto simp: lookup_def)
  qed
qed

section \<open>\<open>walkpgdir\<close> and \<open>mappages\<close>\<close>

definition vm_inv :: "'x kmemst_scheme \<Rightarrow> u32 \<Rightarrow> u32 list \<Rightarrow> u32 set \<Rightarrow> bool" where
  "vm_inv s pgdir fl F = (kmem_inv s fl \<and> set fl \<subseteq> F \<and> dir_wf (page_ok s) (mem s) pgdir F)"

lemma page_ok_mem [simp]: "page_ok (s\<lparr>mem := m\<rparr>) = page_ok s" "page_ok (s\<lparr>freelist := r\<rparr>) = page_ok s"
  by (simp_all add: page_ok_def fun_eq_iff)

lemma kmem_inv_mem:
  assumes "kmem_inv s fl" and "\<And>v x. v \<in> set fl \<Longrightarrow> page_of x = page_of v \<Longrightarrow> m' x = mem s x"
  shows "kmem_inv (s\<lparr>mem := m'\<rparr>) fl"
proof -
  have "free_chain m' (freelist s) fl = free_chain (mem s) (freelist s) fl"
    using assms by (intro free_chain_cong) (auto simp: kmem_inv_def page_ok_def)
  then show ?thesis using assms(1) by (auto simp: kmem_inv_def can_take_def)
qed

lemma walkpgdir_present:
  "present (mem s) pgdir (PDX va) \<Longrightarrow> walkpgdir pgdir va alloc s = (Val (slot (mem s) pgdir va), s)"
  by (simp add: walkpgdir_def present_def slot_def pgtab_def Let_def kret_def)

lemma walkpgdir_absent:
  "\<not> present (mem s) pgdir (PDX va) \<Longrightarrow> walkpgdir pgdir va False s = (Val 0, s)"
  by (simp add: walkpgdir_def present_def Let_def kret_def)

lemma walkpgdir_empty:
  "\<not> present (mem s) pgdir (PDX va) \<Longrightarrow> kmem_inv s [] \<Longrightarrow> walkpgdir pgdir va True s = (Val 0, s)"
  using kalloc_empty [of s] by (simp add: walkpgdir_def present_def Let_def kbind_def kret_def kget_def)

lemma walkpgdir_new:
  assumes "\<not> present (mem s) pgdir (PDX va)" and "kmem_inv s (v # fl)"
  shows "walkpgdir pgdir va True s = (Val (v + 4 * PTX va),
     s\<lparr>freelist := load32 (mem s) v, mem := with_table (mem s) pgdir (PDX va) v\<rparr>)"
proof -
  have "v \<noteq> 0" using assms(2) page_ok_nonzero by (auto simp: kmem_inv_def)
  then show ?thesis
    using assms kalloc_page(1) [OF assms(2)]
    by (simp add: walkpgdir_def present_def Let_def kbind_def kret_def kget_def kmod_def with_table_def)
qed

text \<open>Everything but memory and the free list.\<close>

definition kmem_rest :: "'x kmemst_scheme \<Rightarrow> 'x kmemst_scheme" where
  "kmem_rest s = s\<lparr>mem := (\<lambda>_. 0), freelist := 0\<rparr>"

lemma kmem_rest_upd [simp]:
  "kmem_rest (s\<lparr>mem := m\<rparr>) = kmem_rest s" "kmem_rest (s\<lparr>freelist := r\<rparr>) = kmem_rest s"
  by (simp_all add: kmem_rest_def)

lemma kmem_restD: "kmem_rest s' = kmem_rest s \<Longrightarrow> s' = s\<lparr>mem := mem s', freelist := freelist s'\<rparr>"
  by (cases s; cases s') (simp add: kmem_rest_def)

text \<open>The table after mapping \<open>k\<close> pages from \<open>a\<close>, and what else a mapping may change.\<close>

definition mapped :: "u32 \<Rightarrow> u32 \<Rightarrow> u32 \<Rightarrow> nat \<Rightarrow> (u32 \<Rightarrow> u32 option) \<Rightarrow> u32 \<Rightarrow> u32 option" where
  "mapped a pa perm k old va =
     (if unat (va - a) < 4096 * k then Some ((pa + PGROUNDDOWN (va - a)) OR perm OR PTE_P) else old va)"

definition map_effect ::
  "u32 \<Rightarrow> u32 list \<Rightarrow> u32 set \<Rightarrow> 'x kmemst_scheme \<Rightarrow> u32 list \<Rightarrow> 'x kmemst_scheme \<Rightarrow> bool" where
  "map_effect pgdir fl F s fl' s' =
     (vm_inv s' pgdir fl' (F - (set fl - set fl')) \<and> (\<exists>us. fl = us @ fl') \<and>
      kmem_rest s' = kmem_rest s \<and> pt_pages (mem s) pgdir \<subseteq> pt_pages (mem s') pgdir \<and>
      (\<forall>x. page_of x \<notin> page_of ` pt_pages (mem s') pgdir \<longrightarrow> mem s' x = mem s x))"

lemma map_effect_refl: "vm_inv s pgdir fl F \<Longrightarrow> map_effect pgdir fl F s fl s"
  by (simp add: map_effect_def)

lemma map_effect_trans:
  assumes "map_effect pgdir fl F s fl1 s1" and "map_effect pgdir fl1 (F - (set fl - set fl1)) s1 fl2 s2"
  shows "map_effect pgdir fl F s fl2 s2"
proof -
  obtain us vs where us: "fl = us @ fl1" "fl1 = vs @ fl2" using assms by (auto simp: map_effect_def)
  then have F: "F - (set fl - set fl1) - (set fl1 - set fl2) = F - (set fl - set fl2)" by auto
  have sub: "pt_pages (mem s) pgdir \<subseteq> pt_pages (mem s1) pgdir" "pt_pages (mem s1) pgdir \<subseteq> pt_pages (mem s2) pgdir"
    using assms by (simp_all add: map_effect_def)
  have "mem s2 x = mem s x" if "page_of x \<notin> page_of ` pt_pages (mem s2) pgdir" for x
    using assms that sub(2) unfolding map_effect_def by (metis image_mono subsetD)
  then show ?thesis
    using assms us F sub unfolding map_effect_def by auto
qed

lemma vm_inv_pages:
  assumes "vm_inv s pgdir fl F" shows "page_aligned pgdir"
    and "p \<in> pt_pages (mem s) pgdir \<Longrightarrow> page_ok s p" "p \<in> pt_pages (mem s) pgdir \<Longrightarrow> p \<notin> F"
  using assms by (auto simp: vm_inv_def dir_wf_def)

lemma slot_nonzero:
  assumes "vm_inv s pgdir fl F" and "present (mem s) pgdir (PDX va)"
  shows "slot (mem s) pgdir va \<noteq> 0"
proof
  have zero: "page_aligned 0" by (simp add: page_aligned_def)
  assume "slot (mem s) pgdir va = 0"
  then have "page_of (pgtab (mem s) pgdir (PDX va)) = page_of 0"
    using slot_page [OF pgtab_aligned PTX_less] by (metis slot_def)
  then have "pgtab (mem s) pgdir (PDX va) = 0"
    using page_of_aligned_inj [OF pgtab_aligned zero] by metis
  then show False
    using vm_inv_pages(2) [OF assms(1) pgtab_in [OF PDX_less assms(2)]] page_ok_nonzero by metis
qed

lemma walkpgdir_alloc:
  assumes "vm_inv s pgdir fl F"
  shows "walkpgdir pgdir va True s = (Val 0, s) \<and> fl = [] \<or>
    (\<exists>s' fl'. walkpgdir pgdir va True s = (Val (slot (mem s') pgdir va), s') \<and>
       present (mem s') pgdir (PDX va) \<and> map_effect pgdir fl F s fl' s' \<and>
       lookup (mem s') pgdir = lookup (mem s) pgdir)"
proof (cases "present (mem s) pgdir (PDX va)")
  case True
  then show ?thesis using walkpgdir_present map_effect_refl [OF assms] by blast
next
  case False
  have k: "kmem_inv s fl" "set fl \<subseteq> F" using assms by (auto simp: vm_inv_def)
  show ?thesis
  proof (cases fl)
    case Nil
    then show ?thesis using walkpgdir_empty [OF False] k by simp
  next
    case (Cons v fl')
    let ?m = "with_table (mem s) pgdir (PDX va) v"
    let ?s = "s\<lparr>freelist := load32 (mem s) v, mem := ?m\<rparr>"
    have v: "page_ok s v" "v \<notin> set fl'" using k Cons by (auto simp: kmem_inv_def)
    have fr: "fresh_table (page_ok s) (mem s) pgdir F (PDX va) v"
      using assms False k v Cons PDX_less page_ok_aligned by (auto simp: fresh_table_def vm_inv_def)
    note f = fresh_tableD [OF fr]
    note d = with_table_dir [OF f(7,3,5,8) PDX_less, of "mem s" va]
    have pp: "pt_pages ?m pgdir = insert v (pt_pages (mem s) pgdir)"
      using f by (intro with_table_pages)
    have "kmem_inv ?s fl'"
    proof -
      have "kmem_inv (s\<lparr>freelist := load32 (mem s) v\<rparr>) fl'" using kalloc_page(2) k Cons by simp
      then have "kmem_inv (s\<lparr>freelist := load32 (mem s) v\<rparr>\<lparr>mem := ?m\<rparr>) fl'"
      proof (rule kmem_inv_mem)
        fix u x assume u: "u \<in> set fl'" "page_of x = page_of u"
        have "u \<in> F" "page_aligned u" "u \<noteq> v" using u k Cons v by (auto simp: kmem_inv_def page_ok_def)
        moreover from this have "u \<noteq> pgdir" using pgdir_in f(1) by (auto simp: dir_wf_def)
        ultimately show "?m x = mem (s\<lparr>freelist := load32 (mem s) v\<rparr>) x"
          using u(2) f by (simp add: with_table_other page_of_aligned_inj)
      qed
      then show ?thesis by simp
    qed
    moreover have "F - (set fl - set fl') = F - {v}" using Cons v by auto
    moreover have "set fl' \<subseteq> F - {v}" using Cons k v by auto
    ultimately have "vm_inv ?s pgdir fl' (F - (set fl - set fl'))"
      using with_table_dir_wf [OF fr] by (simp add: vm_inv_def)
    moreover have "?m x = mem s x" if "page_of x \<notin> page_of ` pt_pages ?m pgdir" for x
      using that f pgdir_in [of pgdir "mem s"] unfolding pp by (intro with_table_other) auto
    ultimately have "map_effect pgdir fl F s fl' ?s"
      using Cons pp by (auto simp: map_effect_def)
    moreover have "walkpgdir pgdir va True s = (Val (slot ?m pgdir va), ?s)"
      using walkpgdir_new [OF False] k Cons d by (simp add: slot_def)
    ultimately show ?thesis using d with_table_lookup [OF fr]
      by (intro disjI2 exI [of _ ?s] exI [of _ fl']) simp
  qed
qed

lemma map_one:
  assumes "vm_inv s pgdir fl F" and "lookup (mem s) pgdir a = None"
  shows "walkpgdir pgdir a True s = (Val 0, s) \<and> fl = [] \<or>
    (\<exists>pte s1 fl'. walkpgdir pgdir a True s = (Val pte, s1) \<and> pte \<noteq> 0 \<and>
       load32 (mem s1) pte AND PTE_P = 0 \<and>
       map_effect pgdir fl F s fl' (s1\<lparr>mem := store32 (mem s1) pte w\<rparr>) \<and>
       (\<forall>va. lookup (store32 (mem s1) pte w) pgdir va =
          (if page_of va = page_of a then (if w AND PTE_P \<noteq> 0 then Some w else None) else lookup (mem s) pgdir va)))"
  using walkpgdir_alloc [OF assms(1), of a]
proof (elim disjE exE conjE)
  fix s' fl'
  assume w: "walkpgdir pgdir a True s = (Val (slot (mem s') pgdir a), s')"
    and pr: "present (mem s') pgdir (PDX a)" and eff: "map_effect pgdir fl F s fl' s'"
    and lk: "lookup (mem s') pgdir = lookup (mem s) pgdir"
  let ?F = "F - (set fl - set fl')" and ?t = "pgtab (mem s') pgdir (PDX a)"
  have inv: "vm_inv s' pgdir fl' ?F" using eff by (simp add: map_effect_def)
  then have wf: "dir_wf (page_ok s') (mem s') pgdir ?F" by (simp add: vm_inv_def)
  let ?s = "s'\<lparr>mem := store32 (mem s') (slot (mem s') pgdir a) w\<rparr>"
  note sp = set_pte [OF wf pr, where w = w]
  have t: "?t \<in> pt_pages (mem s') pgdir" by (rule pgtab_in [OF PDX_less pr])
  have other: "mem ?s x = mem s' x" if "page_of x \<noteq> page_of ?t" for x
    using sp(4) that by simp
  have "kmem_inv ?s fl'"
  proof (rule kmem_inv_mem)
    fix u x assume u: "u \<in> set fl'" "page_of x = page_of u"
    have "u \<noteq> ?t" "page_aligned u"
      using u(1) inv vm_inv_pages(3) [OF inv t] by (auto simp: vm_inv_def kmem_inv_def page_ok_def)
    then have "page_of x \<noteq> page_of ?t" using u(2) page_of_aligned_inj pgtab_aligned by metis
    then show "store32 (mem s') (slot (mem s') pgdir a) w x = mem s' x" using other by simp
  qed (use inv in \<open>simp add: vm_inv_def\<close>)
  then have "vm_inv ?s pgdir fl' ?F" using inv sp(3) by (simp add: vm_inv_def)
  moreover have "\<forall>x. page_of x \<notin> page_of ` pt_pages (mem s') pgdir \<longrightarrow> mem ?s x = mem s x"
    using other eff t unfolding map_effect_def by (metis imageI)
  ultimately have "map_effect pgdir fl F s fl' ?s"
    using eff sp(2) unfolding map_effect_def by simp
  moreover have "load32 (mem s') (slot (mem s') pgdir a) AND PTE_P = 0"
    using assms(2) pr lk by (metis lookup_def option.distinct(1))
  ultimately show ?thesis
    using w slot_nonzero [OF inv pr] sp(1) lk
    by (intro disjI2 exI [of _ "slot (mem s') pgdir a"] exI [of _ s'] exI [of _ fl']) auto
qed simp

lemma mapped_0 [simp]: "mapped a pa perm 0 old = old"
  by (simp add: mapped_def fun_eq_iff)

lemma mapped_Suc:
  assumes "page_aligned a" and "4096 * Suc k \<le> 2 ^ 32"
  shows "mapped (a + PGSIZE) (pa + PGSIZE) perm k
      (\<lambda>va. if page_of va = page_of a then Some (pa OR perm OR PTE_P) else old va) =
    mapped a pa perm (Suc k) old"
proof
  fix va
  have e: "va - (a + PGSIZE) = va - a - PGSIZE" by simp
  show "mapped (a + PGSIZE) (pa + PGSIZE) perm k
      (\<lambda>va. if page_of va = page_of a then Some (pa OR perm OR PTE_P) else old va) va =
    mapped a pa perm (Suc k) old va"
  proof (cases "unat (va - a) < 4096")
    case True
    have "unat (va - a - PGSIZE) = 2 ^ 32 + unat (va - a) - 4096"
      using True by (simp add: unat_sub32 [of "va - a"] PGSIZE_def)
    then have "\<not> unat (va - a - PGSIZE) < 4096 * k" using assms(2) by simp
    moreover have "page_of va = page_of a" using in_page [OF assms(1)] True by blast
    ultimately show ?thesis
      using True by (simp add: mapped_def e PGROUNDDOWN_small)
  next
    case False
    have "unat (va - a - PGSIZE) = unat (va - a) - 4096"
      using False by (simp add: unat_sub32 [of "va - a"] PGSIZE_def)
    moreover have "page_of va \<noteq> page_of a" using in_page [OF assms(1)] False by blast
    ultimately show ?thesis
      using False PGROUNDDOWN_diff [of "va - a"] by (auto simp: mapped_def e)
  qed
qed

lemma mappages_loop_ok:
  fixes s :: "'x kmemst_scheme"
  assumes "vm_inv s pgdir fl F" and "page_aligned a" and "unat lst = unat a + 4096 * n" and "n < fuel"
    and "\<And>va. unat (va - a) < 4096 * Suc n \<Longrightarrow> lookup (mem s) pgdir va = None"
  shows "\<exists>r s' fl' k. mappages_loop fuel pgdir a lst pa perm s = (Val r, s') \<and>
     map_effect pgdir fl F s fl' s' \<and> (r = 0 \<and> k = Suc n \<or> r = -1 \<and> k \<le> n \<and> fl' = []) \<and>
     lookup (mem s') pgdir = mapped a pa perm k (lookup (mem s) pgdir)"
  using assms
proof (induction fuel arbitrary: s fl F a pa n)
  case 0
  then show ?case by simp
next
  case (Suc fuel)
  let ?w = "pa OR perm OR PTE_P"
  have P: "?w AND PTE_P \<noteq> 0" using OR_PTE_P [of "pa OR perm"] by (simp add: or.assoc)
  have none: "lookup (mem s) pgdir a = None" using Suc.prems(5) [of a] by simp
  from map_one [OF Suc.prems(1) none, of ?w] show ?case
  proof (elim disjE exE conjE)
    assume "walkpgdir pgdir a True s = (Val 0, s)" "fl = []"
    then show ?thesis
      using map_effect_refl [OF Suc.prems(1)]
      by (intro exI [of _ "-1"] exI [of _ s] exI [of _ "[]"] exI [of _ 0])
        (simp add: kbind_def kret_def)
  next
    fix pte fl1 and s1 :: "'x kmemst_scheme"
    let ?s = "s1\<lparr>mem := store32 (mem s1) pte ?w\<rparr>"
    assume w: "walkpgdir pgdir a True s = (Val pte, s1)" "pte \<noteq> 0" "load32 (mem s1) pte AND PTE_P = 0"
      and eff: "map_effect pgdir fl F s fl1 ?s"
      and "\<forall>va. lookup (store32 (mem s1) pte ?w) pgdir va =
        (if page_of va = page_of a then (if ?w AND PTE_P \<noteq> 0 then Some ?w else None) else lookup (mem s) pgdir va)"
    then have lk: "lookup (mem ?s) pgdir =
        (\<lambda>va. if page_of va = page_of a then Some ?w else lookup (mem s) pgdir va)"
      using P by auto
    have step: "mappages_loop (Suc fuel) pgdir a lst pa perm s =
        (if a = lst then (Val 0, ?s) else mappages_loop fuel pgdir (a + PGSIZE) lst (pa + PGSIZE) perm ?s)"
      using w by (simp add: kbind_def kget_def kmod_def kret_def)
    show ?thesis
    proof (cases n)
      case 0
      then have "a = lst" using Suc.prems(3) by (simp add: word_unat_eq_iff)
      moreover have "mapped a pa perm (Suc 0) (lookup (mem s) pgdir) = lookup (mem ?s) pgdir"
        using mapped_Suc [OF Suc.prems(2), of 0] unfolding lk by simp
      ultimately show ?thesis
        using step eff 0 by (intro exI [of _ 0] exI [of _ ?s] exI [of _ fl1] exI [of _ "Suc 0"]) simp
    next
      case (Suc n')
      have lst: "unat a + 4096 * Suc n' < 2 ^ 32" using Suc.prems(3) unat32_less [of lst] Suc by simp
      have "\<exists>r s' fl' k. mappages_loop fuel pgdir (a + PGSIZE) lst (pa + PGSIZE) perm ?s = (Val r, s') \<and>
         map_effect pgdir fl1 (F - (set fl - set fl1)) ?s fl' s' \<and>
         (r = 0 \<and> k = Suc n' \<or> r = -1 \<and> k \<le> n' \<and> fl' = []) \<and>
         lookup (mem s') pgdir = mapped (a + PGSIZE) (pa + PGSIZE) perm k (lookup (mem ?s) pgdir)"
      proof (rule Suc.IH)
        show "vm_inv ?s pgdir fl1 (F - (set fl - set fl1))" using eff by (simp add: map_effect_def)
        show "page_aligned (a + PGSIZE)" using Suc.prems(2) by (rule page_aligned_add)
        show "unat lst = unat (a + PGSIZE) + 4096 * n'"
          using Suc.prems(3) Suc lst by (simp add: unat_next_page)
        show "n' < fuel" using Suc Suc.prems(4) by simp
        fix va assume va: "unat (va - (a + PGSIZE)) < 4096 * Suc n'"
        have e: "va - (a + PGSIZE) = va - a - PGSIZE" by simp
        have "n' < 1048575" using lst by simp
        then have far: "4096 \<le> unat (va - a)"
          using va unfolding e by (auto simp: unat_sub32 [of "va - a"] PGSIZE_def split: if_splits)
        then have "unat (va - a) < 4096 * Suc n"
          using va Suc unfolding e by (auto simp: unat_sub32 [of "va - a"] PGSIZE_def)
        moreover have "page_of va \<noteq> page_of a" using in_page [OF Suc.prems(2), of va] far by auto
        ultimately show "lookup (mem ?s) pgdir va = None" using Suc.prems(5) unfolding lk by simp
      qed
      then obtain r s' fl' k where l: "mappages_loop fuel pgdir (a + PGSIZE) lst (pa + PGSIZE) perm ?s = (Val r, s')"
        and e: "map_effect pgdir fl1 (F - (set fl - set fl1)) ?s fl' s'"
        and r: "r = 0 \<and> k = Suc n' \<or> r = -1 \<and> k \<le> n' \<and> fl' = []"
        and m: "lookup (mem s') pgdir = mapped (a + PGSIZE) (pa + PGSIZE) perm k (lookup (mem ?s) pgdir)"
        by blast
      have "a \<noteq> lst" using Suc.prems(3) Suc by auto
      moreover have "lookup (mem s') pgdir = mapped a pa perm (Suc k) (lookup (mem s) pgdir)"
        using m r lst mapped_Suc [OF Suc.prems(2)] unfolding lk by auto
      ultimately show ?thesis
        using step l map_effect_trans [OF eff e] r Suc
        by (intro exI [of _ r] exI [of _ s'] exI [of _ fl'] exI [of _ "Suc k"]) auto
    qed
  qed
qed

lemma page_span:
  assumes "page_aligned a" and "page_aligned l" and "unat a \<le> unat l"
  obtains n where "unat l = unat a + 4096 * n" and "n < 2 ^ 20"
    and "\<And>x. unat (x - a) < 4096 * Suc n \<longleftrightarrow> a \<le> x \<and> unat x < unat l + 4096"
proof -
  obtain j k where jk: "unat a = 4096 * j" "unat l = 4096 * k"
    using assms(1,2) unfolding page_aligned_unat by (metis dvd_eq_mod_eq_0 dvd_def)
  have n: "unat l = unat a + 4096 * (k - j)" using jk assms(3) by simp
  moreover have "k - j < 2 ^ 20" using jk unat32_less [of l] by simp
  moreover have "unat (x - a) < 4096 * Suc (k - j) \<longleftrightarrow> a \<le> x \<and> unat x < unat l + 4096" for x
    using n page_fits [OF assms(2)] unat32_less [of x] by (auto simp: unat_sub32 word_le_nat_alt)
  ultimately show thesis by (rule that)
qed

text \<open>
  C18: \<open>mappages\<close> on an unmapped range either maps exactly the pages that cover it, to consecutive
  physical pages with the permissions asked for, and changes no other translation; or it returns
  \<open>-1\<close>, and then the free list has run out.  In both cases it writes only to the page tables
  of this directory, and the tables and the free list stay well formed and apart.
\<close>

theorem mappages_correct:
  assumes "vm_inv s pgdir fl F" and "sz \<noteq> 0" and "unat va + unat sz \<le> 2 ^ 32"
    and "\<And>x. PGROUNDDOWN va \<le> x \<Longrightarrow> unat x < unat (PGROUNDDOWN (va + sz - 1)) + 4096 \<Longrightarrow>
      lookup (mem s) pgdir x = None"
  shows "\<exists>r s' fl'. mappages pgdir va sz pa perm s = (Val r, s') \<and> map_effect pgdir fl F s fl' s' \<and>
     (r = 0 \<and> (\<forall>x. lookup (mem s') pgdir x =
        (if PGROUNDDOWN va \<le> x \<and> unat x < unat (PGROUNDDOWN (va + sz - 1)) + 4096
         then Some ((pa + PGROUNDDOWN (x - PGROUNDDOWN va)) OR perm OR PTE_P)
         else lookup (mem s) pgdir x))
      \<or> r = -1 \<and> fl' = [])"
proof -
  let ?a = "PGROUNDDOWN va" and ?l = "PGROUNDDOWN (va + sz - 1)"
  have "unat sz \<noteq> 0" using assms(2) by (simp add: unat_eq_zero)
  then have l: "unat (va + (sz - 1)) = unat va + (unat sz - 1)"
    using unat_add_nowrap [of va "unat (sz - 1)"] assms(2,3) by (simp add: unat_minus_1)
  have "unat va div 4096 \<le> unat (va + (sz - 1)) div 4096" unfolding l by (intro div_le_mono) simp
  then have "unat ?a \<le> unat ?l"
    unfolding unat_PGROUNDDOWN minus_mod_eq_mult_div by (simp add: add_diff_eq)
  then obtain n where n: "unat ?l = unat ?a + 4096 * n" "n < 2 ^ 20"
    "\<And>x. unat (x - ?a) < 4096 * Suc n \<longleftrightarrow> ?a \<le> x \<and> unat x < unat ?l + 4096"
    using page_span [OF PGROUNDDOWN_aligned PGROUNDDOWN_aligned, of va "va + sz - 1"] by metis
  obtain r s' fl' k where
    "mappages_loop (2 ^ 20 + 1) pgdir ?a ?l pa perm s = (Val r, s')" "map_effect pgdir fl F s fl' s'"
    and r: "r = 0 \<and> k = Suc n \<or> r = -1 \<and> k \<le> n \<and> fl' = []"
    and lk: "lookup (mem s') pgdir = mapped ?a pa perm k (lookup (mem s) pgdir)"
    using mappages_loop_ok [OF assms(1) PGROUNDDOWN_aligned n(1), of "2 ^ 20 + 1" pa perm]
      n(2,3) assms(4) by auto
  moreover have "lookup (mem s') pgdir x = (if ?a \<le> x \<and> unat x < unat ?l + 4096
      then Some ((pa + PGROUNDDOWN (x - ?a)) OR perm OR PTE_P) else lookup (mem s) pgdir x)"
    if "k = Suc n" for x
    unfolding lk mapped_def that n(3) by (rule refl)
  ultimately show ?thesis unfolding mappages_def by blast
qed

definition vm_ex :: kmemst where
  "vm_ex = kmem_ex 0x80400000"

lemma vm_ex_dir: "i < 1024 \<Longrightarrow> load32 (mem vm_ex) (0x80402000 + 4 * i) = 0"
proof -
  assume i: "i < 1024"
  have al: "page_aligned 0x80402000" "page_aligned 0x80400000"
    by (simp_all add: page_aligned_def PGSIZE_def)
  have "load32 (mem vm_ex) (0x80402000 + 4 * i) = load32 (\<lambda>_. 0) (0x80402000 + 4 * i)"
    using al i by (intro load32_other_page)
      (simp_all add: slot_word slot_page vm_ex_def kmem_ex_def store32_other_page page_word_aligned
        page_of_aligned_inj)
  then show ?thesis by (simp add: load32_def)
qed

lemma vm_ex_inv:
  "vm_inv vm_ex 0x80402000 [0x80400000, 0x80401000] {0x80400000, 0x80401000}"
  "lookup (mem vm_ex) 0x80402000 x = None"
proof -
  have pr: "\<not> present (mem vm_ex) 0x80402000 i" if "i < 1024" for i
    using vm_ex_dir [OF that] by (simp add: present_def)
  then have no: "{i. i < 1024 \<and> present (mem vm_ex) 0x80402000 i} = {}" by blast
  then have "pt_pages (mem vm_ex) 0x80402000 = {0x80402000}"
    unfolding pt_pages_def no by simp
  then have "dir_wf (page_ok vm_ex) (mem vm_ex) 0x80402000 {0x80400000, 0x80401000}"
    using pr unfolding dir_wf_def no
    by (auto simp: vm_ex_def kmem_ex_def page_ok_def page_aligned_def mmu_defs)
  then show "vm_inv vm_ex 0x80402000 [0x80400000, 0x80401000] {0x80400000, 0x80401000}"
    using kmem_ex_inv(1) by (simp add: vm_inv_def vm_ex_def)
  show "lookup (mem vm_ex) 0x80402000 x = None" using pr [OF PDX_less] by (simp add: lookup_def)
qed

theorem mappages_correct_witness:
  "\<exists>r s' fl'. mappages 0x80402000 0x1000 0x2000 0x5000 7 vm_ex = (Val r, s') \<and>
     map_effect 0x80402000 [0x80400000, 0x80401000] {0x80400000, 0x80401000} vm_ex fl' s' \<and>
     (r = 0 \<and> (\<forall>x. lookup (mem s') 0x80402000 x =
        (if PGROUNDDOWN 0x1000 \<le> x \<and> unat x < unat (PGROUNDDOWN (0x1000 + 0x2000 - 1)) + 4096
         then Some ((0x5000 + PGROUNDDOWN (x - PGROUNDDOWN 0x1000)) OR 7 OR PTE_P)
         else lookup (mem vm_ex) 0x80402000 x))
      \<or> r = -1 \<and> fl' = [])"
  using mappages_correct [OF vm_ex_inv(1), of "0x2000" "0x1000" "0x5000" 7] vm_ex_inv(2) by simp

section \<open>User memory\<close>

text \<open>
  What an access to a user address does: the hardware translates it with the current page
  directory and reads or writes the frame.  \<open>None\<close> is a page fault.
\<close>

definition uaddr :: "memory \<Rightarrow> u32 \<Rightarrow> u32 \<Rightarrow> u32 option" where
  "uaddr m pgdir va = map_option (\<lambda>e. frame e + (va - PGROUNDDOWN va)) (lookup m pgdir va)"

definition uload :: "u32 \<Rightarrow> memory \<Rightarrow> u32 \<Rightarrow> u8 option" where
  "uload pgdir m va = map_option m (uaddr m pgdir va)"

definition ustore :: "u32 \<Rightarrow> memory \<Rightarrow> u32 \<Rightarrow> u8 \<Rightarrow> memory option" where
  "ustore pgdir m va b = map_option (\<lambda>a. m(a := b)) (uaddr m pgdir va)"

text \<open>Sequences of bytes, for any way to read and write one byte.\<close>

fun put_bytes :: "('m \<Rightarrow> u32 \<Rightarrow> u8 \<Rightarrow> 'm option) \<Rightarrow> 'm \<Rightarrow> u32 \<Rightarrow> u8 list \<Rightarrow> 'm option" where
  "put_bytes wr m va [] = Some m"
| "put_bytes wr m va (b # bs) = Option.bind (wr m va b) (\<lambda>m'. put_bytes wr m' (va + 1) bs)"

fun get_bytes :: "('m \<Rightarrow> u32 \<Rightarrow> u8 option) \<Rightarrow> 'm \<Rightarrow> u32 \<Rightarrow> nat \<Rightarrow> u8 list option" where
  "get_bytes rd m va 0 = Some []"
| "get_bytes rd m va (Suc n) =
     Option.bind (rd m va) (\<lambda>b. map_option ((#) b) (get_bytes rd m (va + 1) n))"

lemma get_bytes_cong:
  assumes "\<And>i. i < n \<Longrightarrow> rd m' (va + of_nat i) = rd m (va + of_nat i)"
  shows "get_bytes rd m' va n = get_bytes rd m va n"
  using assms
proof (induction n arbitrary: va)
  case (Suc n)
  have "rd m' (va + 1 + of_nat i) = rd m (va + 1 + of_nat i)" if "i < n" for i
    using Suc.prems [of "Suc i"] that by (simp add: add.assoc)
  then show ?case using Suc.IH [of "va + 1"] Suc.prems [of 0] by simp
qed simp

lemma get_bytes_append:
  "get_bytes rd m va (n + k) =
     Option.bind (get_bytes rd m va n) (\<lambda>a. map_option (\<lambda>b. a @ b) (get_bytes rd m (va + of_nat n) k))"
proof (induction n arbitrary: va)
  case 0
  then show ?case by (cases "get_bytes rd m va k") auto
next
  case (Suc n)
  show ?case
    using Suc [of "va + 1"] by (cases "get_bytes rd m (va + (1 + of_nat n)) k")
      (auto simp: add.assoc split: bind_splits)
qed

lemma get_bytes_length: "get_bytes rd m va n = Some bs \<Longrightarrow> length bs = n"
  by (induction n arbitrary: va bs) (auto simp: bind_eq_Some_conv)

lemma get_bytes_sub:
  assumes "get_bytes rd m va (i + n + k) = Some bs"
  shows "get_bytes rd m (va + of_nat i) n = Some (take n (drop i bs))"
proof -
  obtain a b c where g: "get_bytes rd m va i = Some a" "get_bytes rd m (va + of_nat i) n = Some b" "bs = a @ b @ c"
    using assms by (auto simp: add.assoc get_bytes_append bind_eq_Some_conv split: bind_splits)
  then show ?thesis using get_bytes_length [OF g(1)] get_bytes_length [OF g(2)] by simp
qed

locale user_memory =
  fixes inv :: "'m \<Rightarrow> bool"
    and rd :: "'m \<Rightarrow> u32 \<Rightarrow> u8 option"
    and wr :: "'m \<Rightarrow> u32 \<Rightarrow> u8 \<Rightarrow> 'm option"
  assumes wr_mapped: "inv m \<Longrightarrow> va < KERNBASE \<Longrightarrow> wr m va b = None \<longleftrightarrow> rd m va = None"
    and wr_inv: "inv m \<Longrightarrow> va < KERNBASE \<Longrightarrow> wr m va b = Some m' \<Longrightarrow> inv m'"
    and rd_wr: "inv m \<Longrightarrow> va < KERNBASE \<Longrightarrow> va' < KERNBASE \<Longrightarrow> wr m va b = Some m' \<Longrightarrow>
      rd m' va' = (if va' = va then Some b else rd m va')"
begin

lemma user_range_step:
  "unat va + length (b # bs) \<le> unat KERNBASE \<Longrightarrow>
   va < KERNBASE \<and> unat (va + 1) = unat va + 1 \<and> unat (va + 1) + length bs \<le> unat KERNBASE"
  using unat_add_nowrap [of va 1] by (simp add: word_less_nat_alt KERNBASE_def)

lemma put_frame:
  assumes "inv m" and "unat va + length bs \<le> unat KERNBASE" and "put_bytes wr m va bs = Some m'"
  shows "inv m' \<and> (\<forall>x < KERNBASE. (x < va \<or> unat va + length bs \<le> unat x) \<longrightarrow> rd m' x = rd m x)"
  using assms
proof (induction bs arbitrary: m va)
  case (Cons b bs)
  then obtain m1 where m1: "wr m va b = Some m1" "put_bytes wr m1 (va + 1) bs = Some m'"
    by (auto simp: bind_eq_Some_conv)
  note r = user_range_step [OF Cons.prems(2)]
  have i1: "inv m1" using wr_inv Cons.prems(1) r m1(1) by blast
  have "rd m1 x = rd m x" if "x < KERNBASE" "unat x \<noteq> unat va" for x
    using rd_wr [OF Cons.prems(1) _ that(1) m1(1)] r that(2) by auto
  moreover note Cons.IH [OF i1 _ m1(2)]
  ultimately show ?case
    using r by (auto simp: word_less_nat_alt)
qed simp

lemma put_get:
  assumes "inv m" and "unat va + length bs \<le> unat KERNBASE" and "put_bytes wr m va bs = Some m'"
  shows "get_bytes rd m' va (length bs) = Some bs"
  using assms
proof (induction bs arbitrary: m va)
  case (Cons b bs)
  then obtain m1 where m1: "wr m va b = Some m1" "put_bytes wr m1 (va + 1) bs = Some m'"
    by (auto simp: bind_eq_Some_conv)
  note r = user_range_step [OF Cons.prems(2)]
  have i1: "inv m1" using wr_inv Cons.prems(1) r m1(1) by blast
  have "rd m1 va = Some b" using rd_wr [OF Cons.prems(1) _ _ m1(1)] r by simp
  moreover have "rd m' va = rd m1 va"
    using put_frame [OF i1 _ m1(2)] r by (simp add: word_less_nat_alt)
  ultimately show ?case using Cons.IH [OF i1 _ m1(2)] r by simp
qed simp

text \<open>Bytes put in front of bytes that are already there.\<close>

lemma put_get_append:
  assumes "inv m" and "put_bytes wr m va bs = Some m'" and "get_bytes rd m (va + of_nat (length bs)) k = Some cs"
    and "unat va + length bs + k \<le> unat KERNBASE"
  shows "get_bytes rd m' va (length bs + k) = Some (bs @ cs)"
proof -
  have va: "unat va + length bs \<le> unat KERNBASE" using assms(4) by simp
  have "rd m' (va + of_nat (length bs) + of_nat i) = rd m (va + of_nat (length bs) + of_nat i)" if "i < k" for i
  proof -
    have "unat (va + of_nat (length bs + i)) = unat va + (length bs + i)"
      using that assms(4) by (intro unat_add_nowrap) (simp add: KERNBASE_def)
    then show ?thesis
      using put_frame [OF assms(1) va assms(2)] that assms(4)
      by (simp add: word_less_nat_alt add.assoc)
  qed
  then have "get_bytes rd m' (va + of_nat (length bs)) k = Some cs" using get_bytes_cong assms(3) by metis
  then show ?thesis using put_get [OF assms(1) va assms(2)] by (simp add: get_bytes_append)
qed

lemma put_defined:
  assumes "inv m" and "unat va + length bs \<le> unat KERNBASE"
    and "\<And>i. i < length bs \<Longrightarrow> rd m (va + of_nat i) \<noteq> None"
  shows "\<exists>m'. put_bytes wr m va bs = Some m'"
  using assms
proof (induction bs arbitrary: m va)
  case (Cons b bs)
  note r = user_range_step [OF Cons.prems(2)]
  obtain m1 where m1: "wr m va b = Some m1"
    using wr_mapped [OF Cons.prems(1)] r Cons.prems(3) [of 0] by fastforce
  have i1: "inv m1" using wr_inv Cons.prems(1) r m1 by blast
  have "rd m1 (va + 1 + of_nat i) \<noteq> None" if "i < length bs" for i
  proof -
    have "unat (va + of_nat (Suc i)) = unat va + Suc i"
      using r that Cons.prems(2) by (intro unat_add_nowrap) (simp add: KERNBASE_def)
    then have "va + of_nat (Suc i) < KERNBASE" "va + of_nat (Suc i) \<noteq> va"
      using that Cons.prems(2) by (auto simp: word_less_nat_alt)
    then have "rd m1 (va + of_nat (Suc i)) = rd m (va + of_nat (Suc i))"
      using rd_wr [OF Cons.prems(1) _ _ m1] r by simp
    then show ?thesis using Cons.prems(3) [of "Suc i"] that by (simp add: add.assoc)
  qed
  with Cons.IH [OF i1] r m1 show ?case by auto
qed simp

lemma put_mapped:
  assumes "inv m" and "unat va + length bs \<le> unat KERNBASE" and "put_bytes wr m va bs = Some m'"
    and "x < KERNBASE" and "rd m x \<noteq> None"
  shows "rd m' x \<noteq> None"
  using assms
proof (induction bs arbitrary: m va)
  case (Cons b bs)
  then obtain m1 where m1: "wr m va b = Some m1" "put_bytes wr m1 (va + 1) bs = Some m'"
    by (auto simp: bind_eq_Some_conv)
  note r = user_range_step [OF Cons.prems(2)]
  have i1: "inv m1" using wr_inv Cons.prems(1) r m1(1) by blast
  have "rd m1 x \<noteq> None" using rd_wr [OF Cons.prems(1) _ Cons.prems(4) m1(1)] r Cons.prems(5) by simp
  then show ?case using Cons.IH [OF i1 _ m1(2) Cons.prems(4)] r by simp
qed simp

text \<open>Pushing \<open>bs\<close> on a stack that grows downwards and holds \<open>cs\<close>.\<close>

lemma push:
  assumes "inv m" and "length bs \<le> unat sp" and "unat sp + k \<le> unat KERNBASE"
    and "get_bytes rd m sp k = Some cs"
    and "\<And>x. unat sp - length bs \<le> unat x \<Longrightarrow> unat x < unat sp \<Longrightarrow> rd m x \<noteq> None"
  shows "\<exists>m'. put_bytes wr m (sp - of_nat (length bs)) bs = Some m' \<and> inv m' \<and>
     get_bytes rd m' (sp - of_nat (length bs)) (length bs + k) = Some (bs @ cs) \<and>
     (\<forall>x < KERNBASE. rd m x \<noteq> None \<longrightarrow> rd m' x \<noteq> None)"
proof -
  let ?a = "sp - of_nat (length bs)"
  have "unat (of_nat (length bs) :: u32) = length bs"
    using assms(2) unat32_less [of sp] by (simp add: unat_of_nat)
  then have a: "unat ?a = unat sp - length bs" using assms(2) by (simp add: unat_sub32)
  then have lim: "unat ?a + length bs \<le> unat KERNBASE" using assms(2,3) by simp
  have "rd m (?a + of_nat i) \<noteq> None" if "i < length bs" for i
  proof (rule assms(5))
    have "unat (?a + of_nat i) = unat ?a + i"
      using that lim by (intro unat_add_nowrap) (simp add: KERNBASE_def)
    then show "unat sp - length bs \<le> unat (?a + of_nat i)" "unat (?a + of_nat i) < unat sp"
      using a that assms(2) by simp_all
  qed
  then obtain m' where m': "put_bytes wr m ?a bs = Some m'" using put_defined [OF assms(1) lim] by blast
  have "get_bytes rd m' ?a (length bs + k) = Some (bs @ cs)"
    using assms(2-4) a by (intro put_get_append [OF assms(1) m']) simp_all
  then show ?thesis using m' put_frame [OF assms(1) lim m'] put_mapped [OF assms(1) lim m'] by blast
qed

end

definition aspace_wf :: "(u32 \<Rightarrow> bool) \<Rightarrow> u32 \<Rightarrow> u32 set \<Rightarrow> memory \<Rightarrow> bool" where
  "aspace_wf ok pgdir F m = (dir_wf ok m pgdir F \<and> user_wf ok m pgdir F)"

lemma page_offset: "va - PGROUNDDOWN va = va mod 4096"
  by (simp add: PGROUNDDOWN_eq)

lemma uaddr_page:
  assumes "page_aligned f" shows "page_of (f + (va - PGROUNDDOWN va)) = page_of f"
proof -
  have "unat (va mod 4096) < 4096" by (simp add: unat_mod)
  then show ?thesis using in_page [OF assms, of "f + va mod 4096"] by (simp add: page_offset)
qed

lemma ustore_lookup:
  assumes "aspace_wf ok pgdir F m" and "va < KERNBASE" and "ustore pgdir m va b = Some m'"
  shows "lookup m' pgdir = lookup m pgdir" and "aspace_wf ok pgdir F m'"
proof -
  obtain e where e: "lookup m pgdir va = Some e" and m': "m' = m(frame e + (va - PGROUNDDOWN va) := b)"
    using assms(3) by (auto simp: ustore_def uaddr_def)
  have al: "page_aligned pgdir" and wf: "dir_wf ok m pgdir F" "user_wf ok m pgdir F"
    using assms(1) by (auto simp: aspace_wf_def dir_wf_def)
  have "frame e \<in> user_frames m pgdir" using e assms(2) by (auto simp: user_frames_def)
  then have fr: "frame e \<notin> pt_pages m pgdir" using wf by (auto simp: user_wf_def)
  have same: "m' x = m x" if "p \<in> pt_pages m pgdir" "page_of x = page_of p" for p x
  proof -
    have "page_of p \<noteq> page_of (frame e)"
      using fr that(1) page_of_aligned_inj pt_pages_aligned [OF al that(1)] frame_aligned by metis
    then show ?thesis using that(2) uaddr_page [OF frame_aligned] by (auto simp: m')
  qed
  show lk: "lookup m' pgdir = lookup m pgdir" using tables_cong(2) [OF al same] .
  have "pt_pages m' pgdir = pt_pages m pgdir" using tables_cong(1) [OF al same] .
  moreover have "user_frames m' pgdir = user_frames m pgdir" "user_inj m' pgdir = user_inj m pgdir"
    by (simp_all only: user_frames_def user_inj_def lk)
  ultimately have "user_wf ok m' pgdir F"
    using wf(2) by (simp add: user_wf_def)
  then show "aspace_wf ok pgdir F m'" using dir_wf_cong [OF wf(1) same] by (simp add: aspace_wf_def)
qed

lemma offset_inj:
  assumes "page_of va = page_of va'" and "va - PGROUNDDOWN va = va' - PGROUNDDOWN va'"
  shows "va = va'"
proof -
  have "page_of (PGROUNDDOWN va) = page_of (PGROUNDDOWN va')" using assms(1) by simp
  then have "PGROUNDDOWN va = PGROUNDDOWN va'" by (simp only: page_of_aligned_inj PGROUNDDOWN_aligned)
  then show ?thesis using assms(2) by simp
qed

interpretation um: user_memory "aspace_wf ok pgdir F" "uload pgdir" "ustore pgdir" for ok pgdir F
proof
  fix m m' va va' b
  assume inv: "aspace_wf ok pgdir F m" and va: "va < KERNBASE"
  show "ustore pgdir m va b = None \<longleftrightarrow> uload pgdir m va = None" by (simp add: ustore_def uload_def)
  show "ustore pgdir m va b = Some m' \<Longrightarrow> aspace_wf ok pgdir F m'"
    using ustore_lookup(2) [OF inv va] .
  assume va': "va' < KERNBASE" and st: "ustore pgdir m va b = Some m'"
  obtain e where e: "lookup m pgdir va = Some e" and m': "m' = m(frame e + (va - PGROUNDDOWN va) := b)"
    using st by (auto simp: ustore_def uaddr_def)
  have lk: "lookup m' pgdir = lookup m pgdir" by (rule ustore_lookup(1) [OF inv va st])
  have ne: "frame e' + (va' - PGROUNDDOWN va') \<noteq> frame e + (va - PGROUNDDOWN va)"
    if e': "lookup m pgdir va' = Some e'" and "va' \<noteq> va" for e'
  proof
    assume eq: "frame e' + (va' - PGROUNDDOWN va') = frame e + (va - PGROUNDDOWN va)"
    then have "page_of (frame e') = page_of (frame e)" using uaddr_page frame_aligned by metis
    then have f: "frame e' = frame e" by (simp only: page_of_aligned_inj frame_aligned)
    moreover have "user_inj m pgdir" using inv by (simp add: aspace_wf_def user_wf_def)
    ultimately have "page_of va' = page_of va"
      using va va' e e' unfolding user_inj_def by blast
    then show False using eq f offset_inj that(2) by (metis add_left_cancel)
  qed
  show "uload pgdir m' va' = (if va' = va then Some b else uload pgdir m va')"
    using ne e unfolding uload_def uaddr_def lk by (cases "lookup m pgdir va'") (auto simp: m')
qed

text \<open>
  In a well-formed address space, bytes stored through user addresses are read back
  unchanged, no other user address changes, and the space stays well formed.
\<close>

lemma user_memory_roundtrip:
  assumes "aspace_wf ok pgdir F m" and "unat va + length bs \<le> unat KERNBASE"
    and "put_bytes (ustore pgdir) m va bs = Some m'"
  shows "get_bytes (uload pgdir) m' va (length bs) = Some bs \<and> aspace_wf ok pgdir F m' \<and>
     (\<forall>x < KERNBASE. x < va \<or> unat va + length bs \<le> unat x \<longrightarrow> uload pgdir m' x = uload pgdir m x)"
  using um.put_get [OF assms] um.put_frame [OF assms] by blast

text \<open>An address space whose only user page is at 0x1000.\<close>

definition um_ex :: memory where
  "um_ex = (let m1 = with_table (\<lambda>_. 0) 0x80402000 0 0x80400000
            in store32 m1 (slot m1 0x80402000 0x1000) 0x401007)"

lemma um_ex_wf: "aspace_wf (\<lambda>_. True) 0x80402000 {} um_ex"
  and um_ex_lookup: "lookup um_ex 0x80402000 va = (if page_of va = page_of 0x1000 then Some 0x401007 else None)"
proof -
  let ?d = "0x80402000 :: u32" and ?t = "0x80400000 :: u32" and ?m0 = "(\<lambda>_. 0) :: memory"
  let ?m1 = "with_table ?m0 ?d 0 ?t"
  have al: "page_aligned ?d" "page_aligned ?t" by (simp_all add: page_aligned_def PGSIZE_def)
  have pr: "\<not> present ?m0 ?d i" for i by (simp add: present_def load32_def)
  have wf0: "dir_wf (\<lambda>_. True) ?m0 ?d {?t}"
    using al pr by (auto simp: dir_wf_def pt_pages_def)
  then have fr: "fresh_table (\<lambda>_. True) ?m0 ?d {?t} 0 ?t" using al pr by (simp add: fresh_table_def)
  have wf1: "dir_wf (\<lambda>_. True) ?m1 ?d {}" using with_table_dir_wf [OF fr] by simp
  have x: "PDX 0x1000 = 0" by (simp add: PDX_def)
  have p1: "present ?m1 ?d (PDX 0x1000)"
    using with_table_dir(1) [OF al _ _ PDX_less, of 0 ?m0 "0x1000"] by (simp add: x)
  note sp = set_pte [OF wf1 p1, where w = "0x401007"]
  have lk: "lookup um_ex ?d va = (if page_of va = page_of 0x1000 then Some 0x401007 else None)" for va
    using sp(1) [of va] with_table_lookup [OF fr] pr [of "PDX va"]
    by (simp add: um_ex_def Let_def lookup_def [of ?m0] PTE_P_def)
  then show "lookup um_ex ?d va = (if page_of va = page_of 0x1000 then Some 0x401007 else None)" .
  have fe: "frame 0x401007 = 0x80401000" by (simp add: frame_def PTE_ADDR_def mmu_defs)
  have "pt_pages um_ex ?d = {?d, ?t}"
    using sp(2) with_table_pages [OF al _ _ pr, of 0]
    by (auto simp: um_ex_def Let_def pt_pages_def [of ?m0] pr)
  moreover have "user_frames um_ex ?d \<subseteq> {0x80401000}" using fe by (auto simp: user_frames_def lk split: if_splits)
  moreover have "user_inj um_ex ?d" by (auto simp: user_inj_def lk split: if_splits)
  ultimately have "user_wf (\<lambda>_. True) um_ex ?d {}" by (auto simp: user_wf_def)
  moreover have "dir_wf (\<lambda>_. True) um_ex ?d {}" using sp(3) by (simp add: um_ex_def Let_def)
  ultimately show "aspace_wf (\<lambda>_. True) ?d {} um_ex" by (simp add: aspace_wf_def)
qed

lemma um_ex_mapped: "0x1000 \<le> va \<Longrightarrow> va < 0x2000 \<Longrightarrow> uload 0x80402000 um_ex va \<noteq> None"
proof -
  assume "0x1000 \<le> va" "va < 0x2000"
  then have "unat va div 4096 = 1"
    by (intro div_nat_eqI) (simp_all add: word_le_nat_alt word_less_nat_alt)
  then have "page_of va = page_of 0x1000" by (simp add: page_of_eq)
  then show ?thesis by (simp add: uload_def uaddr_def um_ex_lookup)
qed

section \<open>Kernel accesses to user addresses\<close>

text \<open>
  \<open>memmove\<close> to or from a user pointer, through the page table the register \<open>cr3\<close> holds.  An
  unmapped address is a page fault in the kernel.
\<close>

definition user_put :: "u32 \<Rightarrow> u8 list \<Rightarrow> ('x vmst_scheme, unit) K" where
  "user_put va bs s =
     (case put_bytes (ustore (P2V (cr3 s))) (mem s) va bs of
        Some m \<Rightarrow> (Val (), s\<lparr>mem := m\<rparr>)
      | None \<Rightarrow> (Fault (Kfault va), s))"

definition user_get :: "u32 \<Rightarrow> nat \<Rightarrow> ('x vmst_scheme, u8 list) K" where
  "user_get va n s =
     (case get_bytes (uload (P2V (cr3 s))) (mem s) va n of
        Some bs \<Rightarrow> (Val bs, s)
      | None \<Rightarrow> (Fault (Kfault va), s))"

end
