(* ===== verification/Xv6_Proc.thy ===== *)
theory Xv6_Proc
  imports Xv6_Vm
begin

text \<open>
  Processes and scheduling (\<open>proc.h\<close>, \<open>proc.c\<close>): the process table, \<open>allocproc\<close>, \<open>growproc\<close>,
  \<open>wait\<close>, the scheduler, \<open>sched\<close>, \<open>yield\<close>, \<open>sleep\<close>, \<open>wakeup\<close> and \<open>kill\<close>.  A process is named by
  its index in \<open>ptable.proc\<close>.  Both sides of the unresolved merge in \<open>struct proc\<close> are kept as
  fields.

  \<open>swtch\<close> is where one thread of control stops and another continues.  A function that ends up in
  \<open>sched\<close> therefore stops with the fault \<open>Sleeps\<close>, \<open>Yields\<close> or \<open>Exits\<close>, and what it does after
  it is scheduled again is a definition of its own, named \<open>..._resume\<close>.
\<close>

section \<open>State\<close>

datatype procstate = UNUSED | EMBRYO | SLEEPING | RUNNABLE | RUNNING | ZOMBIE

text \<open>\<open>struct trapframe\<close> of \<open>x86.h\<close>, padding included.\<close>

record trapframe =
  tf_edi :: u32
  tf_esi :: u32
  tf_ebp :: u32
  tf_oesp :: u32
  tf_ebx :: u32
  tf_edx :: u32
  tf_ecx :: u32
  tf_eax :: u32
  tf_gs :: u16
  tf_padding1 :: u16
  tf_fs :: u16
  tf_padding2 :: u16
  tf_es :: u16
  tf_padding3 :: u16
  tf_ds :: u16
  tf_padding4 :: u16
  tf_trapno :: u32
  tf_err :: u32
  tf_eip :: u32
  tf_cs :: u16
  tf_padding5 :: u16
  tf_eflags :: u32
  tf_esp :: u32
  tf_ss :: u16
  tf_padding6 :: u16

text \<open>Where a process continues when \<open>swtch\<close> loads its context.\<close>

datatype kcontext = No_context | At_forkret | At_sched

record proc =
  p_sz :: u32
  p_pgdir :: u32
  p_kstack :: u32
  p_state :: procstate
  p_pid :: u32
  p_parent :: "nat option"
  p_tf :: trapframe
  p_context :: kcontext
  p_intena :: bool           \<comment> \<open>the local variable \<open>intena\<close> of a suspended \<open>sched\<close>\<close>
  p_chan :: "chan option"
  p_killed :: bool
  p_ofile :: "nat \<Rightarrow> nat option"   \<comment> \<open>indices into the file table\<close>
  p_cwd :: "nat option"            \<comment> \<open>index into the inode cache\<close>
  p_name :: "u8 list"
  p_pending :: u32
  p_handlers :: "nat \<Rightarrow> u32"
  p_isHandlingsignal :: u32
  p_isHandelingSignal :: u32
  p_alarmFlag :: u32

record ptst = vmst +
  ptable :: "nat \<Rightarrow> proc"
  cur :: "nat \<Rightarrow> nat option"       \<comment> \<open>\<open>cpus[i].proc\<close>\<close>
  nextpid :: u32
  initproc :: "nat option"

text \<open>Static storage: zeroed before the kernel starts.\<close>

definition tf0 :: trapframe where
  "tf0 = \<lparr>tf_edi = 0, tf_esi = 0, tf_ebp = 0, tf_oesp = 0, tf_ebx = 0, tf_edx = 0, tf_ecx = 0, tf_eax = 0,
     tf_gs = 0, tf_padding1 = 0, tf_fs = 0, tf_padding2 = 0, tf_es = 0, tf_padding3 = 0, tf_ds = 0,
     tf_padding4 = 0, tf_trapno = 0, tf_err = 0, tf_eip = 0, tf_cs = 0, tf_padding5 = 0,
     tf_eflags = 0, tf_esp = 0, tf_ss = 0, tf_padding6 = 0\<rparr>"

definition proc0 :: proc where
  "proc0 = \<lparr>p_sz = 0, p_pgdir = 0, p_kstack = 0, p_state = UNUSED, p_pid = 0, p_parent = None,
     p_tf = tf0, p_context = No_context, p_intena = False, p_chan = None, p_killed = False,
     p_ofile = (\<lambda>_. None), p_cwd = None, p_name = [], p_pending = 0, p_handlers = (\<lambda>_. 0),
     p_isHandlingsignal = 0, p_isHandelingSignal = 0, p_alarmFlag = 0\<rparr>"

definition curproc :: "'x ptst_scheme \<Rightarrow> nat option" where
  "curproc s = cur s (me s)"

definition upd_proc :: "nat \<Rightarrow> (proc \<Rightarrow> proc) \<Rightarrow> 'x ptst_scheme \<Rightarrow> 'x ptst_scheme" where
  "upd_proc p f s = s\<lparr>ptable := (ptable s)(p := f (ptable s p))\<rparr>"

text \<open>Access to \<open>*proc\<close>; with no current process the kernel reads through a null pointer.\<close>

definition with_cur :: "(nat \<Rightarrow> ('x ptst_scheme, 'a) K) \<Rightarrow> ('x ptst_scheme, 'a) K" where
  "with_cur f = kbind (kget curproc) (\<lambda>c. case c of None \<Rightarrow> kfail (Kfault 0) | Some p \<Rightarrow> f p)"

section \<open>Allocation and growth\<close>

definition pinit :: "('x ptst_scheme, unit) K" where
  "pinit = initlock L_ptable"

definition initSigHandlers :: "nat \<Rightarrow> ('x ptst_scheme, unit) K" where
  "initSigHandlers p =
     kfor [0..<NUMSIG] (\<lambda>i. kmod (upd_proc p (\<lambda>q. q\<lparr>p_handlers := (p_handlers q)(i := 0)\<rparr>)))"

definition allocproc_find :: "('x ptst_scheme, nat option) K" where
  "allocproc_find =
     kbind (kget (\<lambda>s. find (\<lambda>i. p_state (ptable s i) = UNUSED) [0..<NPROC])) (\<lambda>r.
     case r of
       None \<Rightarrow> kret None
     | Some p \<Rightarrow>
         kthen (kmod (\<lambda>s. upd_proc p (\<lambda>q. q\<lparr>p_state := EMBRYO, p_pid := nextpid s\<rparr>) s))
         (kthen (kmod (\<lambda>s. s\<lparr>nextpid := nextpid s + 1\<rparr>))
         (kret (Some p))))"

text \<open>
  The trap frame, the return address \<open>trapret\<close> and the context are carved out of the kernel
  stack; the model keeps them as fields of the process.
\<close>

definition allocproc :: "('x ptst_scheme, nat option) K" where
  "allocproc =
     kbind (with_lock L_ptable allocproc_find) (\<lambda>r.
     case r of
       None \<Rightarrow> kret None
     | Some p \<Rightarrow>
         kbind kalloc (\<lambda>k.
         kthen (kmod (upd_proc p (\<lambda>q. q\<lparr>p_kstack := k\<rparr>)))
         (if k = 0 then
            kthen (kmod (upd_proc p (\<lambda>q. q\<lparr>p_state := UNUSED\<rparr>))) (kret None)
          else
            kthen (kmod (upd_proc p (\<lambda>q. q\<lparr>p_pending := 0, p_alarmFlag := -1\<rparr>)))
            (kthen (initSigHandlers p)
            (kthen (kmod (upd_proc p (\<lambda>q. q\<lparr>p_pending := 0, p_isHandelingSignal := 0\<rparr>)))
            (kthen (kmod (upd_proc p (\<lambda>q. q\<lparr>p_context := At_forkret\<rparr>)))
            (kret (Some p))))))))"

definition switchuvm_proc :: "nat \<Rightarrow> ('x ptst_scheme, unit) K" where
  "switchuvm_proc p =
     kbind (kget (\<lambda>s. ptable s p)) (\<lambda>q. switchuvm (Some (p_kstack q, p_pgdir q)))"

text \<open>\<open>sz + n\<close> is 32-bit arithmetic: the signed \<open>n\<close> is converted to \<open>uint\<close>.\<close>

definition growproc :: "int \<Rightarrow> ('x ptst_scheme, int) K" where
  "growproc n =
     with_cur (\<lambda>p.
     kbind (kget (\<lambda>s. (p_sz (ptable s p), p_pgdir (ptable s p)))) (\<lambda>(sz, pgdir).
     kbind (if n > 0 then allocuvm pgdir sz (sz + of_int n)
            else if n < 0 then deallocuvm pgdir sz (sz + of_int n) else kret sz) (\<lambda>sz'.
     if n \<noteq> 0 \<and> sz' = 0 then kret (-1)
     else
     kthen (kmod (upd_proc p (\<lambda>q. q\<lparr>p_sz := sz'\<rparr>)))
     (kthen (switchuvm_proc p) (kret 0)))))"

section \<open>Giving up the processor\<close>

definition sched :: "fault \<Rightarrow> ('x ptst_scheme, 'a) K" where
  "sched why =
     with_cur (\<lambda>p.
     kbind (kget (holding L_ptable)) (\<lambda>h.
     if \<not> h then kpanic ''sched ptable.lock''
     else
     kbind (kget (\<lambda>s. cpus s (me s))) (\<lambda>c.
     if ncli c \<noteq> 1 then kpanic ''sched locks''
     else
     kbind (kget (\<lambda>s. p_state (ptable s p))) (\<lambda>st.
     if st = RUNNING then kpanic ''sched running''
     else if IF c then kpanic ''sched interruptible''
     else
     kthen (kmod (upd_proc p (\<lambda>q. q\<lparr>p_intena := intena c, p_context := At_sched\<rparr>)))
     (kfail why)))))"

definition sched_resume :: "('x ptst_scheme, unit) K" where
  "sched_resume =
     with_cur (\<lambda>p. kmod (\<lambda>s. set_cpu (\<lambda>c. c\<lparr>intena := p_intena (ptable s p)\<rparr>) s))"

definition yield :: "('x ptst_scheme, unit) K" where
  "yield =
     kthen (acquire L_ptable)
     (with_cur (\<lambda>p.
     kthen (kmod (upd_proc p (\<lambda>q. q\<lparr>p_state := RUNNABLE\<rparr>)))
     (sched Yields)))"

definition yield_resume :: "('x ptst_scheme, unit) K" where
  "yield_resume = kthen sched_resume (release L_ptable)"

definition sleep :: "chan \<Rightarrow> lockid \<Rightarrow> ('x ptst_scheme, 'a) K" where
  "sleep ch lk =
     kbind (kget curproc) (\<lambda>c.
     case c of
       None \<Rightarrow> kpanic ''sleep''
     | Some p \<Rightarrow>
         kthen (kwhen (lk \<noteq> L_ptable) (kthen (acquire L_ptable) (release lk)))
         (kthen (kmod (upd_proc p (\<lambda>q. q\<lparr>p_chan := Some ch, p_state := SLEEPING\<rparr>)))
         (sched (Sleeps ch))))"

definition sleep_resume :: "lockid \<Rightarrow> ('x ptst_scheme, unit) K" where
  "sleep_resume lk =
     with_cur (\<lambda>p.
     kthen sched_resume
     (kthen (kmod (upd_proc p (\<lambda>q. q\<lparr>p_chan := None\<rparr>)))
     (kwhen (lk \<noteq> L_ptable) (kthen (release L_ptable) (acquire lk)))))"

section \<open>Waking up and killing\<close>

definition wakeup1 :: "chan \<Rightarrow> ('x ptst_scheme, unit) K" where
  "wakeup1 ch =
     kfor [0..<NPROC] (\<lambda>p.
     kbind (kget (\<lambda>s. ptable s p)) (\<lambda>q.
     kwhen (p_state q = SLEEPING \<and> p_chan q = Some ch)
       (kmod (upd_proc p (\<lambda>q. q\<lparr>p_state := RUNNABLE\<rparr>)))))"

definition wakeup :: "chan \<Rightarrow> ('x ptst_scheme, unit) K" where
  "wakeup ch = with_lock L_ptable (wakeup1 ch)"

definition kill_body :: "u32 \<Rightarrow> ('x ptst_scheme, int) K" where
  "kill_body pid =
     kbind (kget (\<lambda>s. find (\<lambda>i. p_pid (ptable s i) = pid) [0..<NPROC])) (\<lambda>r.
     case r of
       None \<Rightarrow> kret (-1)
     | Some p \<Rightarrow>
         kthen (kmod (upd_proc p (\<lambda>q. q\<lparr>p_killed := True\<rparr>)))
         (kbind (kget (\<lambda>s. p_state (ptable s p))) (\<lambda>st.
         kthen (kwhen (st = SLEEPING) (kmod (upd_proc p (\<lambda>q. q\<lparr>p_state := RUNNABLE\<rparr>))))
         (kret 0))))"

definition kill :: "u32 \<Rightarrow> ('x ptst_scheme, int) K" where
  "kill pid = with_lock L_ptable (kill_body pid)"

section \<open>Waiting for children\<close>

definition reap :: "nat \<Rightarrow> ('x ptst_scheme, u32) K" where
  "reap p =
     kbind (kget (\<lambda>s. ptable s p)) (\<lambda>q.
     kthen (kfree (p_kstack q))
     (kthen (kmod (upd_proc p (\<lambda>q. q\<lparr>p_kstack := 0\<rparr>)))
     (kthen (freevm (p_pgdir q))
     (kthen (kmod (upd_proc p (\<lambda>q. q\<lparr>p_pid := 0, p_parent := None,
         p_name := (if p_name q = [] then [] else (p_name q)[0 := 0]), p_killed := False,
         p_state := UNUSED, p_pending := 0\<rparr>)))
     (kthen (kfor [0..<NUMSIG] (\<lambda>i. kmod (upd_proc p (\<lambda>q. q\<lparr>p_handlers := (p_handlers q)(i := 0)\<rparr>))))
     (kthen (kmod (upd_proc p (\<lambda>q. q\<lparr>p_isHandlingsignal := 0, p_alarmFlag := 0\<rparr>)))
     (kret (p_pid q))))))))"

definition wait_scan :: "nat \<Rightarrow> ('x ptst_scheme, int) K" where
  "wait_scan me' =
     kbind (kget (\<lambda>s. find (\<lambda>i. p_parent (ptable s i) = Some me' \<and> p_state (ptable s i) = ZOMBIE)
       [0..<NPROC])) (\<lambda>z.
     case z of
       Some p \<Rightarrow> kbind (reap p) (\<lambda>pid. kthen (release L_ptable) (kret (sint pid)))
     | None \<Rightarrow>
         kbind (kget (\<lambda>s. \<exists>i \<in> set [0..<NPROC]. p_parent (ptable s i) = Some me')) (\<lambda>havekids.
         kbind (kget (\<lambda>s. p_killed (ptable s me'))) (\<lambda>killed.
         if \<not> havekids \<or> killed then kthen (release L_ptable) (kret (-1))
         else sleep (Ch_proc me') L_ptable)))"

definition wait :: "('x ptst_scheme, int) K" where
  "wait = kthen (acquire L_ptable) (with_cur wait_scan)"

definition wait_resume :: "('x ptst_scheme, int) K" where
  "wait_resume = kthen (sleep_resume L_ptable) (with_cur wait_scan)"

section \<open>The scheduler\<close>

text \<open>
  The scheduler loop of one CPU, cut at its lock operations and at \<open>swtch\<close>: the outer loop body up
  to the scan, the switch to process \<open>p\<close>, and what follows when control comes back.
\<close>

definition scheduler_start :: "('x ptst_scheme, unit) K" where
  "scheduler_start = kthen (kmod (set_cpu (\<lambda>c. c\<lparr>IF := True\<rparr>))) (acquire L_ptable)"

definition scheduler_switch :: "nat \<Rightarrow> ('x ptst_scheme, unit) K" where
  "scheduler_switch p =
     kthen (kmod (\<lambda>s. s\<lparr>cur := (cur s)(me s := Some p)\<rparr>))
     (kthen (switchuvm_proc p)
     (kmod (upd_proc p (\<lambda>q. q\<lparr>p_state := RUNNING\<rparr>))))"

definition scheduler_back :: "('x ptst_scheme, unit) K" where
  "scheduler_back = kthen switchkvm (kmod (\<lambda>s. s\<lparr>cur := (cur s)(me s := None)\<rparr>))"

definition scheduler_finish :: "('x ptst_scheme, unit) K" where
  "scheduler_finish = release L_ptable"

text \<open>The last statements of \<open>fork\<close> and \<open>userinit\<close>, and of \<open>exit\<close>.\<close>

definition set_runnable :: "nat \<Rightarrow> ('x ptst_scheme, unit) K" where
  "set_runnable np = with_lock L_ptable (kmod (upd_proc np (\<lambda>q. q\<lparr>p_state := RUNNABLE\<rparr>)))"

definition exit_sched :: "('x ptst_scheme, 'a) K" where
  "exit_sched = with_cur (\<lambda>p. kthen (kmod (upd_proc p (\<lambda>q. q\<lparr>p_state := ZOMBIE\<rparr>))) (sched Exits))"

section \<open>Effects of the operations\<close>

lemma upd_proc_simps [simp]:
  "ptable (upd_proc p f s) = (ptable s)(p := f (ptable s p))"
  "cur (upd_proc p f s) = cur s" "me (upd_proc p f s) = me s" "curproc (upd_proc p f s) = curproc s"
  "cpus (upd_proc p f s) = cpus s" "locks (upd_proc p f s) = locks s"
  "nextpid (upd_proc p f s) = nextpid s" "initproc (upd_proc p f s) = initproc s"
  "mem (upd_proc p f s) = mem s" "cr3 (upd_proc p f s) = cr3 s"
  by (simp_all add: upd_proc_def curproc_def)

lemma upd_proc_upd_proc [simp]: "upd_proc p f (upd_proc p g s) = upd_proc p (\<lambda>q. f (g q)) s"
  by (simp add: upd_proc_def)

lemma upd_proc_locks [simp]:
  "upd_proc p f (s\<lparr>cpus := c, locks := l\<rparr>) = (upd_proc p f s)\<lparr>cpus := c, locks := l\<rparr>"
  by (simp add: upd_proc_def)

lemma curproc_locks [simp]: "curproc (s\<lparr>cpus := c, locks := l\<rparr>) = curproc s"
  by (simp add: curproc_def)

definition map_procs :: "nat set \<Rightarrow> (proc \<Rightarrow> proc) \<Rightarrow> 'x ptst_scheme \<Rightarrow> 'x ptst_scheme" where
  "map_procs A f s = s\<lparr>ptable := (\<lambda>p. if p \<in> A then f (ptable s p) else ptable s p)\<rparr>"

text \<open>A loop over the process table whose body changes only the process it visits.\<close>

lemma kfor_procs:
  assumes "distinct ps" and "\<And>p s. body p s = (Val (), upd_proc p f s)"
  shows "kfor ps body s = (Val (), map_procs (set ps) f s)"
  using assms(1)
proof (induction ps arbitrary: s)
  case Nil
  then show ?case by (simp add: kret_def map_procs_def)
next
  case (Cons p ps)
  have "map_procs (set ps) f (upd_proc p f s) = map_procs (set (p # ps)) f s"
    using Cons.prems by (auto simp: map_procs_def upd_proc_def fun_eq_iff)
  then show ?case using Cons by (simp add: kbind_def assms(2))
qed

definition woken :: "chan \<Rightarrow> proc \<Rightarrow> proc" where
  "woken ch q = (if p_state q = SLEEPING \<and> p_chan q = Some ch then q\<lparr>p_state := RUNNABLE\<rparr> else q)"

lemma wakeup1_eq: "wakeup1 ch s = (Val (), map_procs {0..<NPROC} (woken ch) s)"
proof -
  have "wakeup1 ch s = (Val (), map_procs (set [0..<NPROC]) (woken ch) s)"
    unfolding wakeup1_def
    by (rule kfor_procs) (auto simp: kret_def kmod_def woken_def upd_proc_def)
  then show ?thesis by simp
qed

lemma oblivious_kmod_upd_proc [obl]: "oblivious (kmod (upd_proc p f))"
  by (intro obl) simp_all

lemma oblivious_wakeup1 [obl]: "oblivious (wakeup1 ch)"
  unfolding wakeup1_def by (intro obl) simp_all

lemma oblivious_allocproc_find [obl]: "oblivious allocproc_find"
  unfolding allocproc_find_def by (intro obl) (simp_all add: upd_proc_def)

lemma oblivious_kill_body [obl]: "oblivious (kill_body pid)"
  unfolding kill_body_def by (intro obl) simp_all

lemma wakeup_eq: "can_take L_ptable s \<Longrightarrow> wakeup ch s = (Val (), map_procs {0..<NPROC} (woken ch) s)"
  unfolding wakeup_def using with_lock_Val [OF oblivious_wakeup1 _ wakeup1_eq] .

text \<open>Stopping in \<open>sched\<close>, with \<open>ptable.lock\<close> held.\<close>

definition suspended :: "nat \<Rightarrow> 'x ptst_scheme \<Rightarrow> 'x ptst_scheme" where
  "suspended p s =
     upd_proc p (\<lambda>q. q\<lparr>p_intena := intena (cpus s (me s)), p_context := At_sched\<rparr>) s"

lemma sched_eq:
  assumes "curproc s = Some p" and "holding L_ptable s" and "ncli (cpus s (me s)) = 1"
    and "\<not> IF (cpus s (me s))" and "p_state (ptable s p) \<noteq> RUNNING"
  shows "sched why s = (Fault why, suspended p s)"
  using assms by (simp add: sched_def with_cur_def suspended_def kfail_def)

lemma grab_proc [simp]:
  "ptable (grab lk s) = ptable s" "cur (grab lk s) = cur s" "me (grab lk s) = me s"
  "curproc (grab lk s) = curproc s"
  by (simp_all add: grab_def curproc_def)

lemma grab_lock [simp]:
  "locks (grab lk s) = (locks s)(lk := \<lparr>locked = 1, lk_cpu = Some (me s)\<rparr>)"
  "cpus (grab lk s) = (cpus s)(me s := \<lparr>ncli = ncli (cpus s (me s)) + 1,
     intena = intena (cpus s (me s)), IF = False\<rparr>)"
  by (simp_all add: grab_def)

lemma yield_eq:
  assumes "can_take L_ptable s" and "curproc s = Some p" and "ncli (cpus s (me s)) = 0"
  shows "yield s = (Fault Yields, suspended p (upd_proc p (\<lambda>q. q\<lparr>p_state := RUNNABLE\<rparr>) (grab L_ptable s)))"
proof -
  have "sched Yields (upd_proc p (\<lambda>q. q\<lparr>p_state := RUNNABLE\<rparr>) (grab L_ptable s)) =
      (Fault Yields, suspended p (upd_proc p (\<lambda>q. q\<lparr>p_state := RUNNABLE\<rparr>) (grab L_ptable s)))"
    using assms(2,3) by (intro sched_eq) (simp_all add: holding_def)
  then show ?thesis
    using acquire_grab [OF assms(1)] assms(2)
    by (simp add: yield_def with_cur_def kbind_def kget_def kmod_def)
qed

lemma ungrab_other:
  assumes "can_take lk s" and "lk \<noteq> lk'"
  shows "ungrab lk (grab lk' (grab lk s)) = grab lk' s"
proof -
  have "(locks s)(lk' := l, lk := \<lparr>locked = 0, lk_cpu = None\<rparr>) = (locks s)(lk' := l)" for l
    using assms by (auto simp: can_take_def fun_eq_iff)
  moreover have "(locks s)(lk := k, lk' := l, lk := \<lparr>locked = 0, lk_cpu = None\<rparr>) =
      (locks s)(lk' := l, lk := \<lparr>locked = 0, lk_cpu = None\<rparr>)" for k l
    using assms(2) by (auto simp: fun_eq_iff)
  moreover have "0 \<le> ncli (cpus s (me s))" using assms(1) by (auto simp: can_take_def cpu_sane_def split: if_splits)
  ultimately show ?thesis
    by (simp add: ungrab_def grab_def add.commute)
qed

lemma sleep_eq:
  assumes "can_take lk s" and "can_take L_ptable s" and "lk \<noteq> L_ptable"
    and "curproc s = Some p" and "ncli (cpus s (me s)) = 0"
  shows "kthen (acquire lk) (sleep ch lk) s = (Fault (Sleeps ch),
     suspended p (upd_proc p (\<lambda>q. q\<lparr>p_chan := Some ch, p_state := SLEEPING\<rparr>) (grab L_ptable s)))"
proof -
  let ?f = "\<lambda>q. q\<lparr>p_chan := Some ch, p_state := SLEEPING\<rparr>"
  have take: "can_take L_ptable (grab lk s)"
    using assms(2,3,5) by (simp add: can_take_def cpu_sane_def)
  have "in_section lk (grab L_ptable (grab lk s))"
    using assms(3,5) by (simp add: in_section_def holding_def)
  then have "release lk (grab L_ptable (grab lk s)) = (Val (), grab L_ptable s)"
    using release_ungrab ungrab_other [OF assms(1,3)] by metis
  moreover have "sched (Sleeps ch) (upd_proc p ?f (grab L_ptable s)) =
      (Fault (Sleeps ch), suspended p (upd_proc p ?f (grab L_ptable s)))"
    using assms(4,5) by (intro sched_eq) (simp_all add: holding_def)
  ultimately show ?thesis
    using acquire_grab [OF assms(1)] acquire_grab [OF take] assms(3,4)
    by (simp add: sleep_def kbind_def kget_def kmod_def)
qed

lemma exit_sched_eq:
  assumes "can_take L_ptable s" and "curproc s = Some p" and "ncli (cpus s (me s)) = 0"
  shows "kthen (acquire L_ptable) exit_sched s =
     (Fault Exits, suspended p (upd_proc p (\<lambda>q. q\<lparr>p_state := ZOMBIE\<rparr>) (grab L_ptable s)))"
proof -
  have "sched Exits (upd_proc p (\<lambda>q. q\<lparr>p_state := ZOMBIE\<rparr>) (grab L_ptable s)) =
      (Fault Exits, suspended p (upd_proc p (\<lambda>q. q\<lparr>p_state := ZOMBIE\<rparr>) (grab L_ptable s)))"
    using assms(2,3) by (intro sched_eq) (simp_all add: holding_def)
  then show ?thesis
    using acquire_grab [OF assms(1)] assms(2)
    by (simp add: exit_sched_def with_cur_def kbind_def kget_def kmod_def)
qed

lemma acquire_busy:
  assumes "locked (locks s lk) \<noteq> 0"
  shows "\<exists>e t. acquire lk s = (Fault e, t)"
  using assms
  by (auto simp: acquire_def acquire_enter_def pushcli_def xchg_locked_def lock_defs kmod_def kret_def
      kbind_def kget_def kwhen_def kfail_def)

lemma with_lock_busy: "locked (locks s lk) \<noteq> 0 \<Longrightarrow> with_lock lk f s \<noteq> (Val x, t)"
  using acquire_busy [of s lk] by (auto simp: with_lock_def kbind_def)

text \<open>
  A small machine for examples: free locks, CPU 0 in user mode, one runnable process in entry 0
  with the address space \<open>um_ex\<close>.
\<close>

definition pt_ex :: "nat option \<Rightarrow> (proc \<Rightarrow> proc) \<Rightarrow> ptst" where
  "pt_ex running f =
     \<lparr>me = 0, cpus = (\<lambda>_. \<lparr>ncli = 0, intena = True, IF = True\<rparr>),
      locks = (\<lambda>_. \<lparr>locked = 0, lk_cpu = None\<rparr>),
      mem = um_ex, use_lock = True, freelist = 0, kend = 0x80100000,
      kpgdir = 0x80405000, cr3 = 0x402000, ts_esp0 = 0, kdata = 0x80108000,
      ptable = (\<lambda>_. proc0)(0 := f (proc0\<lparr>p_state := RUNNABLE, p_pid := 1, p_kstack := 0x80403000,
        p_pgdir := 0x80402000, p_sz := 0x2000, p_context := At_forkret\<rparr>)),
      cur = (\<lambda>_. None)(0 := running), nextpid = 2, initproc = Some 0\<rparr>"

lemma pt_ex_simps [simp]:
  "me (pt_ex r f) = 0" "cpus (pt_ex r f) c = \<lparr>ncli = 0, intena = True, IF = True\<rparr>"
  "locks (pt_ex r f) lk = \<lparr>locked = 0, lk_cpu = None\<rparr>" "cur (pt_ex r f) = (\<lambda>_. None)(0 := r)"
  "curproc (pt_ex r f) = r" "can_take lk (pt_ex r f)" "mem (pt_ex r f) = um_ex"
  by (simp_all add: pt_ex_def curproc_def can_take_def cpu_sane_def)

end
