(* ===== verification/Xv6_Sched.thy ===== *)
theory Xv6_Sched
  imports Xv6_Proc
begin

text \<open>
  Several CPUs running the scheduler and processes at once.  A state is the kernel state and, for
  each CPU, where it is: \<open>Idle\<close> at the top of the scheduler's outer loop, \<open>Scan i\<close> with
  \<open>ptable.lock\<close> held and table entry \<open>i\<close> next, or \<open>Run p\<close> in process \<open>p\<close>.  One step of
  \<open>sched_step\<close> is one lock section of \<open>ptable.lock\<close> or one iteration of the scan, executed by the
  operations of \<open>proc.c\<close>; the locks of \<open>spinlock.c\<close> make sections atomic.  Of \<open>wait\<close> only the
  change of the child's state from \<open>ZOMBIE\<close> to \<open>UNUSED\<close> takes part.
\<close>

section \<open>The machine\<close>

datatype cpupc = Idle | Scan nat | Run nat

type_synonym sched_state = "ptst \<times> (nat \<Rightarrow> cpupc)"

definition at_cpu :: "nat \<Rightarrow> 'x ptst_scheme \<Rightarrow> 'x ptst_scheme" where
  "at_cpu c s = s\<lparr>me := c\<rparr>"

text \<open>What a process does when \<open>swtch\<close> continues it, up to its release of \<open>ptable.lock\<close>.\<close>

definition sleep_tidy :: "('x ptst_scheme, unit) K" where
  "sleep_tidy = with_cur (\<lambda>p.
     kthen sched_resume
     (kthen (kmod (upd_proc p (\<lambda>q. q\<lparr>p_chan := None\<rparr>))) (release L_ptable)))"

definition resume_proc :: "nat \<Rightarrow> ('x ptst_scheme, unit) K" where
  "resume_proc p =
     kbind (kget (\<lambda>s. ptable s p)) (\<lambda>q.
     case p_context q of
       No_context \<Rightarrow> kfail (Kfault 0)
     | At_forkret \<Rightarrow> release L_ptable
     | At_sched \<Rightarrow> if p_chan q = None then yield_resume else sleep_tidy)"

definition collect :: "nat \<Rightarrow> ('x ptst_scheme, unit) K" where
  "collect q = with_lock L_ptable (kmod (upd_proc q (\<lambda>x. x\<lparr>p_state := UNUSED\<rparr>)))"

inductive sched_step :: "sched_state \<Rightarrow> sched_state \<Rightarrow> bool" where
  start: "pc c = Idle \<Longrightarrow> scheduler_start (at_cpu c s) = (Val (), s') \<Longrightarrow>
    sched_step (s, pc) (s', pc(c := Scan 0))"
| skip: "pc c = Scan i \<Longrightarrow> i < NPROC \<Longrightarrow> p_state (ptable s i) \<noteq> RUNNABLE \<Longrightarrow>
    sched_step (s, pc) (s, pc(c := Scan (Suc i)))"
| dispatch: "pc c = Scan i \<Longrightarrow> i < NPROC \<Longrightarrow> p_state (ptable s i) = RUNNABLE \<Longrightarrow>
    scheduler_switch i (at_cpu c s) = (Val (), s1) \<Longrightarrow> resume_proc i s1 = (Val (), s') \<Longrightarrow>
    sched_step (s, pc) (s', pc(c := Run i))"
| yield: "pc c = Run p \<Longrightarrow> Xv6_Proc.yield (at_cpu c s) = (Fault Yields, s1) \<Longrightarrow>
    scheduler_back s1 = (Val (), s') \<Longrightarrow> sched_step (s, pc) (s', pc(c := Scan (Suc p)))"
| sleep: "pc c = Run p \<Longrightarrow> lk \<noteq> L_ptable \<Longrightarrow>
    kthen (acquire lk) (Xv6_Proc.sleep ch lk) (at_cpu c s) = (Fault (Sleeps ch) :: unit outcome, s1) \<Longrightarrow>
    scheduler_back s1 = (Val (), s') \<Longrightarrow> sched_step (s, pc) (s', pc(c := Scan (Suc p)))"
| exit: "pc c = Run p \<Longrightarrow> kthen (acquire L_ptable) exit_sched (at_cpu c s) = (Fault Exits :: unit outcome, s1) \<Longrightarrow>
    scheduler_back s1 = (Val (), s') \<Longrightarrow> sched_step (s, pc) (s', pc(c := Scan (Suc p)))"
| wakeup: "pc c = Run p \<Longrightarrow> Xv6_Proc.wakeup ch (at_cpu c s) = (Val (), s') \<Longrightarrow> sched_step (s, pc) (s', pc)"
| kill: "pc c = Run p \<Longrightarrow> Xv6_Proc.kill pid (at_cpu c s) = (Val r, s') \<Longrightarrow> sched_step (s, pc) (s', pc)"
| alloc: "pc c = Run p \<Longrightarrow> with_lock L_ptable allocproc_find (at_cpu c s) = (Val r', s') \<Longrightarrow>
    sched_step (s, pc) (s', pc)"
| publish: "pc c = Run p \<Longrightarrow> p_state (ptable s q) = EMBRYO \<Longrightarrow> set_runnable q (at_cpu c s) = (Val (), s') \<Longrightarrow>
    sched_step (s, pc) (s', pc)"
| collect: "pc c = Run p \<Longrightarrow> p_state (ptable s q) = ZOMBIE \<Longrightarrow> Xv6_Sched.collect q (at_cpu c s) = (Val (), s') \<Longrightarrow>
    sched_step (s, pc) (s', pc)"
| finish: "pc c = Scan NPROC \<Longrightarrow> scheduler_finish (at_cpu c s) = (Val (), s') \<Longrightarrow>
    sched_step (s, pc) (s', pc(c := Idle))"

definition sched_init :: "sched_state \<Rightarrow> bool" where
  "sched_init st =
     ((\<forall>c. snd st c = Idle \<and> cur (fst st) c = None \<and> ncli (cpus (fst st) c) = 0) \<and>
      (\<forall>p. p_state (ptable (fst st) p) \<noteq> RUNNING) \<and>
      (\<forall>lk. locks (fst st) lk = \<lparr>locked = 0, lk_cpu = None\<rparr>))"

inductive sched_reach :: "sched_state \<Rightarrow> bool" where
  init: "sched_init st \<Longrightarrow> sched_reach st"
| step: "sched_reach st \<Longrightarrow> sched_step st st' \<Longrightarrow> sched_reach st'"

section \<open>The invariant\<close>

text \<open>Processes and CPUs agree on who runs where.\<close>

definition run_inv :: "(nat \<Rightarrow> procstate) \<Rightarrow> (nat \<Rightarrow> nat option) \<Rightarrow> (nat \<Rightarrow> cpupc) \<Rightarrow> bool" where
  "run_inv st cu pc =
     ((\<forall>c p. cu c = Some p \<longleftrightarrow> pc c = Run p) \<and>
      (\<forall>p. st p = RUNNING \<longleftrightarrow> (\<exists>c. pc c = Run p)) \<and>
      (\<forall>c d p. pc c = Run p \<longrightarrow> pc d = Run p \<longrightarrow> c = d))"

definition scanning :: "cpupc \<Rightarrow> bool" where
  "scanning p = (case p of Scan i \<Rightarrow> True | _ \<Rightarrow> False)"

text \<open>\<open>ptable.lock\<close> is held exactly by the CPU that scans the table.\<close>

definition lock_inv :: "(lockid \<Rightarrow> spinlock) \<Rightarrow> (nat \<Rightarrow> cpupc) \<Rightarrow> bool" where
  "lock_inv lks pc =
     ((\<forall>lk. lk \<noteq> L_ptable \<longrightarrow> lks lk = \<lparr>locked = 0, lk_cpu = None\<rparr>) \<and>
      ((\<forall>c. \<not> scanning (pc c)) \<and> lks L_ptable = \<lparr>locked = 0, lk_cpu = None\<rparr> \<or>
       (\<exists>c. scanning (pc c) \<and> (\<forall>d. scanning (pc d) \<longrightarrow> d = c) \<and> lks L_ptable = \<lparr>locked = 1, lk_cpu = Some c\<rparr>)))"

definition cpu_inv :: "cpu \<Rightarrow> cpupc \<Rightarrow> bool" where
  "cpu_inv c p =
     (case p of Idle \<Rightarrow> ncli c = 0
      | Scan i \<Rightarrow> ncli c = 1 \<and> \<not> IF c
      | Run q \<Rightarrow> ncli c = 0 \<and> intena c = IF c)"

definition sched_inv :: "sched_state \<Rightarrow> bool" where
  "sched_inv st = (case st of (s, pc) \<Rightarrow>
     run_inv (\<lambda>p. p_state (ptable s p)) (cur s) pc \<and> lock_inv (locks s) pc \<and>
     (\<forall>c. cpu_inv (cpus s c) (pc c)))"

lemma run_inv_section:
  "run_inv st cu pc \<Longrightarrow> (\<And>p. st' p = RUNNING \<longleftrightarrow> st p = RUNNING) \<Longrightarrow> run_inv st' cu pc"
  by (simp add: run_inv_def)

lemma run_inv_enter:
  assumes "run_inv st cu pc" and "pc c = Scan i" and "st p \<noteq> RUNNING"
  shows "run_inv (st(p := RUNNING)) (cu(c := Some p)) (pc(c := Run p))"
  using assms unfolding run_inv_def by (auto split: if_splits) (metis cpupc.distinct(5))+

lemma run_inv_leave:
  assumes "run_inv st cu pc" and "pc c = Run p" and "x \<noteq> RUNNING"
  shows "run_inv (st(p := x)) (cu(c := None)) (pc(c := Scan i))"
  using assms unfolding run_inv_def by (auto split: if_splits) (metis cpupc.distinct(5) cpupc.inject(2))+

lemma run_inv_move:
  assumes "run_inv st cu pc" and "\<And>p. pc c \<noteq> Run p" and "\<And>p. x \<noteq> Run p"
  shows "run_inv st cu (pc(c := x))"
  using assms unfolding run_inv_def by (auto split: if_splits) metis+

lemma lock_inv_take:
  assumes "lock_inv lks pc" and "locked (lks L_ptable) = 0"
  shows "lock_inv (lks(L_ptable := \<lparr>locked = 1, lk_cpu = Some c\<rparr>)) (pc(c := Scan i))"
  using assms unfolding lock_inv_def by (auto simp: scanning_def)

lemma lock_inv_free:
  assumes "lock_inv lks pc" and "scanning (pc c)" and "\<not> scanning x"
  shows "lock_inv (lks(L_ptable := \<lparr>locked = 0, lk_cpu = None\<rparr>)) (pc(c := x))"
  using assms unfolding lock_inv_def by auto

lemma lock_inv_move:
  assumes "lock_inv lks pc" and "scanning (pc c) = scanning x"
  shows "lock_inv lks (pc(c := x))"
proof -
  have "scanning ((pc(c := x)) d) = scanning (pc d)" for d using assms(2) by simp
  then show ?thesis using assms(1) unfolding lock_inv_def by presburger
qed

lemma lock_inv_ptable:
  "lock_inv lks pc \<Longrightarrow> scanning (pc c) \<Longrightarrow> lks L_ptable = \<lparr>locked = 1, lk_cpu = Some c\<rparr>"
  unfolding lock_inv_def by blast

lemma lock_holder:
  assumes "lock_inv lks pc"
  shows "(lk_cpu (lks L_ptable) = Some d) = (\<exists>i. pc d = Scan i)"
proof -
  have "lk_cpu (lks L_ptable) = None \<or> (\<exists>c. scanning (pc c) \<and> lk_cpu (lks L_ptable) = Some c)"
    using assms unfolding lock_inv_def by (metis spinlock.select_convs(2))
  moreover have "(\<exists>i. pc d = Scan i) = scanning (pc d)" by (cases "pc d") (simp_all add: scanning_def)
  ultimately show ?thesis using lock_inv_ptable [OF assms, of d] by auto
qed

lemma lock_inv_unlocked:
  assumes "lock_inv lks pc" and "locked (lks L_ptable) = 0"
  shows "lks lk = \<lparr>locked = 0, lk_cpu = None\<rparr>"
  using assms unfolding lock_inv_def by (metis spinlock.select_convs(1) zero_neq_one)

lemma sched_invD:
  assumes "sched_inv (s, pc)"
  shows "run_inv (\<lambda>p. p_state (ptable s p)) (cur s) pc" and "lock_inv (locks s) pc"
    and "cpu_inv (cpus s c) (pc c)"
  using assms by (simp_all add: sched_inv_def)

lemma at_cpu_simps [simp]:
  "me (at_cpu c s) = c" "cpus (at_cpu c s) = cpus s" "locks (at_cpu c s) = locks s"
  "ptable (at_cpu c s) = ptable s" "cur (at_cpu c s) = cur s" "curproc (at_cpu c s) = cur s c"
  by (simp_all add: at_cpu_def curproc_def)

lemma sched_invI:
  assumes "run_inv (\<lambda>p. p_state (ptable s' p)) (cur s') (pc(c := x))" and "lock_inv (locks s') (pc(c := x))"
    and "cpus s' = (cpus s)(c := k)" and "cpu_inv k x" and "sched_inv (s, pc)"
  shows "sched_inv (s', pc(c := x))"
proof -
  have "cpu_inv (cpus s' d) ((pc(c := x)) d)" for d
    using assms(4) sched_invD(3) [OF assms(5), of d] by (cases "d = c") (simp_all add: assms(3))
  then show ?thesis using assms(1,2) by (simp add: sched_inv_def)
qed

text \<open>A process finds the locks free whenever nobody scans.\<close>

lemma run_can_take:
  assumes "sched_inv (s, pc)" and "pc c = Run p" and "locked (locks s L_ptable) = 0"
  shows "can_take lk (at_cpu c s)" and "ncli (cpus s c) = 0" and "cur s c = Some p"
  using sched_invD [OF assms(1)] lock_inv_unlocked [OF sched_invD(2) [OF assms(1)] assms(3), of lk]
    assms(2) sched_invD(3) [OF assms(1), of c]
  by (simp_all add: can_take_def cpu_inv_def cpu_sane_def run_inv_def)

lemma section_inv:
  assumes inv: "sched_inv (s, pc)" and pc: "pc c = Run p"
    and w: "with_lock L_ptable f (at_cpu c s) = (Val x, s')"
    and f: "oblivious f" "f (at_cpu c s) = (Val y, t)" "cur t = cur s"
      "\<And>p. p_state (ptable t p) = RUNNING \<longleftrightarrow> p_state (ptable s p) = RUNNING"
  shows "sched_inv (s', pc)"
proof -
  have "locked (locks s L_ptable) = 0"
    using with_lock_busy [of "at_cpu c s" L_ptable f x s'] w by auto
  then have "with_lock L_ptable f (at_cpu c s) = (Val y, t)"
    using with_lock_Val [OF f(1) run_can_take(1) [OF inv pc] f(2)] by simp
  then have t: "s' = t" using w by simp
  have "cpus t = cpus s" "locks t = locks s" using oblivious_keeps [OF f(1,2)] by simp_all
  moreover have "run_inv (\<lambda>p. p_state (ptable t p)) (cur t) pc"
    unfolding f(3) by (rule run_inv_section [OF sched_invD(1) [OF inv] f(4)])
  ultimately show ?thesis using inv unfolding t by (simp add: sched_inv_def)
qed

lemma section_upd_inv:
  assumes "sched_inv (s, pc)" and "pc c = Run p"
    and "with_lock L_ptable (kmod (upd_proc q g)) (at_cpu c s) = (Val x, s')"
    and "p_state (ptable s q) \<noteq> RUNNING" and "p_state (g (ptable s q)) \<noteq> RUNNING"
  shows "sched_inv (s', pc)"
  using assms(4,5)
  by (intro section_inv [OF assms(1-3) oblivious_kmod_upd_proc, where y = "()" and t = "upd_proc q g (at_cpu c s)"])
    (simp_all add: kmod_def)

lemma kill_body_eq:
  "kill_body pid s =
     (case find (\<lambda>i. p_pid (ptable s i) = pid) [0..<NPROC] of
        None \<Rightarrow> (Val (-1), s)
      | Some p \<Rightarrow> (Val 0, upd_proc p (\<lambda>q. q\<lparr>p_killed := True,
          p_state := (if p_state q = SLEEPING then RUNNABLE else p_state q)\<rparr>) s))"
  by (cases "find (\<lambda>i. p_pid (ptable s i) = pid) [0..<NPROC]")
    (auto simp: kill_body_def kret_def kmod_def upd_proc_def)

lemma allocproc_find_eq:
  "allocproc_find s =
     (case find (\<lambda>i. p_state (ptable s i) = UNUSED) [0..<NPROC] of
        None \<Rightarrow> (Val None, s)
      | Some p \<Rightarrow> (Val (Some p), (upd_proc p (\<lambda>q. q\<lparr>p_state := EMBRYO, p_pid := nextpid s\<rparr>) s)\<lparr>nextpid := nextpid s + 1\<rparr>))"
  by (cases "find (\<lambda>i. p_state (ptable s i) = UNUSED) [0..<NPROC]")
    (auto simp: allocproc_find_def kret_def)

definition keeps_running :: "('x ptst_scheme, 'a) K \<Rightarrow> 'x ptst_scheme \<Rightarrow> bool" where
  "keeps_running f s = (\<exists>y t. f s = (Val y, t) \<and> cur t = cur s \<and>
     (\<forall>p. p_state (ptable t p) = RUNNING \<longleftrightarrow> p_state (ptable s p) = RUNNING))"

lemma kill_keeps: "keeps_running (kill_body pid) s"
  unfolding keeps_running_def kill_body_eq
  by (cases "find (\<lambda>i. p_pid (ptable s i) = pid) [0..<NPROC]") auto

lemma alloc_keeps: "keeps_running allocproc_find s"
  unfolding keeps_running_def allocproc_find_eq
  by (cases "find (\<lambda>i. p_state (ptable s i) = UNUSED) [0..<NPROC]") (auto dest: find_index_Some)

lemma back_eq:
  "scheduler_back s = (Val (), s\<lparr>cr3 := V2P (kpgdir s), cur := (cur s)(me s := None)\<rparr>)"
  by (simp add: scheduler_back_def switchkvm_def kmod_def kbind_def)

text \<open>Leaving a process for the scheduler.\<close>

lemma leave_inv:
  assumes inv: "sched_inv (s, pc)" and pc: "pc c = Run p" and lk: "locked (locks s L_ptable) = 0"
    and x: "\<And>q. p_state (f q) = x" "x \<noteq> RUNNING"
    and bk: "scheduler_back (suspended p (upd_proc p f (grab L_ptable (at_cpu c s)))) = (Val (), s')"
  shows "sched_inv (s', pc(c := Scan (Suc p)))"
proof -
  let ?t = "suspended p (upd_proc p f (grab L_ptable (at_cpu c s)))"
  have s': "s' = ?t\<lparr>cr3 := V2P (kpgdir ?t), cur := (cur ?t)(me ?t := None)\<rparr>" using bk by (simp add: back_eq)
  have "(\<lambda>q. p_state (ptable s' q)) = (\<lambda>q. p_state (ptable s q))(p := x)" "cur s' = (cur s)(c := None)"
    "locks s' = (locks s)(L_ptable := \<lparr>locked = 1, lk_cpu = Some c\<rparr>)"
    "cpus s' = (cpus s)(c := \<lparr>ncli = ncli (cpus s c) + 1, intena = intena (cpus s c), IF = False\<rparr>)"
    using x(1) by (auto simp: s' suspended_def)
  moreover have "ncli (cpus s c) = 0" by (rule run_can_take(2) [OF inv pc lk])
  ultimately show ?thesis
    using run_inv_leave [OF sched_invD(1) [OF inv] pc x(2)] lock_inv_take [OF sched_invD(2) [OF inv] lk]
    by (intro sched_invI [OF _ _ _ _ inv, where k = "\<lparr>ncli = 1, intena = intena (cpus s c), IF = False\<rparr>"])
      (simp_all add: cpu_inv_def)
qed

text \<open>From the scheduler into a process.\<close>

lemma switchuvm_eq:
  assumes "ncli (cpus s (me s)) = 1" and "\<not> IF (cpus s (me s))" and "k \<noteq> 0" and "d \<noteq> 0"
  shows "switchuvm (Some (k, d)) s = (Val (), s\<lparr>ts_esp0 := k + KSTACKSIZE, cr3 := V2P d\<rparr>)"
proof -
  have e: "(cpus s (me s))\<lparr>IF := False, ncli := 1\<rparr> = cpus s (me s)"
    using assms(1,2) by (cases "cpus s (me s)") simp
  show ?thesis
    using assms by (simp add: e switchuvm_def pushcli_def popcli_def lock_defs kmod_def kbind_def kget_def kret_def)
qed

lemma switchuvm_fault: "switchuvm (Some (k, d)) s = (Val (), t) \<Longrightarrow> k \<noteq> 0 \<and> d \<noteq> 0"
  by (auto simp: switchuvm_def kfail_def split: if_splits)

lemma scheduler_switch_eq:
  assumes "scheduler_switch p s = (Val (), t)" and "ncli (cpus s (me s)) = 1" and "\<not> IF (cpus s (me s))"
  shows "\<exists>e r. t = upd_proc p (\<lambda>q. q\<lparr>p_state := RUNNING\<rparr>) (s\<lparr>cur := (cur s)(me s := Some p), ts_esp0 := e, cr3 := r\<rparr>)"
proof -
  let ?s = "s\<lparr>cur := (cur s)(me s := Some p)\<rparr>" and ?q = "ptable s p"
  obtain t' where sw: "switchuvm (Some (p_kstack ?q, p_pgdir ?q)) ?s = (Val (), t')"
    and t: "t = upd_proc p (\<lambda>q. q\<lparr>p_state := RUNNING\<rparr>) t'"
    using assms(1) by (auto simp: scheduler_switch_def switchuvm_proc_def kbind_def kmod_def kget_def
        split: prod.splits outcome.splits)
  have "t' = ?s\<lparr>ts_esp0 := p_kstack ?q + KSTACKSIZE, cr3 := V2P (p_pgdir ?q)\<rparr>"
    using switchuvm_eq [of ?s] switchuvm_fault [OF sw] sw assms(2,3) by simp
  then show ?thesis using t by auto
qed

lemma release_last:
  assumes "holding L_ptable s" and "ncli (cpus s (me s)) = 1" and "\<not> IF (cpus s (me s))"
  shows "release L_ptable s = (Val (), s\<lparr>
     cpus := (cpus s)(me s := \<lparr>ncli = 0, intena = intena (cpus s (me s)), IF = intena (cpus s (me s))\<rparr>),
     locks := (locks s)(L_ptable := \<lparr>locked = 0, lk_cpu = None\<rparr>)\<rparr>)"
  using release_ungrab [of L_ptable s] assms by (simp add: in_section_def ungrab_def)

lemma sched_resume_eq:
  "curproc s = Some p \<Longrightarrow> sched_resume s = (Val (), set_cpu (\<lambda>c. c\<lparr>intena := p_intena (ptable s p)\<rparr>) s)"
  by (simp add: sched_resume_def with_cur_def kmod_def)

definition resumed :: "nat \<Rightarrow> (proc \<Rightarrow> proc) \<Rightarrow> bool \<Rightarrow> 'x ptst_scheme \<Rightarrow> 'x ptst_scheme" where
  "resumed p f i s = (upd_proc p f s)\<lparr>cpus := (cpus s)(me s := \<lparr>ncli = 0, intena = i, IF = i\<rparr>),
      locks := (locks s)(L_ptable := \<lparr>locked = 0, lk_cpu = None\<rparr>)\<rparr>"

lemma resume_proc_eq:
  assumes "resume_proc p s = (Val (), t)" and "curproc s = Some p" and "holding L_ptable s"
    and "ncli (cpus s (me s)) = 1" and "\<not> IF (cpus s (me s))"
  shows "\<exists>i f. t = resumed p f i s \<and> (\<forall>q. p_state (f q) = p_state q)"
proof -
  let ?i = "p_intena (ptable s p)"
  let ?u = "set_cpu (\<lambda>c. c\<lparr>intena := ?i\<rparr>) s"
  have u: "release L_ptable (upd_proc p f ?u) = (Val (), resumed p f ?i s)" for f
    using assms(3-5) by (subst release_last) (simp_all add: holding_def set_cpu_def resumed_def upd_proc_def)
  have id: "upd_proc p (\<lambda>q. q) x = x" for x :: "'a ptst_scheme" by (simp add: upd_proc_def)
  show ?thesis
  proof (cases "p_context (ptable s p)")
    case No_context
    then show ?thesis using assms(1) by (simp add: resume_proc_def kfail_def)
  next
    case At_forkret
    then have "t = resumed p (\<lambda>q. q) (intena (cpus s (me s))) s"
      using assms(1) release_last [OF assms(3-5)] by (simp add: resume_proc_def resumed_def id)
    then show ?thesis by blast
  next
    case At_sched
    have y: "yield_resume s = (Val (), resumed p (\<lambda>q. q) ?i s)"
      using u [of "\<lambda>q. q"] sched_resume_eq [OF assms(2)] by (simp add: yield_resume_def kbind_def id)
    have "sleep_tidy s = (Val (), resumed p (\<lambda>q. q\<lparr>p_chan := None\<rparr>) ?i s)"
      using u sched_resume_eq [OF assms(2)] assms(2)
      by (simp add: sleep_tidy_def with_cur_def kbind_def kget_def kmod_def)
    with y have "t = resumed p (\<lambda>q. q) ?i s \<or> t = resumed p (\<lambda>q. q\<lparr>p_chan := None\<rparr>) ?i s"
      using assms(1) At_sched by (auto simp: resume_proc_def split: if_splits)
    then show ?thesis by fastforce
  qed
qed

lemma start_inv:
  assumes inv: "sched_inv (s, pc)" and pc: "pc c = Idle"
    and st: "scheduler_start (at_cpu c s) = (Val (), s')"
  shows "sched_inv (s', pc(c := Scan 0))"
proof -
  let ?s = "set_cpu (\<lambda>c. c\<lparr>IF := True\<rparr>) (at_cpu c s)"
  have acq: "acquire L_ptable ?s = (Val (), s')"
    using st by (simp add: scheduler_start_def)
  then have "locked (locks ?s L_ptable) = 0"
    using acquire_busy [of ?s L_ptable] by auto
  then have free: "locked (locks s L_ptable) = 0" by (simp add: set_cpu_def)
  have "ncli (cpus s c) = 0" using sched_invD(3) [OF inv, of c] pc by (simp add: cpu_inv_def)
  then have s': "s' = (at_cpu c s)\<lparr>cpus := (cpus s)(c := \<lparr>ncli = 1, intena = True, IF = False\<rparr>),
      locks := (locks s)(L_ptable := \<lparr>locked = 1, lk_cpu = Some c\<rparr>)\<rparr>"
    using acq lock_inv_unlocked [OF sched_invD(2) [OF inv] free, of L_ptable]
    by (cases "cpus s c") (auto simp: acquire_def acquire_enter_def xchg_locked_def acquire_own_def
        pushcli_def lock_defs kmod_def kret_def kbind_def kget_def kwhen_def)
  show ?thesis
    using run_inv_move [OF sched_invD(1) [OF inv], of c "Scan 0"] pc lock_inv_take [OF sched_invD(2) [OF inv] free]
    by (intro sched_invI [OF _ _ _ _ inv, where k = "\<lparr>ncli = 1, intena = True, IF = False\<rparr>"])
      (simp_all add: s' cpu_inv_def)
qed

lemma scan_lock:
  assumes "sched_inv (s, pc)" and "pc c = Scan i"
  shows "holding L_ptable (at_cpu c s)" and "ncli (cpus s c) = 1" and "\<not> IF (cpus s c)"
  using lock_inv_ptable [OF sched_invD(2) [OF assms(1)], of c] sched_invD(3) [OF assms(1), of c] assms(2)
  by (simp_all add: holding_def cpu_inv_def scanning_def)

lemma finish_inv:
  assumes inv: "sched_inv (s, pc)" and pc: "pc c = Scan i"
    and st: "scheduler_finish (at_cpu c s) = (Val (), s')"
  shows "sched_inv (s', pc(c := Idle))"
proof -
  let ?b = "intena (cpus s c)"
  have s': "s' = (at_cpu c s)\<lparr>cpus := (cpus s)(c := \<lparr>ncli = 0, intena = ?b, IF = ?b\<rparr>),
      locks := (locks s)(L_ptable := \<lparr>locked = 0, lk_cpu = None\<rparr>)\<rparr>"
    using st release_last [of "at_cpu c s"] scan_lock [OF inv pc] by (simp add: scheduler_finish_def)
  show ?thesis
    using run_inv_move [OF sched_invD(1) [OF inv], of c Idle] pc
      lock_inv_free [OF sched_invD(2) [OF inv], of c Idle]
    by (intro sched_invI [OF _ _ _ _ inv, where k = "\<lparr>ncli = 0, intena = ?b, IF = ?b\<rparr>"])
      (simp_all add: s' cpu_inv_def scanning_def)
qed

lemma dispatch_inv:
  assumes inv: "sched_inv (s, pc)" and pc: "pc c = Scan p" and st: "p_state (ptable s p) = RUNNABLE"
    and sw: "scheduler_switch p (at_cpu c s) = (Val (), s1)" and rs: "resume_proc p s1 = (Val (), s')"
  shows "sched_inv (s', pc(c := Run p))"
proof -
  note l = scan_lock [OF inv pc]
  obtain e r where s1: "s1 = upd_proc p (\<lambda>q. q\<lparr>p_state := RUNNING\<rparr>)
      ((at_cpu c s)\<lparr>cur := (cur s)(c := Some p), ts_esp0 := e, cr3 := r\<rparr>)"
    using scheduler_switch_eq [OF sw] l by auto
  have "curproc s1 = Some p" "holding L_ptable s1" "ncli (cpus s1 (me s1)) = 1" "\<not> IF (cpus s1 (me s1))"
    using l by (simp_all add: s1 curproc_def holding_def)
  then obtain b f where s': "s' = resumed p f b s1" and f: "\<And>q. p_state (f q) = p_state q"
    using resume_proc_eq [OF rs] by auto
  have "(\<lambda>q. p_state (ptable s' q)) = (\<lambda>q. p_state (ptable s q))(p := RUNNING)"
    by (auto simp: s' s1 resumed_def f)
  moreover have "cur s' = (cur s)(c := Some p)"
    "locks s' = (locks s)(L_ptable := \<lparr>locked = 0, lk_cpu = None\<rparr>)"
    "cpus s' = (cpus s)(c := \<lparr>ncli = 0, intena = b, IF = b\<rparr>)"
    by (simp_all add: s' s1 resumed_def)
  ultimately show ?thesis
    using run_inv_enter [OF sched_invD(1) [OF inv] pc, of p] st
      lock_inv_free [OF sched_invD(2) [OF inv], of c "Run p"] pc
    by (intro sched_invI [OF _ _ _ _ inv, where k = "\<lparr>ncli = 0, intena = b, IF = b\<rparr>"])
      (simp_all add: cpu_inv_def scanning_def)
qed

lemma busy_fault:
  assumes "locked (locks s lk) \<noteq> 0" shows "\<exists>t. acquire lk s = (Fault (Spins lk), t) \<or> acquire lk s = (Fault (Panic ''acquire''), t)"
  using assms
  by (auto simp: acquire_def acquire_enter_def pushcli_def xchg_locked_def lock_defs kmod_def kret_def
      kbind_def kget_def kwhen_def kfail_def)

lemma stop_lock:
  assumes "kthen (acquire lk) g s = (Fault e, t)" and "e = Yields \<or> e = Exits \<or> e = Sleeps ch"
  shows "locked (locks s lk) = 0"
proof (rule ccontr)
  assume "locked (locks s lk) \<noteq> 0"
  then obtain t' where "acquire lk s = (Fault (Spins lk), t') \<or> acquire lk s = (Fault (Panic ''acquire''), t')"
    using busy_fault by blast
  then show False using assms by (auto simp: kbind_def)
qed

lemma sleep_free:
  assumes inv: "sched_inv (s, pc)" and pc: "pc c = Run p" and lk: "lk \<noteq> L_ptable"
    and sl: "kthen (acquire lk) (Xv6_Proc.sleep ch lk) (at_cpu c s) = (Fault (Sleeps ch), s1)"
  shows "locked (locks s L_ptable) = 0"
proof -
  have "locks s lk = \<lparr>locked = 0, lk_cpu = None\<rparr>"
    using sched_invD(2) [OF inv] lk unfolding lock_inv_def by blast
  then have take: "can_take lk (at_cpu c s)"
    using sched_invD(3) [OF inv, of c] pc by (simp add: can_take_def cpu_inv_def cpu_sane_def)
  have "cur s c = Some p" using sched_invD(1) [OF inv] pc by (simp add: run_inv_def)
  show ?thesis
  proof (rule ccontr)
    assume "locked (locks s L_ptable) \<noteq> 0"
    then have "locked (locks (grab lk (at_cpu c s)) L_ptable) \<noteq> 0" using lk by simp
    then obtain t where "acquire L_ptable (grab lk (at_cpu c s)) = (Fault (Spins L_ptable), t) \<or>
        acquire L_ptable (grab lk (at_cpu c s)) = (Fault (Panic ''acquire''), t)"
      using busy_fault by blast
    then show False
      using sl acquire_grab [OF take] lk \<open>cur s c = Some p\<close>
      by (auto simp: sleep_def kbind_def kget_def)
  qed
qed

lemma step_inv:
  assumes "sched_step st st'" and "sched_inv st"
  shows "sched_inv st'"
  using assms
proof (induction rule: sched_step.induct)
  case (start pc c s s')
  then show ?case by (intro start_inv)
next
  case (skip pc c i s)
  then have "run_inv (\<lambda>p. p_state (ptable s p)) (cur s) (pc(c := Scan (Suc i)))"
    "lock_inv (locks s) (pc(c := Scan (Suc i)))"
    using run_inv_move sched_invD(1) [OF skip.prems] lock_inv_move [OF sched_invD(2) [OF skip.prems]]
    by (simp_all add: scanning_def)
  then show ?case
    using sched_invD(3) [OF skip.prems, of c] skip.hyps(1)
    by (intro sched_invI [OF _ _ _ _ skip.prems, where k = "cpus s c"]) (simp_all add: cpu_inv_def)
next
  case (dispatch pc c i s s1 s')
  then show ?case by (intro dispatch_inv)
next
  case (yield pc c p s s1 s')
  have lk: "locked (locks s L_ptable) = 0"
    using stop_lock [OF yield.hyps(2) [unfolded yield_def]] by simp
  then have "s1 = suspended p (upd_proc p (\<lambda>q. q\<lparr>p_state := RUNNABLE\<rparr>) (grab L_ptable (at_cpu c s)))"
    using yield.hyps(2) yield_eq [of "at_cpu c s" p] run_can_take [OF yield.prems yield.hyps(1)] by simp
  then show ?case
    using leave_inv [OF yield.prems yield.hyps(1) lk, of "\<lambda>q. q\<lparr>p_state := RUNNABLE\<rparr>" RUNNABLE]
      yield.hyps(3) by simp
next
  case (sleep pc c p lk ch s s1 s')
  have free: "locked (locks s L_ptable) = 0" by (rule sleep_free [OF sleep.prems sleep.hyps(1-3)])
  have "s1 = suspended p (upd_proc p (\<lambda>q. q\<lparr>p_chan := Some ch, p_state := SLEEPING\<rparr>) (grab L_ptable (at_cpu c s)))"
  proof -
    have "kthen (acquire lk) (Xv6_Proc.sleep ch lk) (at_cpu c s) = (Fault (Sleeps ch) :: unit outcome,
        suspended p (upd_proc p (\<lambda>q. q\<lparr>p_chan := Some ch, p_state := SLEEPING\<rparr>) (grab L_ptable (at_cpu c s))))"
      using sleep.hyps(2) run_can_take [OF sleep.prems sleep.hyps(1) free] by (intro sleep_eq) simp_all
    then show ?thesis using sleep.hyps(3) by simp
  qed
  then show ?case
    using leave_inv [OF sleep.prems sleep.hyps(1) free, of "\<lambda>q. q\<lparr>p_chan := Some ch, p_state := SLEEPING\<rparr>" SLEEPING]
      sleep.hyps(4) by simp
next
  case (exit pc c p s s1 s')
  have lk: "locked (locks s L_ptable) = 0" using stop_lock [OF exit.hyps(2)] by simp
  have "s1 = suspended p (upd_proc p (\<lambda>q. q\<lparr>p_state := ZOMBIE\<rparr>) (grab L_ptable (at_cpu c s)))"
  proof -
    have "kthen (acquire L_ptable) exit_sched (at_cpu c s) = (Fault Exits :: unit outcome,
        suspended p (upd_proc p (\<lambda>q. q\<lparr>p_state := ZOMBIE\<rparr>) (grab L_ptable (at_cpu c s))))"
      using run_can_take [OF exit.prems exit.hyps(1) lk] by (intro exit_sched_eq) simp_all
    then show ?thesis using exit.hyps(2) by simp
  qed
  then show ?case
    using leave_inv [OF exit.prems exit.hyps(1) lk, of "\<lambda>q. q\<lparr>p_state := ZOMBIE\<rparr>" ZOMBIE]
      exit.hyps(3) by simp
next
  case (wakeup pc c p ch s s')
  then show ?case
    by (intro section_inv [OF wakeup.prems wakeup.hyps(1) wakeup.hyps(2) [unfolded wakeup_def]
          oblivious_wakeup1 wakeup1_eq]) (simp_all add: map_procs_def woken_def)
next
  case (kill pc c p pid s r s')
  obtain y t where "kill_body pid (at_cpu c s) = (Val y, t)" "cur t = cur s"
    "\<And>p. p_state (ptable t p) = RUNNING \<longleftrightarrow> p_state (ptable s p) = RUNNING"
    using kill_keeps [of pid "at_cpu c s"] by (auto simp: keeps_running_def)
  then show ?case
    by (rule section_inv [OF kill.prems kill.hyps(1) kill.hyps(2) [unfolded kill_def] oblivious_kill_body])
next
  case (alloc pc c p s r' s')
  obtain y t where "allocproc_find (at_cpu c s) = (Val y, t)" "cur t = cur s"
    "\<And>p. p_state (ptable t p) = RUNNING \<longleftrightarrow> p_state (ptable s p) = RUNNING"
    using alloc_keeps [of "at_cpu c s"] by (auto simp: keeps_running_def)
  then show ?case
    by (rule section_inv [OF alloc.prems alloc.hyps(1,2) oblivious_allocproc_find])
next
  case (publish pc c p s q s')
  then show ?case
    by (intro section_upd_inv [OF publish.prems publish.hyps(1) publish.hyps(3) [unfolded set_runnable_def]]) simp_all
next
  case (collect pc c p s q s')
  then show ?case
    by (intro section_upd_inv [OF collect.prems collect.hyps(1) collect.hyps(3) [unfolded collect_def]]) simp_all
next
  case (finish pc c s s')
  then show ?case by (intro finish_inv)
qed

lemma reach_inv: "sched_reach st \<Longrightarrow> sched_inv st"
proof (induction rule: sched_reach.induct)
  case (init st)
  then show ?case
    by (cases st) (auto simp: sched_init_def sched_inv_def run_inv_def lock_inv_def scanning_def cpu_inv_def)
next
  case (step st st')
  show ?case by (rule step_inv [OF step.hyps(2) step.IH])
qed

text \<open>
  C19: Under every interleaving of the CPUs, a process is in state \<open>RUNNING\<close> exactly when one CPU
  runs it, that CPU is unique and \<open>cpu->proc\<close> names the process, and at most one CPU holds
  \<open>ptable.lock\<close>, the one that scans the table.
\<close>

theorem scheduler_exclusive:
  assumes "sched_reach (s, pc)"
  shows "(p_state (ptable s p) = RUNNING) = (\<exists>!c. pc c = Run p) \<and>
    (pc c = Run p) = (cur s c = Some p) \<and>
    (lk_cpu (locks s L_ptable) = Some d) = (\<exists>i. pc d = Scan i)"
proof (intro conjI)
  note inv = sched_invD [OF reach_inv [OF assms]]
  show "(p_state (ptable s p) = RUNNING) = (\<exists>!c. pc c = Run p)"
    using inv(1) unfolding run_inv_def by metis
  show "(pc c = Run p) = (cur s c = Some p)"
    using inv(1) unfolding run_inv_def by metis
  show "(lk_cpu (locks s L_ptable) = Some d) = (\<exists>i. pc d = Scan i)"
    by (rule lock_holder [OF inv(2)])
qed

theorem scheduler_exclusive_witness:
  "\<exists>s. sched_reach (s, (\<lambda>_. Idle)(0 := Scan 0)) \<and> lk_cpu (locks s L_ptable) = Some 0"
proof -
  let ?s = "pt_ex None id"
  have "sched_init (?s, \<lambda>_. Idle)"
    by (simp add: sched_init_def) (simp add: pt_ex_def proc0_def)
  then have r: "sched_reach (?s, \<lambda>_. Idle)" by (rule sched_reach.init)
  obtain s where "scheduler_start (at_cpu 0 ?s) = (Val (), s)"
    by (simp add: scheduler_start_def acquire_def acquire_enter_def xchg_locked_def acquire_own_def
        pushcli_def lock_defs kmod_def kret_def kbind_def kget_def kwhen_def at_cpu_def)
  then have "sched_step (?s, \<lambda>_. Idle) (s, (\<lambda>_. Idle)(0 := Scan 0))"
    by (intro sched_step.start) simp_all
  then have r': "sched_reach (s, (\<lambda>_. Idle)(0 := Scan 0))" by (rule sched_reach.step [OF r])
  then show ?thesis
    using scheduler_exclusive [OF r', of undefined undefined 0] by auto
qed




end
