(* ===== verification/Xv6_Signal.thy ===== *)
theory Xv6_Signal
  imports Xv6_Proc
begin

text \<open>
  Signals and alarms.  The file \<open>proc.c\<close> holds two versions of this code, the two sides of an
  unresolved merge: the functions at its end (the side \<open>HEAD\<close>) and those in the block named
  \<open>task 1B\<close> to \<open>task 1D\<close>.  The first are modelled under their own names, the second under their
  names or, where both sides use the same one, with the suffix \<open>_theirs\<close>.

  To run a handler the kernel pushes on the user stack the code of \<open>sigretwrapper\<close>, a marker, a copy
  of the trap frame, the signal number and the address of the pushed code.  The code itself is
  compiler output: the parameter \<open>wrap\<close>, a list of bytes.  Text that the functions print is not
  part of the state.
\<close>

section \<open>Trap frames as bytes\<close>

definition bytes32 :: "u32 \<Rightarrow> u8 list" where
  "bytes32 w = [ucast w, ucast (drop_bit 8 w), ucast (drop_bit 16 w), ucast (drop_bit 24 w)]"

definition bytes16 :: "u16 \<Rightarrow> u8 list" where
  "bytes16 w = [ucast w, ucast (drop_bit 8 w)]"

definition word32_at :: "u8 list \<Rightarrow> nat \<Rightarrow> u32" where
  "word32_at bs i = ucast (bs ! i) OR push_bit 8 (ucast (bs ! (i + 1))) OR
     push_bit 16 (ucast (bs ! (i + 2))) OR push_bit 24 (ucast (bs ! (i + 3)))"

definition word16_at :: "u8 list \<Rightarrow> nat \<Rightarrow> u16" where
  "word16_at bs i = ucast (bs ! i) OR push_bit 8 (ucast (bs ! (i + 1)))"

text \<open>The memory layout of \<open>struct trapframe\<close>, 76 bytes.\<close>

definition tf_bytes :: "trapframe \<Rightarrow> u8 list" where
  "tf_bytes t = concat [bytes32 (tf_edi t), bytes32 (tf_esi t), bytes32 (tf_ebp t), bytes32 (tf_oesp t),
     bytes32 (tf_ebx t), bytes32 (tf_edx t), bytes32 (tf_ecx t), bytes32 (tf_eax t),
     bytes16 (tf_gs t), bytes16 (tf_padding1 t), bytes16 (tf_fs t), bytes16 (tf_padding2 t),
     bytes16 (tf_es t), bytes16 (tf_padding3 t), bytes16 (tf_ds t), bytes16 (tf_padding4 t),
     bytes32 (tf_trapno t), bytes32 (tf_err t), bytes32 (tf_eip t),
     bytes16 (tf_cs t), bytes16 (tf_padding5 t), bytes32 (tf_eflags t),
     bytes32 (tf_esp t), bytes16 (tf_ss t), bytes16 (tf_padding6 t)]"

definition tf_of_bytes :: "u8 list \<Rightarrow> trapframe" where
  "tf_of_bytes b = \<lparr>tf_edi = word32_at b 0, tf_esi = word32_at b 4, tf_ebp = word32_at b 8,
     tf_oesp = word32_at b 12, tf_ebx = word32_at b 16, tf_edx = word32_at b 20,
     tf_ecx = word32_at b 24, tf_eax = word32_at b 28,
     tf_gs = word16_at b 32, tf_padding1 = word16_at b 34, tf_fs = word16_at b 36,
     tf_padding2 = word16_at b 38, tf_es = word16_at b 40, tf_padding3 = word16_at b 42,
     tf_ds = word16_at b 44, tf_padding4 = word16_at b 46,
     tf_trapno = word32_at b 48, tf_err = word32_at b 52, tf_eip = word32_at b 56,
     tf_cs = word16_at b 60, tf_padding5 = word16_at b 62, tf_eflags = word32_at b 64,
     tf_esp = word32_at b 68, tf_ss = word16_at b 72, tf_padding6 = word16_at b 74\<rparr>"

section \<open>The functions at the end of \<open>proc.c\<close>\<close>

definition DPL_USER :: u16 where "DPL_USER = 3"

text \<open>\<open>has_lk = holding(...); if (!has_lk) acquire(...); ...; if (!has_lk) release(...)\<close>\<close>

definition maybe_locked :: "('x ptst_scheme, 'a) K \<Rightarrow> ('x ptst_scheme, 'a) K" where
  "maybe_locked f =
     kbind (kget (holding L_ptable)) (\<lambda>has_lk. if has_lk then f else with_lock L_ptable f)"

definition signal :: "int \<Rightarrow> u32 \<Rightarrow> ('x ptst_scheme, u32) K" where
  "signal signum handler =
     (if signum < 0 \<or> signum \<ge> int NUMSIG then kret (-1)
      else
      with_cur (\<lambda>p.
      kbind (kget (\<lambda>s. p_handlers (ptable s p) (nat signum))) (\<lambda>old_handler.
      kthen (maybe_locked (kmod (upd_proc p
        (\<lambda>q. q\<lparr>p_handlers := (p_handlers q)(nat signum := handler)\<rparr>))))
      (kret old_handler))))"

definition sigsend_body :: "u32 \<Rightarrow> nat \<Rightarrow> ('x ptst_scheme, int) K" where
  "sigsend_body pid signum =
     kbind (kget (\<lambda>s. find (\<lambda>i. p_pid (ptable s i) = pid) [0..<NPROC])) (\<lambda>r.
     case r of
       None \<Rightarrow> kret (-1)
     | Some p \<Rightarrow>
         kthen (kmod (upd_proc p (\<lambda>q. q\<lparr>p_pending := p_pending q OR push_bit signum 1\<rparr>))) (kret 0))"

definition sigsend :: "u32 \<Rightarrow> int \<Rightarrow> ('x ptst_scheme, int) K" where
  "sigsend pid signum =
     (if signum < 0 \<or> signum \<ge> int NUMSIG then kret (-1)
      else maybe_locked (sigsend_body pid (nat signum)))"

text \<open>
  Looks for the marker from \<open>sp\<close> upwards; nothing bounds the search, so it has fuel.
\<close>

fun findTrapframe :: "nat \<Rightarrow> u32 \<Rightarrow> ('x ptst_scheme, u32) K" where
  "findTrapframe 0 ans = kfail Diverges"
| "findTrapframe (Suc n) ans =
     kbind (user_get ans 4) (\<lambda>runner.
     if word32_at runner 0 \<noteq> 0xABCDEF then findTrapframe n (ans + 4)
     else kret (ans - 76))"

text \<open>\<open>memmove\<close> returns its first argument, so the test \<open>< 0\<close> never succeeds.\<close>

definition sigreturn :: "('x ptst_scheme, int) K" where
  "sigreturn =
     maybe_locked (with_cur (\<lambda>p.
     kbind (kget (\<lambda>s. tf_ebp (p_tf (ptable s p)))) (\<lambda>ebp.
     kbind (user_get (ebp + 8) 76) (\<lambda>b.
     kthen (kmod (upd_proc p (\<lambda>q. q\<lparr>p_tf := tf_of_bytes b\<rparr>)))
     (kthen (kmod (upd_proc p (\<lambda>q. q\<lparr>p_isHandlingsignal := 0\<rparr>)))
     (kret 0))))))"

text \<open>The frame for the handler of \<open>signum\<close>; five pushes and the new registers.\<close>

definition push_frame :: "u8 list \<Rightarrow> nat \<Rightarrow> nat \<Rightarrow> ('x ptst_scheme, unit) K" where
  "push_frame wrap p signum =
     kbind (kget (\<lambda>s. p_tf (ptable s p))) (\<lambda>tf.
     let nesp = tf_esp tf - of_nat (length wrap); retAddress = nesp in
     kthen (user_put nesp wrap)
     (let nesp = nesp - 4 in
     kthen (user_put nesp (bytes32 0xABCDEF))
     (let nesp = nesp - 76 in
     kthen (user_put nesp (tf_bytes tf))
     (let nesp = nesp - 4 in
     kthen (user_put nesp (bytes32 (of_nat signum)))
     (let nesp = nesp - 4 in
     kthen (user_put nesp (bytes32 retAddress))
     (maybe_locked (kmod (upd_proc p (\<lambda>q. q\<lparr>p_tf := (p_tf q)\<lparr>
        tf_eip := p_handlers q signum, tf_ebp := nesp, tf_esp := nesp\<rparr>\<rparr>)))))))))"

definition checkPEndingSignals :: "u8 list \<Rightarrow> trapframe \<Rightarrow> ('x ptst_scheme, unit) K" where
  "checkPEndingSignals wrap tf =
     kbind (kget curproc) (\<lambda>c.
     case c of
       None \<Rightarrow> kret ()
     | Some p \<Rightarrow>
         kbind (kget (\<lambda>s. ptable s p)) (\<lambda>q.
         if p_pending q = 0 \<or> p_isHandlingsignal q \<noteq> 0 \<or> tf_cs tf AND 3 \<noteq> DPL_USER then kret ()
         else
         case find (\<lambda>i. p_pending q AND push_bit i 1 \<noteq> 0) [0..<NUMSIG] of
           None \<Rightarrow> kret ()
         | Some signum \<Rightarrow>
             kthen (maybe_locked (kmod (upd_proc p
               (\<lambda>q. q\<lparr>p_pending := p_pending q XOR push_bit signum 1\<rparr>))))
             (if p_handlers q signum \<noteq> 0 then push_frame wrap p signum else kret ())))"

definition alarm_body :: "int \<Rightarrow> nat \<Rightarrow> ('x ptst_scheme, unit) K" where
  "alarm_body tic p =
     kthen (kmod (upd_proc p (\<lambda>q.
       if tic = 0 \<and> p_pending q AND push_bit SIGALRM 1 \<noteq> 0
       then q\<lparr>p_pending := p_pending q XOR push_bit SIGALRM 1\<rparr> else q)))
     (kmod (upd_proc p (\<lambda>q. q\<lparr>p_alarmFlag := of_int tic\<rparr>)))"

definition alarm :: "int \<Rightarrow> ('x ptst_scheme, int) K" where
  "alarm tic =
     with_cur (\<lambda>p.
     kthen (maybe_locked (alarm_body tic p))
     (kget (\<lambda>s. sint (p_alarmFlag (ptable s p)))))"

text \<open>\<open>alarmFlag\<close> is unsigned here: \<open>> 0\<close> means not zero.\<close>

definition alarm_step :: "nat \<Rightarrow> ('x ptst_scheme, unit) K" where
  "alarm_step p =
     kbind (kget (\<lambda>s. p_alarmFlag (ptable s p))) (\<lambda>a.
     kwhen (a > 0)
      (kthen (kmod (upd_proc p (\<lambda>q. q\<lparr>p_alarmFlag := p_alarmFlag q - 1\<rparr>)))
      (kbind (kget (\<lambda>s. ptable s p)) (\<lambda>q.
       kwhen (p_alarmFlag q = 0)
         (kthen (sigsend (p_pid q) (int SIGALRM)) (kret ()))))))"

definition updateAlarms :: "('x ptst_scheme, unit) K" where
  "updateAlarms = maybe_locked (kfor [0..<NPROC] alarm_step)"

section \<open>The functions of the other side\<close>

definition signal_theirs :: "int \<Rightarrow> u32 \<Rightarrow> ('x ptst_scheme, u32) K" where
  "signal_theirs signum handler =
     kbind (kget curproc) (\<lambda>c.
     case c of
       None \<Rightarrow> kret (-1)
     | Some p \<Rightarrow>
         if signum < 0 \<or> signum \<ge> int NUMSIG then kret (-1)
         else
         kbind (kget (\<lambda>s. p_handlers (ptable s p) (nat signum))) (\<lambda>oldHandler.
         kthen (kmod (upd_proc p (\<lambda>q. q\<lparr>p_handlers := (p_handlers q)(nat signum := handler)\<rparr>)))
         (kret oldHandler)))"

text \<open>Sets the bit in \<open>proc->pending\<close>, the caller's, not in \<open>p->pending\<close>.\<close>

definition sigsend_theirs :: "u32 \<Rightarrow> nat \<Rightarrow> ('x ptst_scheme, int) K" where
  "sigsend_theirs pid signum =
     kbind (with_lock L_ptable (
       kbind (kget (\<lambda>s. find (\<lambda>i. p_pid (ptable s i) = pid) [0..<NPROC])) (\<lambda>r.
       case r of
         None \<Rightarrow> kret False
       | Some p \<Rightarrow>
           kthen (with_cur (\<lambda>me'. kmod (upd_proc me'
             (\<lambda>q. q\<lparr>p_pending := p_pending q OR push_bit signum 1\<rparr>)))) (kret True)))) (\<lambda>found.
     kret (if found then 0 else -1))"

definition sigreturn_theirs :: "('x ptst_scheme, int) K" where
  "sigreturn_theirs =
     kthen (maybe_locked (with_cur (\<lambda>p.
       kbind (kget (\<lambda>s. tf_ebp (p_tf (ptable s p)))) (\<lambda>ebp.
       kbind (user_get (ebp + 8) 76) (\<lambda>b.
       kmod (upd_proc p (\<lambda>q. q\<lparr>p_tf := tf_of_bytes b\<rparr>))))))) (kret 0)"

text \<open>
  The loop that finds the highest pending signal: \<open>for (sigNum = -1; runner != 0; runner >>= 1)
  sigNum++\<close>.
\<close>

function top_signal :: "u32 \<Rightarrow> int \<Rightarrow> int" where
  "top_signal runner sigNum = (if runner \<noteq> 0 then top_signal (drop_bit 1 runner) (sigNum + 1) else sigNum)"
  by pat_completeness auto
termination
proof (relation "measure (\<lambda>(r, n). unat r)")
  fix r :: u32 and n :: int
  assume "r \<noteq> 0"
  then have "0 < unat r" by (simp add: unat_gt_0)
  moreover have "unat (drop_bit 1 r) = unat r div 2" by (simp add: drop_bit_eq_div unat_div)
  ultimately show "((drop_bit 1 r, n + 1), r, n) \<in> measure (\<lambda>(r, n). unat r)" by simp
qed simp

declare top_signal.simps [simp del]

definition checkPendingSignals :: "u8 list \<Rightarrow> ('x ptst_scheme, unit) K" where
  "checkPendingSignals wrap =
     kbind (kget curproc) (\<lambda>c.
     case c of
       None \<Rightarrow> kret ()
     | Some p \<Rightarrow>
         kbind (kget (\<lambda>s. ptable s p)) (\<lambda>q.
         if tf_cs (p_tf q) AND 3 \<noteq> DPL_USER \<or> p_pending q = 0 then kret ()
         else
         let sigNum = (if p_pending q = 1 then 0 else nat (top_signal (p_pending q) (-1))) in
         kthen (kmod (upd_proc p (\<lambda>q. q\<lparr>p_pending := p_pending q - push_bit sigNum 1\<rparr>)))
         (if p_handlers q sigNum = 0 then kret () else push_frame wrap p sigNum)))"

text \<open>\<open>alarmFlag\<close> is an \<open>int\<close> here.\<close>

definition updateAlarams :: "('x ptst_scheme, unit) K" where
  "updateAlarams =
     kfor [0..<NPROC] (\<lambda>p.
     kbind (kget (\<lambda>s. sint (p_alarmFlag (ptable s p)))) (\<lambda>a.
     kwhen (a > 0)
      (kthen (kmod (upd_proc p (\<lambda>q. q\<lparr>p_alarmFlag := p_alarmFlag q - 1\<rparr>)))
       (kbind (kget (\<lambda>s. p_alarmFlag (ptable s p))) (\<lambda>a'.
        kwhen (a' = 0) (kmod (upd_proc p (\<lambda>q. q\<lparr>p_pending := p_pending q OR push_bit 14 1\<rparr>))))))))"

text \<open>\<open>~1<<14\<close> is \<open>(~1)<<14\<close>: the bits 0 to 14 are clear in it.\<close>

definition alarm_theirs :: "int \<Rightarrow> ('x ptst_scheme, int) K" where
  "alarm_theirs ti =
     (if ti < 0 then kret (-1)
      else
      let temp = push_bit 14 (NOT 1) in
      with_cur (\<lambda>p.
      if ti = 0 then kthen (kmod (upd_proc p (\<lambda>q. q\<lparr>p_pending := p_pending q AND temp\<rparr>))) (kret 0)
      else kthen (kmod (upd_proc p (\<lambda>q. q\<lparr>p_alarmFlag := of_int ti\<rparr>))) (kret 0)))"

section \<open>Saving and restoring the registers\<close>

lemma split_bytes16:
  fixes w :: u16
  shows "ucast (ucast w :: u8) OR push_bit 8 (ucast (ucast (drop_bit 8 w) :: u8)) = w" (is "?l = w")
proof (rule bit_word_eqI)
  fix n :: nat
  assume "n < LENGTH(16)"
  then consider "n < 8" | "8 \<le> n" "n < 16" by fastforce
  then show "bit ?l n = bit w n" by cases (auto simp: bit_simps)
qed

lemma length_bytes [simp]: "length (bytes32 w) = 4" "length (bytes16 h) = 2" "length (tf_bytes t) = 76"
  by (simp_all add: bytes32_def bytes16_def tf_bytes_def)

lemma tf_roundtrip: "tf_of_bytes (tf_bytes t) = t"
  by (simp add: tf_of_bytes_def tf_bytes_def bytes32_def bytes16_def word32_at_def word16_at_def
      split_bytes32 split_bytes16)

lemma oblivious_user_get [obl]: "oblivious (user_get va n)"
  by (simp add: oblivious_def user_get_def split: option.splits)

lemma oblivious_with_cur [obl]: "(\<And>p. oblivious (f p)) \<Longrightarrow> oblivious (with_cur f)"
  unfolding with_cur_def by (intro obl) simp_all

lemma maybe_locked_Val:
  assumes "oblivious f" and "holding L_ptable s \<or> can_take L_ptable s" and "f s = (Val x, t)"
  shows "maybe_locked f s = (Val x, t)"
  using assms with_lock_Val [OF assms(1) _ assms(3)] by (auto simp: maybe_locked_def)

text \<open>The kernel reaches this code with \<open>ptable.lock\<close> held or free.\<close>

definition lock_usable :: "'x ptst_scheme \<Rightarrow> bool" where
  "lock_usable s = (holding L_ptable s \<or> can_take L_ptable s)"

lemma lock_usable_upd [simp]:
  "lock_usable (s\<lparr>mem := m\<rparr>) = lock_usable s" "lock_usable (upd_proc p f s) = lock_usable s"
  by (simp_all add: lock_usable_def holding_def can_take_def)

lemma maybe_locked_upd:
  "lock_usable s \<Longrightarrow> maybe_locked (kmod (upd_proc p f)) s = (Val (), upd_proc p f s)"
  by (intro maybe_locked_Val obl) (simp_all add: lock_usable_def kmod_def)

text \<open>
  The user stack below \<open>esp\<close> has room for \<open>n\<close> bytes in a well-formed address space.
\<close>

definition stack_room :: "memory \<Rightarrow> u32 \<Rightarrow> u32 \<Rightarrow> nat \<Rightarrow> bool" where
  "stack_room m pgdir esp n =
     ((\<exists>ok F. aspace_wf ok pgdir F m) \<and> n \<le> unat esp \<and> unat esp \<le> unat KERNBASE \<and>
      (\<forall>x. unat esp - n \<le> unat x \<longrightarrow> unat x < unat esp \<longrightarrow> uload pgdir m x \<noteq> None))"

text \<open>A stack at \<open>sp\<close> that holds \<open>cs\<close> and has room for \<open>n\<close> more bytes.\<close>

definition stack_at ::
  "(u32 \<Rightarrow> bool) \<Rightarrow> u32 \<Rightarrow> u32 set \<Rightarrow> memory \<Rightarrow> u32 \<Rightarrow> u8 list \<Rightarrow> nat \<Rightarrow> bool" where
  "stack_at ok pgdir F m sp cs n =
     (aspace_wf ok pgdir F m \<and> unat sp + length cs \<le> unat KERNBASE \<and> n \<le> unat sp \<and>
      get_bytes (uload pgdir) m sp (length cs) = Some cs \<and>
      (\<forall>x. unat sp - n \<le> unat x \<longrightarrow> unat x < unat sp \<longrightarrow> uload pgdir m x \<noteq> None))"

lemma user_push:
  assumes "stack_at ok pgdir F m sp cs (l + n)" and "length bs = l" and "pgdir = P2V (cr3 s)"
  shows "\<exists>m'. user_put (sp - of_nat l) bs (s\<lparr>mem := m\<rparr>) = (Val (), s\<lparr>mem := m'\<rparr>) \<and>
     unat (sp - of_nat l) = unat sp - l \<and> stack_at ok pgdir F m' (sp - of_nat l) (bs @ cs) n"
proof -
  have wf: "aspace_wf ok pgdir F m" and lim: "length bs \<le> unat sp" "unat sp + length cs \<le> unat KERNBASE" "l + n \<le> unat sp"
    and get: "get_bytes (uload pgdir) m sp (length cs) = Some cs"
    and room: "\<And>x. unat sp - (l + n) \<le> unat x \<Longrightarrow> unat x < unat sp \<Longrightarrow> uload pgdir m x \<noteq> None"
    using assms(1,2) by (auto simp: stack_at_def)
  have "unat (of_nat l :: u32) = l"
    using lim(1) assms(2) unat32_less [of sp] by (simp add: unat_of_nat)
  then have sp: "unat (sp - of_nat l) = unat sp - l" using lim(1) assms(2) by (simp add: unat_sub32)
  have room': "uload pgdir m x \<noteq> None" if "unat sp - length bs \<le> unat x" "unat x < unat sp" for x
    using that assms(2) by (intro room) simp_all
  obtain m' where m': "put_bytes (ustore pgdir) m (sp - of_nat l) bs = Some m'" "aspace_wf ok pgdir F m'"
    "get_bytes (uload pgdir) m' (sp - of_nat l) (length bs + length cs) = Some (bs @ cs)"
    "\<forall>x < KERNBASE. uload pgdir m x \<noteq> None \<longrightarrow> uload pgdir m' x \<noteq> None"
    using um.push [OF wf lim(1,2) get room'] assms(2) by blast
  have "uload pgdir m' x \<noteq> None" if "unat sp - l - n \<le> unat x" "unat x < unat sp - l" for x
    using m'(4) room [of x] that lim by (simp add: word_less_nat_alt)
  then have "stack_at ok pgdir F m' (sp - of_nat l) (bs @ cs) n"
    using m'(2,3) lim assms(2) by (simp add: stack_at_def sp)
  then show ?thesis using m'(1) sp assms(3) by (auto simp: user_put_def)
qed

definition frame_sp :: "u8 list \<Rightarrow> u32 \<Rightarrow> u32" where
  "frame_sp wrap esp = esp - of_nat (length wrap) - 88"

definition frame_bytes :: "u8 list \<Rightarrow> trapframe \<Rightarrow> nat \<Rightarrow> u8 list" where
  "frame_bytes wrap tf signum =
     bytes32 (tf_esp tf - of_nat (length wrap)) @ bytes32 (of_nat signum) @ tf_bytes tf @ bytes32 0xABCDEF @ wrap"

lemma push_frame_ok:
  fixes s :: "'x ptst_scheme"
  assumes "lock_usable s" and "p_tf (ptable s p) = tf" and "pgdir = P2V (cr3 s)"
    and "stack_room (mem s) pgdir (tf_esp tf) (length wrap + 88)"
  shows "\<exists>m' ok F. push_frame wrap p signum s = (Val (),
       upd_proc p (\<lambda>q. q\<lparr>p_tf := (p_tf q)\<lparr>tf_eip := p_handlers q signum,
         tf_ebp := frame_sp wrap (tf_esp tf), tf_esp := frame_sp wrap (tf_esp tf)\<rparr>\<rparr>) (s\<lparr>mem := m'\<rparr>)) \<and>
     aspace_wf ok pgdir F m' \<and> unat (frame_sp wrap (tf_esp tf)) = unat (tf_esp tf) - (length wrap + 88) \<and>
     get_bytes (uload pgdir) m' (frame_sp wrap (tf_esp tf)) (length wrap + 88) = Some (frame_bytes wrap tf signum)"
proof -
  let ?n = "length wrap" and ?e = "tf_esp tf"
  obtain ok F where "stack_at ok pgdir F (mem s) ?e [] (?n + 88)"
    using assms(4) by (auto simp: stack_room_def stack_at_def)
  from user_push [OF this refl assms(3)] obtain m1 where
    m1: "user_put (?e - of_nat ?n) wrap s = (Val (), s\<lparr>mem := m1\<rparr>)" "unat (?e - of_nat ?n) = unat ?e - ?n"
      "stack_at ok pgdir F m1 (?e - of_nat ?n) wrap (4 + 84)" by auto
  from user_push [OF m1(3) length_bytes(1) assms(3), of "0xABCDEF"] obtain m2 where
    m2: "user_put (?e - of_nat ?n - 4) (bytes32 0xABCDEF) (s\<lparr>mem := m1\<rparr>) = (Val (), s\<lparr>mem := m2\<rparr>)"
      "stack_at ok pgdir F m2 (?e - of_nat ?n - 4) (bytes32 0xABCDEF @ wrap) (76 + 8)"
      "unat (?e - of_nat ?n - 4) = unat ?e - (?n + 4)" by (auto simp: m1(2))
  from user_push [OF m2(2) length_bytes(3) assms(3), of tf] obtain m3 where
    m3: "user_put (?e - of_nat ?n - 80) (tf_bytes tf) (s\<lparr>mem := m2\<rparr>) = (Val (), s\<lparr>mem := m3\<rparr>)"
      "stack_at ok pgdir F m3 (?e - of_nat ?n - 80) (tf_bytes tf @ bytes32 0xABCDEF @ wrap) (4 + 4)"
      "unat (?e - of_nat ?n - 80) = unat ?e - (?n + 80)" by (auto simp: m2(3))
  from user_push [OF m3(2) length_bytes(1) assms(3), of "of_nat signum"] obtain m4 where
    m4: "user_put (?e - of_nat ?n - 84) (bytes32 (of_nat signum)) (s\<lparr>mem := m3\<rparr>) = (Val (), s\<lparr>mem := m4\<rparr>)"
      "stack_at ok pgdir F m4 (?e - of_nat ?n - 84)
         (bytes32 (of_nat signum) @ tf_bytes tf @ bytes32 0xABCDEF @ wrap) (4 + 0)"
      "unat (?e - of_nat ?n - 84) = unat ?e - (?n + 84)" by (auto simp: m3(3))
  from user_push [OF m4(2) length_bytes(1) assms(3), of "?e - of_nat ?n"] obtain m5 where
    m5: "user_put (frame_sp wrap ?e) (bytes32 (?e - of_nat ?n)) (s\<lparr>mem := m4\<rparr>) = (Val (), s\<lparr>mem := m5\<rparr>)"
      "stack_at ok pgdir F m5 (frame_sp wrap ?e) (frame_bytes wrap tf signum) 0"
      "unat (frame_sp wrap ?e) = unat ?e - (?n + 88)"
    by (auto simp: m4(3) frame_sp_def frame_bytes_def)
  have "lock_usable (s\<lparr>mem := m5\<rparr>)" using assms(1) by simp
  note last = maybe_locked_upd [OF this]
  have "push_frame wrap p signum s = (Val (),
       upd_proc p (\<lambda>q. q\<lparr>p_tf := (p_tf q)\<lparr>tf_eip := p_handlers q signum, tf_ebp := frame_sp wrap ?e,
         tf_esp := frame_sp wrap ?e\<rparr>\<rparr>) (s\<lparr>mem := m5\<rparr>))"
    using m1(1) m2(1) m3(1) m4(1) m5(1) last assms(2)
    by (simp add: push_frame_def Let_def kbind_def kget_def frame_sp_def)
  moreover have "length (frame_bytes wrap tf signum) = ?n + 88" by (simp add: frame_bytes_def)
  ultimately show ?thesis using m5(2,3) by (auto simp: stack_at_def)
qed

lemma find_lowest:
  assumes "signum < NUMSIG" and "bit pend signum" and "\<forall>j < signum. \<not> bit pend j"
  shows "find (\<lambda>i. pend AND push_bit i 1 \<noteq> 0) [0..<NUMSIG] = Some signum"
  using assms by (auto simp: find_Some_iff bit_iff_and_push_bit_not_eq_0 intro!: exI [of _ signum])

lemma sigreturn_eq:
  assumes "curproc s = Some p" and "lock_usable s" and "tf_ebp (p_tf (ptable s p)) = sp"
    and "get_bytes (uload (P2V (cr3 s))) (mem s) (sp + 8) 76 = Some b"
  shows "sigreturn s = (Val 0, upd_proc p (\<lambda>q. q\<lparr>p_tf := tf_of_bytes b, p_isHandlingsignal := 0\<rparr>) s)"
  unfolding sigreturn_def
proof (rule maybe_locked_Val)
  show "oblivious (with_cur (\<lambda>p. kbind (kget (\<lambda>s. tf_ebp (p_tf (ptable s p)))) (\<lambda>ebp.
     kbind (user_get (ebp + 8) 76) (\<lambda>b. kthen (kmod (upd_proc p (\<lambda>q. q\<lparr>p_tf := tf_of_bytes b\<rparr>)))
     (kthen (kmod (upd_proc p (\<lambda>q. q\<lparr>p_isHandlingsignal := 0\<rparr>))) (kret 0))))))"
    by (intro obl) simp_all
qed (use assms in \<open>simp_all add: lock_usable_def with_cur_def user_get_def kbind_def kget_def kmod_def kret_def\<close>)

lemma get_frame_tf:
  assumes "get_bytes rd m sp (length wrap + 88) = Some (frame_bytes wrap tf signum)"
  shows "get_bytes rd m (sp + 8) 76 = Some (tf_bytes tf)"
proof -
  have "get_bytes rd m (sp + of_nat 8) 76 = Some (take 76 (drop 8 (frame_bytes wrap tf signum)))"
    using assms by (intro get_bytes_sub [where k = "length wrap + 4"]) (simp add: add.commute)
  then show ?thesis by (simp add: frame_bytes_def)
qed

text \<open>
  C21: A pending signal with a handler: \<open>checkPEndingSignals\<close> takes the lowest one, clears its
  bit only, and leaves the process to start in the handler on a stack that holds the return
  address of the copied \<open>sigretwrapper\<close> code, the signal number and the saved registers.  When
  the handler has returned with this part of the stack intact and the base pointer it was given,
  \<open>sigreturn\<close> restores exactly the registers the process was interrupted with.
\<close>

theorem signal_delivery_roundtrip:
  fixes s :: "'x ptst_scheme"
  assumes "curproc s = Some p" and "lock_usable s" and "signum < NUMSIG"
    and "bit (p_pending (ptable s p)) signum" and "\<forall>j < signum. \<not> bit (p_pending (ptable s p)) j"
    and "p_isHandlingsignal (ptable s p) = 0" and "tf_cs (p_tf (ptable s p)) AND 3 = DPL_USER"
    and "p_handlers (ptable s p) signum \<noteq> 0"
    and "stack_room (mem s) (P2V (cr3 s)) (tf_esp (p_tf (ptable s p))) (length wrap + 88)"
  shows "\<exists>s1. checkPEndingSignals wrap (p_tf (ptable s p)) s = (Val (), s1) \<and>
     (\<forall>j. bit (p_pending (ptable s1 p)) j = (bit (p_pending (ptable s p)) j \<and> j \<noteq> signum)) \<and>
     tf_eip (p_tf (ptable s1 p)) = p_handlers (ptable s p) signum \<and>
     tf_esp (p_tf (ptable s1 p)) = frame_sp wrap (tf_esp (p_tf (ptable s p))) \<and>
     get_bytes (uload (P2V (cr3 s))) (mem s1) (tf_esp (p_tf (ptable s1 p))) (length wrap + 88) =
       Some (frame_bytes wrap (p_tf (ptable s p)) signum) \<and>
     (\<forall>s2 :: 'x ptst_scheme. curproc s2 = Some p \<longrightarrow> lock_usable s2 \<longrightarrow> cr3 s2 = cr3 s \<longrightarrow>
        tf_ebp (p_tf (ptable s2 p)) = tf_ebp (p_tf (ptable s1 p)) \<longrightarrow>
        get_bytes (uload (P2V (cr3 s))) (mem s2) (tf_ebp (p_tf (ptable s1 p)) + 8) 76 =
          get_bytes (uload (P2V (cr3 s))) (mem s1) (tf_ebp (p_tf (ptable s1 p)) + 8) 76 \<longrightarrow>
        (\<exists>s3. sigreturn s2 = (Val 0, s3) \<and> p_tf (ptable s3 p) = p_tf (ptable s p)))"
proof -
  let ?q = "ptable s p" and ?g = "\<lambda>q. q\<lparr>p_pending := p_pending q XOR push_bit signum 1\<rparr>"
  let ?s0 = "upd_proc p ?g s" and ?sp = "frame_sp wrap (tf_esp (p_tf (ptable s p)))"
  let ?f = "\<lambda>q. q\<lparr>p_tf := (p_tf q)\<lparr>tf_eip := p_handlers q signum, tf_ebp := ?sp, tf_esp := ?sp\<rparr>\<rparr>"
  have "p_pending ?q \<noteq> 0" using assms(4) by auto
  then have chk: "checkPEndingSignals wrap (p_tf ?q) s = push_frame wrap p signum ?s0"
    using assms(1,6-8) find_lowest [OF assms(3-5)] maybe_locked_upd [OF assms(2), of p ?g]
    by (simp add: checkPEndingSignals_def kbind_def kget_def)
  have "\<exists>m' ok F. push_frame wrap p signum ?s0 = (Val (), upd_proc p ?f (?s0\<lparr>mem := m'\<rparr>)) \<and>
     aspace_wf ok (P2V (cr3 s)) F m' \<and> unat ?sp = unat (tf_esp (p_tf ?q)) - (length wrap + 88) \<and>
     get_bytes (uload (P2V (cr3 s))) m' ?sp (length wrap + 88) = Some (frame_bytes wrap (p_tf ?q) signum)"
    using assms(2,9) by (intro push_frame_ok) simp_all
  then obtain m' where pf: "push_frame wrap p signum ?s0 = (Val (), upd_proc p ?f (?s0\<lparr>mem := m'\<rparr>))"
    and get: "get_bytes (uload (P2V (cr3 s))) m' ?sp (length wrap + 88) = Some (frame_bytes wrap (p_tf ?q) signum)"
    by blast
  define s1 where "s1 = upd_proc p ?f (?s0\<lparr>mem := m'\<rparr>)"
  have q1: "ptable s1 p = ?f (?g ?q)" "mem s1 = m'" by (simp_all add: upd_proc_def s1_def)
  have bits: "bit (p_pending (?g ?q)) j = (bit (p_pending ?q) j \<and> j \<noteq> signum)" for j
    using assms(3,4) by (auto simp: bit_simps NUMSIG_def)
  have "\<exists>s3. sigreturn s2 = (Val 0, s3) \<and> p_tf (ptable s3 p) = p_tf ?q"
    if "curproc s2 = Some p" "lock_usable s2" "cr3 s2 = cr3 s" "tf_ebp (p_tf (ptable s2 p)) = ?sp"
      "get_bytes (uload (P2V (cr3 s))) (mem s2) (?sp + 8) 76 = get_bytes (uload (P2V (cr3 s))) m' (?sp + 8) 76"
    for s2 :: "'x ptst_scheme"
    using sigreturn_eq [OF that(1,2,4)] that(3,5) get_frame_tf [OF get] by (simp add: tf_roundtrip)
  then show ?thesis
    unfolding chk pf s1_def [symmetric] using get bits by (intro exI [of _ s1]) (simp add: q1)
qed

definition sig_ex :: ptst where
  "sig_ex = pt_ex (Some 0) (\<lambda>q. q\<lparr>p_pending := 0b1010, p_handlers := (\<lambda>_. 0)(1 := 0x40, 3 := 0x80),
     p_tf := tf0\<lparr>tf_cs := 0x1b, tf_eax := 7, tf_eip := 0x123, tf_esp := 0x1800\<rparr>\<rparr>)"

lemma sig_ex_simps:
  "curproc sig_ex = Some 0" "lock_usable sig_ex" "mem sig_ex = um_ex" "cr3 sig_ex = 0x402000"
  "p_pending (ptable sig_ex 0) = 0b1010" "p_isHandlingsignal (ptable sig_ex 0) = 0"
  "p_handlers (ptable sig_ex 0) = (\<lambda>_. 0)(1 := 0x40, 3 := 0x80)"
  "p_tf (ptable sig_ex 0) = tf0\<lparr>tf_cs := 0x1b, tf_eax := 7, tf_eip := 0x123, tf_esp := 0x1800\<rparr>"
  by (simp_all add: sig_ex_def lock_usable_def) (simp_all add: pt_ex_def proc0_def)

lemma stack_room_ex: "stack_room um_ex 0x80402000 0x1800 96"
proof -
  have "uload 0x80402000 um_ex x \<noteq> None" if "0x17a0 \<le> unat x" "unat x < 0x1800" for x
    using that by (intro um_ex_mapped) (simp_all add: word_le_nat_alt word_less_nat_alt)
  then show ?thesis using um_ex_wf by (auto simp: stack_room_def KERNBASE_def)
qed

theorem signal_delivery_roundtrip_witness:
  "\<exists>s1. checkPEndingSignals (replicate 8 0x90) (p_tf (ptable sig_ex 0)) sig_ex = (Val (), s1) \<and>
     tf_eip (p_tf (ptable s1 0)) = 0x40 \<and> tf_esp (p_tf (ptable s1 0)) = 0x17a0 \<and>
     \<not> bit (p_pending (ptable s1 0)) 1 \<and> bit (p_pending (ptable s1 0)) 3"
proof -
  have low: "\<forall>j < 1. \<not> bit (p_pending (ptable sig_ex 0)) j" by (simp add: sig_ex_simps)
  have room: "stack_room (mem sig_ex) (P2V (cr3 sig_ex)) (tf_esp (p_tf (ptable sig_ex 0)))
      (length (replicate 8 (0x90 :: u8)) + 88)"
    using stack_room_ex by (simp add: sig_ex_simps P2V_def KERNBASE_def)
  have b3: "bit (0b1010 :: u32) 3" by (simp add: numeral_3_eq_3 bit_Suc)
  show ?thesis
    using signal_delivery_roundtrip [OF sig_ex_simps(1,2) _ _ low _ _ _ room] b3
    by (force simp: sig_ex_simps DPL_USER_def NUMSIG_def frame_sp_def bit_Suc)
qed

section \<open>Alarms\<close>

text \<open>What one tick does to a process.\<close>

definition tick_proc :: "proc \<Rightarrow> proc" where
  "tick_proc q =
     (if p_alarmFlag q = 0 then q
      else q\<lparr>p_alarmFlag := p_alarmFlag q - 1,
             p_pending := (if p_alarmFlag q = 1 then p_pending q OR push_bit SIGALRM 1 else p_pending q)\<rparr>)"

definition tick_all :: "(nat \<Rightarrow> proc) \<Rightarrow> nat \<Rightarrow> proc" where
  "tick_all pt i = (if i < NPROC then tick_proc (pt i) else pt i)"

text \<open>A process whose alarm rings is the only one with its identifier.\<close>

definition alarm_pids :: "(nat \<Rightarrow> proc) \<Rightarrow> nat set \<Rightarrow> bool" where
  "alarm_pids pt A = (\<forall>p \<in> A. p_alarmFlag (pt p) = 1 \<longrightarrow> (\<forall>i < NPROC. p_pid (pt i) = p_pid (pt p) \<longrightarrow> i = p))"

lemma find_pid:
  assumes "p < NPROC" and "\<forall>i < NPROC. f i = f p \<longrightarrow> i = p"
  shows "find (\<lambda>i. f i = f p) [0..<NPROC] = Some p"
  using assms by (auto simp: find_Some_iff intro!: exI [of _ p] dest: less_trans)

lemma alarm_step_eq:
  assumes "holding L_ptable s" and "p < NPROC" and "alarm_pids (ptable s) {p}"
  shows "alarm_step p s = (Val (), upd_proc p tick_proc s)"
proof -
  let ?s1 = "upd_proc p (\<lambda>q. q\<lparr>p_alarmFlag := p_alarmFlag q - 1\<rparr>) s"
  have "find (\<lambda>i. p_pid (ptable ?s1 i) = p_pid (ptable ?s1 p)) [0..<NPROC] = Some p"
    if "p_alarmFlag (ptable s p) = 1"
    using assms(2,3) that by (intro find_pid) (auto simp: alarm_pids_def upd_proc_def)
  then show ?thesis
    using assms(1) by (auto simp: alarm_step_def kbind_def kget_def kwhen_def kmod_def kret_def
      sigsend_def sigsend_body_def maybe_locked_def tick_proc_def upd_proc_def holding_def SIGALRM_def NUMSIG_def
      word_gt_0)
qed

lemma alarm_loop:
  assumes "holding L_ptable s" and "set ps \<subseteq> {..<NPROC}" and "distinct ps" and "alarm_pids (ptable s) (set ps)"
  shows "kfor ps alarm_step s =
    (Val (), s\<lparr>ptable := \<lambda>i. if i \<in> set ps then tick_proc (ptable s i) else ptable s i\<rparr>)"
  using assms
proof (induction ps arbitrary: s)
  case Nil
  then show ?case by (simp add: kret_def)
next
  case (Cons p ps)
  let ?s1 = "upd_proc p tick_proc s"
  have "alarm_step p s = (Val (), ?s1)" using Cons.prems by (intro alarm_step_eq) (auto simp: alarm_pids_def)
  moreover have "alarm_pids (ptable ?s1) (set ps)"
    using Cons.prems(3,4) by (auto simp: alarm_pids_def upd_proc_def tick_proc_def)
  then have "kfor ps alarm_step ?s1 =
     (Val (), ?s1\<lparr>ptable := \<lambda>i. if i \<in> set ps then tick_proc (ptable ?s1 i) else ptable ?s1 i\<rparr>)"
    using Cons.prems by (intro Cons.IH) (simp_all add: holding_def fun_upd_def)
  moreover have "(\<lambda>i. if i \<in> set ps then tick_proc (ptable ?s1 i) else ptable ?s1 i) =
     (\<lambda>i. if i \<in> set (p # ps) then tick_proc (ptable s i) else ptable s i)"
    using Cons.prems(3) by (auto simp: upd_proc_def fun_eq_iff)
  ultimately show ?case by (simp add: kbind_def upd_proc_def)
qed

text \<open>
  C22: \<open>updateAlarms\<close>, called on every clock tick with or without the process table lock, counts
  every running alarm down by one and sends \<open>SIGALRM\<close> to exactly the processes whose alarm
  reaches zero; nothing else changes.
\<close>

theorem updateAlarms_correct:
  assumes "lock_usable s" and "alarm_pids (ptable s) {..<NPROC}"
  shows "updateAlarms s = (Val (), s\<lparr>ptable := tick_all (ptable s)\<rparr>)"
proof -
  let ?t = "\<lambda>s :: 'a ptst_scheme. s\<lparr>ptable := tick_all (ptable s)\<rparr>"
  have loop: "kfor [0..<NPROC] alarm_step s' = (Val (), ?t s')"
    if "holding L_ptable s'" "alarm_pids (ptable s') {..<NPROC}" for s' :: "'a ptst_scheme"
    using alarm_loop [OF that(1), of "[0..<NPROC]"] that(2)
    by (simp add: lessThan_atLeast0 atLeast_upt tick_all_def [abs_def])
  show ?thesis
  proof (cases "holding L_ptable s")
    case True
    then show ?thesis using loop [of s] assms(2) by (simp add: updateAlarms_def maybe_locked_def kbind_def kget_def)
  next
    case False
    then have ct: "can_take L_ptable s" using assms(1) by (simp add: lock_usable_def)
    have "kfor [0..<NPROC] alarm_step (grab L_ptable s) = (Val (), ?t (grab L_ptable s))"
      using assms(2) by (intro loop) (simp_all add: holding_def grab_def)
    also have "?t (grab L_ptable s) = grab L_ptable (?t s)" unfolding grab_def by simp
    finally have "with_lock L_ptable (kfor [0..<NPROC] alarm_step) s = (Val (), ?t s)"
      using ct by (intro with_lock_run) (simp_all add: can_take_def)
    then show ?thesis using False by (simp add: updateAlarms_def maybe_locked_def kbind_def kget_def)
  qed
qed

theorem updateAlarms_correct_witness:
  "p_pending (ptable (snd (updateAlarms (pt_ex None (\<lambda>q. q\<lparr>p_alarmFlag := 1\<rparr>)))) 0) = push_bit SIGALRM 1"
proof -
  let ?s = "pt_ex None (\<lambda>q. q\<lparr>p_alarmFlag := 1\<rparr>)"
  have "lock_usable ?s" by (simp add: lock_usable_def)
  moreover have "alarm_pids (ptable ?s) {..<NPROC}" by (simp add: alarm_pids_def pt_ex_def proc0_def)
  ultimately have "updateAlarms ?s =
      (Val (), ?s\<lparr>ptable := tick_all (ptable ?s)\<rparr>)"
    by (rule updateAlarms_correct)
  then show ?thesis by (simp add: tick_all_def tick_proc_def NPROC_def pt_ex_def proc0_def)
qed

section \<open>What the other side gets wrong\<close>

text \<open>
  C23: The \<open>sigsend\<close> of the other side of the merge signals the caller: whichever process \<open>pid\<close>
  names, only the pending set of the calling process changes.
\<close>

theorem sigsend_theirs_signals_caller:
  assumes "curproc s = Some me'" and "can_take L_ptable s" and "p < NPROC" and "p_pid (ptable s p) = pid"
  shows "sigsend_theirs pid signum s =
    (Val 0, upd_proc me' (\<lambda>q. q\<lparr>p_pending := p_pending q OR push_bit signum 1\<rparr>) s)"
proof -
  let ?f = "kbind (kget (\<lambda>s. find (\<lambda>i. p_pid (ptable s i) = pid) [0..<NPROC])) (\<lambda>r.
     case r of None \<Rightarrow> kret False
     | Some p \<Rightarrow> kthen (with_cur (\<lambda>me'. kmod (upd_proc me'
             (\<lambda>q. q\<lparr>p_pending := p_pending q OR push_bit signum 1\<rparr>)))) (kret True)) :: ('a ptst_scheme, bool) K"
  have "find (\<lambda>i. p_pid (ptable s i) = pid) [0..<NPROC] \<noteq> None"
    using assms(3,4) by (auto simp: find_None_iff)
  then obtain i where "find (\<lambda>i. p_pid (ptable s i) = pid) [0..<NPROC] = Some i" by blast
  then have "?f s = (Val True, upd_proc me' (\<lambda>q. q\<lparr>p_pending := p_pending q OR push_bit signum 1\<rparr>) s)"
    using assms(1) by (simp add: kbind_def kget_def with_cur_def kmod_def kret_def)
  moreover have "oblivious ?f" by (intro obl) simp_all
  ultimately have "with_lock L_ptable ?f s =
      (Val True, upd_proc me' (\<lambda>q. q\<lparr>p_pending := p_pending q OR push_bit signum 1\<rparr>) s)"
    using assms(2) by (intro with_lock_Val)
  then show ?thesis by (simp add: sigsend_theirs_def kbind_def kret_def)
qed

theorem sigsend_theirs_signals_caller_witness:
  "sigsend_theirs 0 3 sig_ex = (Val 0, upd_proc 0 (\<lambda>q. q\<lparr>p_pending := p_pending q OR push_bit 3 1\<rparr>) sig_ex) \<and>
   p_pid (ptable sig_ex 0) \<noteq> 0"
proof -
  have "p_pid (ptable sig_ex 1) = 0" "p_pid (ptable sig_ex 0) = 1" "can_take L_ptable sig_ex"
    by (simp_all add: sig_ex_def) (simp_all add: pt_ex_def proc0_def)
  then show ?thesis
    using sigsend_theirs_signals_caller [OF sig_ex_simps(1), of 1 0] by (simp add: NPROC_def)
qed

text \<open>
  C24: \<open>alarm(0)\<close> of the other side drops every pending signal below \<open>SIGALRM\<close> with it, and leaves
  a running alarm counting.
\<close>

theorem alarm_theirs_cancel_drops_signals:
  assumes "curproc s = Some p"
  shows "\<exists>s1. alarm_theirs 0 s = (Val 0, s1) \<and>
     (\<forall>j. bit (p_pending (ptable s1 p)) j = (bit (p_pending (ptable s p)) j \<and> SIGALRM < j)) \<and>
     p_alarmFlag (ptable s1 p) = p_alarmFlag (ptable s p)"
proof -
  have m: "32767 = (mask 15 :: u32)" by (simp add: mask_eq_exp_minus_1)
  have "bit (w AND push_bit 14 (NOT 1)) j = (bit w j \<and> SIGALRM < j)" for w :: u32 and j
    using bit_imp_le_length [of w j] by (auto simp: bit_simps SIGALRM_def m)
  then show ?thesis
    using assms by (simp add: alarm_theirs_def with_cur_def kbind_def kget_def kmod_def kret_def upd_proc_def Let_def
      del: push_bit_minus)
qed

theorem alarm_theirs_cancel_drops_signals_witness:
  "p_pending (ptable sig_ex 0) \<noteq> 0 \<and> p_pending (ptable (snd (alarm_theirs 0 sig_ex)) 0) = 0"
proof -
  obtain s1 where s1: "alarm_theirs 0 sig_ex = (Val 0, s1)"
    "\<And>j. bit (p_pending (ptable s1 0)) j = (bit (p_pending (ptable sig_ex 0)) j \<and> SIGALRM < j)"
    using alarm_theirs_cancel_drops_signals [OF sig_ex_simps(1)] by blast
  have "p_pending (ptable s1 0) = 0"
    by (rule bit_eqI) (auto simp: s1(2) sig_ex_simps SIGALRM_def bit_Suc bit_numeral_rec numeral_eq_Suc less_Suc_eq elim: less_natE)
  then show ?thesis by (simp add: s1(1) sig_ex_simps)
qed

end
