(* ===== verification/Xv6_Bio.thy ===== *)
theory Xv6_Bio
  imports Xv6_Proc
begin

text \<open>
  Sleep locks (\<open>sleeplock.c\<close>), the buffer cache (\<open>bio.c\<close>, \<open>buf.h\<close>) and the memory disk
  (\<open>memide.c\<close>).  A sleep lock is named by the spin lock inside it.  Buffers are named by their
  index in \<open>bcache.buf\<close>; index \<open>NBUF\<close> is \<open>bcache.head\<close>, and the list through \<open>prev\<close> and \<open>next\<close> is
  kept pointer by pointer as in the source.  Disk blocks are functions from offsets to bytes.

  The second half abstracts the cache to what its clients see: the contents of every block
  through the cache, the contents of the disk, which blocks the client holds and which are
  pinned by \<open>B_DIRTY\<close>.  Each operation acts on this view as its comment in \<open>bio.c\<close> says; in
  particular recycling buffers is invisible.
\<close>

section \<open>State\<close>

definition BSIZE :: nat where "BSIZE = 512"

type_synonym block = "nat \<Rightarrow> u8"

definition get32 :: "block \<Rightarrow> nat \<Rightarrow> u32" where
  "get32 d i =
     ucast (d i) OR push_bit 8 (ucast (d (i + 1))) OR
     push_bit 16 (ucast (d (i + 2))) OR push_bit 24 (ucast (d (i + 3)))"

definition put32 :: "block \<Rightarrow> nat \<Rightarrow> u32 \<Rightarrow> block" where
  "put32 d i w =
     d(i := ucast w, i + 1 := ucast (drop_bit 8 w),
       i + 2 := ucast (drop_bit 16 w), i + 3 := ucast (drop_bit 24 w))"

record sleeplock =
  sl_locked :: u32
  sl_pid :: u32

record buf =
  b_flags :: u32
  b_dev :: u32
  b_blockno :: u32
  b_refcnt :: u32
  b_prev :: nat
  b_next :: nat
  b_qnext :: "nat option"
  b_data :: block

definition B_VALID :: u32 where "B_VALID = 2"
definition B_DIRTY :: u32 where "B_DIRTY = 4"

text \<open>
  \<open>memdisk\<close> is kept block by block.  \<open>dwrites\<close> is not in the source: it notes the writes to the
  disk in order, so that a crash between two of them can be described.
\<close>

record bst = ptst +
  slocks :: "lockid \<Rightarrow> sleeplock"
  bufs :: "nat \<Rightarrow> buf"
  memdisk :: "nat \<Rightarrow> block"
  disksize :: nat
  dwrites :: "(nat \<times> block) list"

definition upd_buf :: "nat \<Rightarrow> (buf \<Rightarrow> buf) \<Rightarrow> 'x bst_scheme \<Rightarrow> 'x bst_scheme" where
  "upd_buf b f s = s\<lparr>bufs := (bufs s)(b := f (bufs s b))\<rparr>"

definition upd_sl :: "lockid \<Rightarrow> (sleeplock \<Rightarrow> sleeplock) \<Rightarrow> 'x bst_scheme \<Rightarrow> 'x bst_scheme" where
  "upd_sl lk f s = s\<lparr>slocks := (slocks s)(lk := f (slocks s lk))\<rparr>"

section \<open>Sleep locks\<close>

fun sl_chan :: "lockid \<Rightarrow> chan" where
  "sl_chan (L_buf b) = Ch_buf b"
| "sl_chan (L_inode i) = Ch_inode i"
| "sl_chan _ = Ch_log"

definition initsleeplock :: "lockid \<Rightarrow> ('x bst_scheme, unit) K" where
  "initsleeplock lk =
     kthen (initlock lk) (kmod (upd_sl lk (\<lambda>l. l\<lparr>sl_locked := 0, sl_pid := 0\<rparr>)))"

text \<open>The test of the \<open>while\<close> loop, and what follows it when the lock is free.\<close>

definition acquiresleep_test :: "lockid \<Rightarrow> ('x bst_scheme, unit) K" where
  "acquiresleep_test lk =
     kbind (kget (\<lambda>s. sl_locked (slocks s lk))) (\<lambda>l.
     if l \<noteq> 0 then sleep (sl_chan lk) lk
     else
     kthen (kmod (upd_sl lk (\<lambda>l. l\<lparr>sl_locked := 1\<rparr>)))
     (kthen (with_cur (\<lambda>p. kmod (\<lambda>s. upd_sl lk (\<lambda>l. l\<lparr>sl_pid := p_pid (ptable s p)\<rparr>) s)))
     (release lk)))"

definition acquiresleep :: "lockid \<Rightarrow> ('x bst_scheme, unit) K" where
  "acquiresleep lk = kthen (acquire lk) (acquiresleep_test lk)"

definition acquiresleep_resume :: "lockid \<Rightarrow> ('x bst_scheme, unit) K" where
  "acquiresleep_resume lk = kthen (sleep_resume lk) (acquiresleep_test lk)"

definition releasesleep :: "lockid \<Rightarrow> ('x bst_scheme, unit) K" where
  "releasesleep lk =
     with_lock lk
      (kthen (kmod (upd_sl lk (\<lambda>l. l\<lparr>sl_locked := 0, sl_pid := 0\<rparr>)))
      (wakeup (sl_chan lk)))"

definition holdingsleep :: "lockid \<Rightarrow> ('x bst_scheme, bool) K" where
  "holdingsleep lk = with_lock lk (kget (\<lambda>s. sl_locked (slocks s lk) \<noteq> 0))"

section \<open>The memory disk\<close>

definition ideinit :: "nat \<Rightarrow> (nat \<Rightarrow> block) \<Rightarrow> ('x bst_scheme, unit) K" where
  "ideinit fs_img_size fs_img = kmod (\<lambda>s. s\<lparr>memdisk := fs_img, disksize := fs_img_size div BSIZE\<rparr>)"

definition iderw :: "nat \<Rightarrow> ('x bst_scheme, unit) K" where
  "iderw b =
     kbind (holdingsleep (L_buf b)) (\<lambda>h.
     if \<not> h then kpanic ''iderw: buf not locked''
     else
     kbind (kget (\<lambda>s. bufs s b)) (\<lambda>q.
     if b_flags q AND (B_VALID OR B_DIRTY) = B_VALID then kpanic ''iderw: nothing to do''
     else if b_dev q \<noteq> 1 then kpanic ''iderw: request not for disk 1''
     else
     kbind (kget disksize) (\<lambda>n.
     if unat (b_blockno q) \<ge> n then kpanic ''iderw: block out of range''
     else
     let p = unat (b_blockno q) in
     kthen
      (if b_flags q AND B_DIRTY \<noteq> 0 then
         kthen (kmod (upd_buf b (\<lambda>q. q\<lparr>b_flags := b_flags q AND NOT B_DIRTY\<rparr>)))
         (kmod (\<lambda>s. s\<lparr>memdisk := (memdisk s)(p := b_data (bufs s b)),
                      dwrites := dwrites s @ [(p, b_data (bufs s b))]\<rparr>))
       else kmod (\<lambda>s. upd_buf b (\<lambda>q. q\<lparr>b_data := memdisk s p\<rparr>) s))
     (kmod (upd_buf b (\<lambda>q. q\<lparr>b_flags := b_flags q OR B_VALID\<rparr>))))))"

section \<open>The buffer cache\<close>

definition binit_step :: "nat \<Rightarrow> ('x bst_scheme, unit) K" where
  "binit_step b =
     kthen (kmod (\<lambda>s. upd_buf b (\<lambda>q. q\<lparr>b_next := b_next (bufs s NBUF), b_prev := NBUF\<rparr>) s))
     (kthen (initsleeplock (L_buf b))
     (kthen (kmod (\<lambda>s. upd_buf (b_next (bufs s NBUF)) (\<lambda>q. q\<lparr>b_prev := b\<rparr>) s))
     (kmod (upd_buf NBUF (\<lambda>q. q\<lparr>b_next := b\<rparr>)))))"

definition binit :: "('x bst_scheme, unit) K" where
  "binit =
     kthen (initlock L_bcache)
     (kthen (kmod (upd_buf NBUF (\<lambda>q. q\<lparr>b_prev := NBUF, b_next := NBUF\<rparr>)))
     (kfor [0..<NBUF] binit_step))"

text \<open>The two searches of \<open>bget\<close>; both visit each buffer at most once, so \<open>NBUF + 1\<close> is enough fuel.\<close>

fun bget_cached :: "nat \<Rightarrow> u32 \<Rightarrow> u32 \<Rightarrow> nat \<Rightarrow> ('x bst_scheme, nat option) K" where
  "bget_cached 0 dev blockno b = kfail Diverges"
| "bget_cached (Suc n) dev blockno b =
     (if b = NBUF then kret None
      else
      kbind (kget (\<lambda>s. bufs s b)) (\<lambda>q.
      if b_dev q = dev \<and> b_blockno q = blockno then kret (Some b)
      else bget_cached n dev blockno (b_next q)))"

fun bget_unused :: "nat \<Rightarrow> nat \<Rightarrow> ('x bst_scheme, nat option) K" where
  "bget_unused 0 b = kfail Diverges"
| "bget_unused (Suc n) b =
     (if b = NBUF then kret None
      else
      kbind (kget (\<lambda>s. bufs s b)) (\<lambda>q.
      if b_refcnt q = 0 \<and> b_flags q AND B_DIRTY = 0 then kret (Some b)
      else bget_unused n (b_prev q)))"

text \<open>Inside the section of \<open>bcache.lock\<close>: find or recycle a buffer and count the reference.\<close>

definition bget_pick :: "u32 \<Rightarrow> u32 \<Rightarrow> ('x bst_scheme, nat) K" where
  "bget_pick dev blockno =
     kbind (kget (\<lambda>s. b_next (bufs s NBUF))) (\<lambda>first.
     kbind (bget_cached (NBUF + 1) dev blockno first) (\<lambda>r.
     case r of
       Some b \<Rightarrow> kthen (kmod (upd_buf b (\<lambda>q. q\<lparr>b_refcnt := b_refcnt q + 1\<rparr>))) (kret b)
     | None \<Rightarrow>
         kbind (kget (\<lambda>s. b_prev (bufs s NBUF))) (\<lambda>lst.
         kbind (bget_unused (NBUF + 1) lst) (\<lambda>r.
         case r of
           Some b \<Rightarrow>
             kthen (kmod (upd_buf b (\<lambda>q. q\<lparr>b_dev := dev, b_blockno := blockno, b_flags := 0, b_refcnt := 1\<rparr>)))
             (kret b)
         | None \<Rightarrow> kpanic ''bget: no buffers''))))"

definition bget :: "u32 \<Rightarrow> u32 \<Rightarrow> ('x bst_scheme, nat) K" where
  "bget dev blockno =
     kbind (with_lock L_bcache (bget_pick dev blockno)) (\<lambda>b.
     kthen (acquiresleep (L_buf b)) (kret b))"

definition bread :: "u32 \<Rightarrow> u32 \<Rightarrow> ('x bst_scheme, nat) K" where
  "bread dev blockno =
     kbind (bget dev blockno) (\<lambda>b.
     kbind (kget (\<lambda>s. b_flags (bufs s b))) (\<lambda>fl.
     kthen (kwhen (fl AND B_VALID = 0) (iderw b)) (kret b)))"

definition bwrite :: "nat \<Rightarrow> ('x bst_scheme, unit) K" where
  "bwrite b =
     kbind (holdingsleep (L_buf b)) (\<lambda>h.
     if \<not> h then kpanic ''bwrite''
     else kthen (kmod (upd_buf b (\<lambda>q. q\<lparr>b_flags := b_flags q OR B_DIRTY\<rparr>))) (iderw b))"

text \<open>Unlink a buffer and put it behind the head: the six assignments of \<open>brelse\<close>.\<close>

definition b_move_front :: "nat \<Rightarrow> ('x bst_scheme, unit) K" where
  "b_move_front b =
     kthen (kmod (\<lambda>s. upd_buf (b_next (bufs s b)) (\<lambda>q. q\<lparr>b_prev := b_prev (bufs s b)\<rparr>) s))
     (kthen (kmod (\<lambda>s. upd_buf (b_prev (bufs s b)) (\<lambda>q. q\<lparr>b_next := b_next (bufs s b)\<rparr>) s))
     (kthen (kmod (\<lambda>s. upd_buf b (\<lambda>q. q\<lparr>b_next := b_next (bufs s NBUF)\<rparr>) s))
     (kthen (kmod (upd_buf b (\<lambda>q. q\<lparr>b_prev := NBUF\<rparr>)))
     (kthen (kmod (\<lambda>s. upd_buf (b_next (bufs s NBUF)) (\<lambda>q. q\<lparr>b_prev := b\<rparr>) s))
     (kmod (upd_buf NBUF (\<lambda>q. q\<lparr>b_next := b\<rparr>)))))))"

definition brelse_put :: "nat \<Rightarrow> ('x bst_scheme, unit) K" where
  "brelse_put b =
     kthen (kmod (upd_buf b (\<lambda>q. q\<lparr>b_refcnt := b_refcnt q - 1\<rparr>)))
     (kbind (kget (\<lambda>s. b_refcnt (bufs s b))) (\<lambda>n. kwhen (n = 0) (b_move_front b)))"

definition brelse :: "nat \<Rightarrow> ('x bst_scheme, unit) K" where
  "brelse b =
     kbind (holdingsleep (L_buf b)) (\<lambda>h.
     if \<not> h then kpanic ''brelse''
     else kthen (releasesleep (L_buf b)) (with_lock L_bcache (brelse_put b)))"

section \<open>The list of buffers\<close>

text \<open>
  \<open>ring bf xs\<close>: from the head, \<open>next\<close> runs through \<open>xs\<close> back to the head and \<open>prev\<close> runs the
  other way.
\<close>

fun linked :: "(nat \<Rightarrow> buf) \<Rightarrow> nat \<Rightarrow> nat list \<Rightarrow> nat \<Rightarrow> bool" where
  "linked bf a [] c = (b_next (bf a) = c \<and> b_prev (bf c) = a)"
| "linked bf a (x # xs) c = (b_next (bf a) = x \<and> b_prev (bf x) = a \<and> linked bf x xs c)"

definition ring :: "(nat \<Rightarrow> buf) \<Rightarrow> nat list \<Rightarrow> bool" where
  "ring bf xs = (distinct xs \<and> NBUF \<notin> set xs \<and> linked bf NBUF xs NBUF)"

lemma linked_append:
  "linked bf a (xs @ y # ys) c = (linked bf a xs y \<and> linked bf y ys c)"
  by (induction xs arbitrary: a) auto

text \<open>The links inside a segment do not depend on anything else.\<close>

lemma linked_cong:
  assumes "\<And>x. x \<in> set (a # xs) \<Longrightarrow> b_next (bf' x) = b_next (bf x)"
    and "\<And>x. x \<in> set (xs @ [c]) \<Longrightarrow> b_prev (bf' x) = b_prev (bf x)"
  shows "linked bf' a xs c = linked bf a xs c"
  using assms by (induction xs arbitrary: a) auto

lemma ring_cong:
  assumes "\<And>x. b_next (bf' x) = b_next (bf x)" and "\<And>x. b_prev (bf' x) = b_prev (bf x)"
  shows "ring bf' xs = ring bf xs"
  using linked_cong [of NBUF xs bf' bf NBUF] assms by (simp add: ring_def)

lemma ring_hd: "ring bf xs \<Longrightarrow> b_next (bf NBUF) = hd (xs @ [NBUF]) \<and> b_prev (bf NBUF) = last (NBUF # xs)"
proof -
  have "linked bf a xs c \<Longrightarrow> b_next (bf a) = hd (xs @ [c]) \<and> b_prev (bf c) = last (a # xs)" for a c
    by (induction xs arbitrary: a) auto
  then show "ring bf xs \<Longrightarrow> ?thesis" by (simp add: ring_def)
qed

text \<open>Putting a buffer that is not in the list behind the head.\<close>

definition push_front :: "nat \<Rightarrow> (nat \<Rightarrow> buf) \<Rightarrow> nat \<Rightarrow> buf" where
  "push_front b bf =
     (let h = b_next (bf NBUF); bf1 = bf(b := (bf b)\<lparr>b_next := h, b_prev := NBUF\<rparr>);
          bf2 = bf1(h := (bf1 h)\<lparr>b_prev := b\<rparr>)
      in bf2(NBUF := (bf2 NBUF)\<lparr>b_next := b\<rparr>))"

lemma ring_push_front:
  assumes "ring bf xs" and "b \<notin> set xs" and "b \<noteq> NBUF"
  shows "ring (push_front b bf) (b # xs)"
proof (cases xs)
  case Nil
  then show ?thesis using assms by (simp add: ring_def push_front_def)
next
  case (Cons y ys)
  then have "linked bf y ys NBUF" "b_next (bf NBUF) = y" "y \<noteq> b" "y \<noteq> NBUF" "NBUF \<notin> set ys" "b \<notin> set ys" "y \<notin> set ys"
    using assms by (auto simp: ring_def)
  moreover from this have "linked (push_front b bf) y ys NBUF = linked bf y ys NBUF"
    using assms(3) by (intro linked_cong) (auto simp: push_front_def)
  ultimately show ?thesis using assms Cons by (simp add: ring_def) (simp add: push_front_def)
qed

definition unlink :: "nat \<Rightarrow> (nat \<Rightarrow> buf) \<Rightarrow> nat \<Rightarrow> buf" where
  "unlink b bf =
     (let bf1 = bf(b_next (bf b) := (bf (b_next (bf b)))\<lparr>b_prev := b_prev (bf b)\<rparr>)
      in bf1(b_prev (bf1 b) := (bf1 (b_prev (bf1 b)))\<lparr>b_next := b_next (bf1 b)\<rparr>))"

lemma linked_ends:
  "linked bf a xs c \<Longrightarrow> b_next (bf a) \<in> set (xs @ [c]) \<and> b_prev (bf c) \<in> set (a # xs)"
  by (induction xs arbitrary: a) auto

lemma linked_unlink:
  assumes "linked bf a xs b" and "linked bf b ys c" and "distinct (xs @ b # ys)"
    and "a \<notin> set (xs @ b # ys)" and "c \<notin> set (xs @ b # ys)"
    and "\<And>z. b_next (bf' z) = (if z = b_prev (bf b) then b_next (bf b) else b_next (bf z))"
    and "\<And>z. b_prev (bf' z) = (if z = b_next (bf b) then b_prev (bf b) else b_prev (bf z))"
  shows "linked bf' a (xs @ ys) c"
  using assms(1,3-5)
proof (induction xs arbitrary: a)
  case Nil
  show ?case
  proof (cases ys)
    case Nil
    then show ?thesis using Nil.prems assms(2,6,7) by simp
  next
    case (Cons y zs)
    then have "linked bf' y zs c = linked bf y zs c"
      using Nil.prems assms(2) by (intro linked_cong) (auto simp: assms(6,7))
    then show ?thesis using Nil.prems assms(2) Cons by (simp add: assms(6,7))
  qed
next
  case (Cons x xs)
  have "b_prev (bf b) \<in> set (x # xs)" "b_next (bf b) \<in> set (ys @ [c])"
    using linked_ends [of bf x xs b] linked_ends [OF assms(2)] Cons.prems(1) by auto
  then have "b_next (bf' a) = x" "b_prev (bf' x) = a"
    using Cons.prems by (auto simp: assms(6,7))
  moreover have "linked bf' x (xs @ ys) c" using Cons.prems by (intro Cons.IH) auto
  ultimately show ?case by simp
qed

lemma ring_unlink:
  assumes "ring bf (xs @ b # ys)"
  shows "ring (unlink b bf) (xs @ ys)"
proof -
  have l: "linked bf NBUF xs b" "linked bf b ys NBUF" "distinct (xs @ b # ys)" "NBUF \<notin> set (xs @ b # ys)"
    using assms by (simp_all add: ring_def linked_append)
  have "b_prev (bf b) \<noteq> b" "b_next (bf b) \<noteq> b"
    using linked_ends [OF l(1)] linked_ends [OF l(2)] l(3,4) by auto
  then have un: "b_next (unlink b bf z) = (if z = b_prev (bf b) then b_next (bf b) else b_next (bf z))"
    "b_prev (unlink b bf z) = (if z = b_next (bf b) then b_prev (bf b) else b_prev (bf z))" for z
    by (simp_all add: unlink_def Let_def)
  show ?thesis using linked_unlink [OF l l(4) un] l(3,4) by (simp add: ring_def)
qed

definition move_front :: "nat \<Rightarrow> (nat \<Rightarrow> buf) \<Rightarrow> nat \<Rightarrow> buf" where
  "move_front b bf = push_front b (unlink b bf)"

lemma ring_move_front:
  assumes "ring bf xs" and "b \<in> set xs"
  shows "ring (move_front b bf) (b # remove1 b xs)"
proof -
  obtain ys zs where xs: "xs = ys @ b # zs" "b \<notin> set ys" using split_list_first [OF assms(2)] by blast
  have "ring (unlink b bf) (ys @ zs)" using ring_unlink [of bf ys b zs] assms(1) xs(1) by simp
  moreover have "b \<notin> set (ys @ zs)" "b \<noteq> NBUF" using assms(1) xs by (auto simp: ring_def)
  ultimately show ?thesis using xs ring_push_front [of "unlink b bf" "ys @ zs" b] by (simp add: move_front_def remove1_append)
qed

text \<open>The list operations change only the links.\<close>

definition same_but_links :: "(nat \<Rightarrow> buf) \<Rightarrow> (nat \<Rightarrow> buf) \<Rightarrow> bool" where
  "same_but_links bf' bf = (\<forall>i. \<exists>p n. bf' i = (bf i)\<lparr>b_prev := p, b_next := n\<rparr>)"

lemma upd_buf_simps [simp]:
  "bufs (upd_buf b f s) = (bufs s)(b := f (bufs s b))" "slocks (upd_buf b f s) = slocks s"
  "memdisk (upd_buf b f s) = memdisk s" "disksize (upd_buf b f s) = disksize s" "dwrites (upd_buf b f s) = dwrites s"
  by (simp_all add: upd_buf_def)

lemma upd_sl_simps [simp]:
  "slocks (upd_sl lk f s) = (slocks s)(lk := f (slocks s lk))" "bufs (upd_sl lk f s) = bufs s"
  "memdisk (upd_sl lk f s) = memdisk s" "disksize (upd_sl lk f s) = disksize s" "dwrites (upd_sl lk f s) = dwrites s"
  by (simp_all add: upd_sl_def)

text \<open>A chain of assignments to buffers as one function on the array.\<close>

definition on_bufs :: "((nat \<Rightarrow> buf) \<Rightarrow> nat \<Rightarrow> buf) \<Rightarrow> ('x bst_scheme, unit) K" where
  "on_bufs f = kmod (\<lambda>s. s\<lparr>bufs := f (bufs s)\<rparr>)"

lemma on_bufs_then: "kthen (on_bufs f) (on_bufs g) = on_bufs (\<lambda>bf. g (f bf))"
  by (simp add: fun_eq_iff on_bufs_def kmod_def kbind_def)

lemma b_move_front_eq:
  assumes "b \<noteq> NBUF"
  shows "b_move_front b = on_bufs (move_front b)"
proof -
  let ?u1 = "\<lambda>bf. bf(b_next (bf b) := (bf (b_next (bf b)))\<lparr>b_prev := b_prev (bf b)\<rparr>)"
  let ?u2 = "\<lambda>bf. bf(b_prev (bf b) := (bf (b_prev (bf b)))\<lparr>b_next := b_next (bf b)\<rparr>)"
  let ?u3 = "\<lambda>bf. bf(b := (bf b)\<lparr>b_next := b_next (bf NBUF)\<rparr>)"
  let ?u4 = "\<lambda>bf. bf(b := (bf b)\<lparr>b_prev := NBUF\<rparr>)"
  let ?u5 = "\<lambda>bf. bf(b_next (bf NBUF) := (bf (b_next (bf NBUF)))\<lparr>b_prev := b\<rparr>)"
  let ?u6 = "\<lambda>bf. bf(NBUF := (bf NBUF)\<lparr>b_next := b\<rparr>)"
  have "b_move_front b = kthen (on_bufs ?u1) (kthen (on_bufs ?u2) (kthen (on_bufs ?u3)
      (kthen (on_bufs ?u4) (kthen (on_bufs ?u5) (on_bufs ?u6)))))"
    by (simp only: b_move_front_def on_bufs_def upd_buf_def [abs_def])
  also have "\<dots> = on_bufs (\<lambda>bf. ?u6 (?u5 (?u4 (?u3 (?u2 (?u1 bf))))))"
    by (simp only: on_bufs_then)
  also have "(\<lambda>bf. ?u6 (?u5 (?u4 (?u3 (?u2 (?u1 bf)))))) = move_front b"
  proof
    fix bf :: "nat \<Rightarrow> buf"
    have "?u2 (?u1 bf) = unlink b bf" by (simp only: unlink_def Let_def)
    moreover have "?u6 (?u5 (?u4 (?u3 bf'))) = push_front b bf'" for bf'
      using assms by (simp add: push_front_def Let_def)
    ultimately show "?u6 (?u5 (?u4 (?u3 (?u2 (?u1 bf))))) = move_front b bf" by (simp only: move_front_def)
  qed
  finally show ?thesis .
qed

subsection \<open>The searches of \<open>bget\<close>\<close>

definition caches :: "u32 \<Rightarrow> u32 \<Rightarrow> buf \<Rightarrow> bool" where
  "caches dev blockno q = (b_dev q = dev \<and> b_blockno q = blockno)"

definition unused :: "buf \<Rightarrow> bool" where
  "unused q = (b_refcnt q = 0 \<and> b_flags q AND B_DIRTY = 0)"

lemma bget_cached_run:
  assumes "linked (bufs s) a ys NBUF" and "NBUF \<notin> set ys" and "length ys < n"
  shows "bget_cached n dev blockno (b_next (bufs s a)) s = (Val (find (\<lambda>i. caches dev blockno (bufs s i)) ys), s)"
  using assms
proof (induction ys arbitrary: a n)
  case Nil
  then show ?case by (cases n) (simp_all add: kret_def)
next
  case (Cons y ys)
  then obtain n' where "n = Suc n'" by (cases n) auto
  then show ?case using Cons.IH [of y n'] Cons.prems by (auto simp: kret_def caches_def)
qed

lemma bget_unused_run:
  assumes "linked (bufs s) NBUF ys c" and "NBUF \<notin> set ys" and "length ys < n"
  shows "bget_unused n (b_prev (bufs s c)) s = (Val (find (\<lambda>i. unused (bufs s i)) (rev ys)), s)"
  using assms
proof (induction ys arbitrary: c n rule: rev_induct)
  case Nil
  then show ?case by (cases n) (simp_all add: kret_def)
next
  case (snoc y ys)
  then obtain n' where "n = Suc n'" by (cases n) auto
  then show ?case using snoc.IH [of y n'] snoc.prems by (auto simp: kret_def unused_def linked_append)
qed

lemma ring_length:
  assumes "ring bf xs" and "set xs = {..<NBUF}"
  shows "length xs = NBUF"
  using assms distinct_card [of xs] by (simp add: ring_def)

lemma bget_searches:
  assumes "ring (bufs s) xs" and "set xs = {..<NBUF}"
  shows "bget_cached (NBUF + 1) dev blockno (b_next (bufs s NBUF)) s =
      (Val (find (\<lambda>i. caches dev blockno (bufs s i)) xs), s)"
    and "bget_unused (NBUF + 1) (b_prev (bufs s NBUF)) s = (Val (find (\<lambda>i. unused (bufs s i)) (rev xs)), s)"
  using bget_cached_run [of s NBUF xs "NBUF + 1"] bget_unused_run [of s xs NBUF "NBUF + 1"]
    ring_length [OF assms] assms(1) by (simp_all add: ring_def)

section \<open>What the cache promises\<close>

text \<open>
  One thread of control at a time: no spin lock is held when an operation starts, and a process
  runs.
\<close>

definition quiet :: "'x ptst_scheme \<Rightarrow> bool" where
  "quiet s = ((\<forall>lk. can_take lk s) \<and> curproc s \<noteq> None)"

definition held :: "'x bst_scheme \<Rightarrow> nat \<Rightarrow> bool" where
  "held s i = (sl_locked (slocks s (L_buf i)) \<noteq> 0)"

definition valid :: "buf \<Rightarrow> bool" where "valid q = (b_flags q AND B_VALID \<noteq> 0)"
definition dirty :: "buf \<Rightarrow> bool" where "dirty q = (b_flags q AND B_DIRTY \<noteq> 0)"

text \<open>A buffer in use is for a block of disk 1; a clean one that nobody holds agrees with the disk.\<close>

definition buf_ok :: "'x bst_scheme \<Rightarrow> nat \<Rightarrow> bool" where
  "buf_ok s i =
     (let q = bufs s i in
      b_refcnt q = (if held s i then 1 else 0) \<and>
      (held s i \<longrightarrow> valid q) \<and> (dirty q \<longrightarrow> valid q) \<and>
      (valid q \<longrightarrow> b_dev q = 1 \<and> unat (b_blockno q) < disksize s) \<and>
      (valid q \<longrightarrow> \<not> held s i \<longrightarrow> \<not> dirty q \<longrightarrow> b_data q = memdisk s (unat (b_blockno q))))"

definition cache_inv :: "'x bst_scheme \<Rightarrow> bool" where
  "cache_inv s =
     ((\<exists>xs. ring (bufs s) xs \<and> set xs = {..<NBUF}) \<and>
      (\<forall>i < NBUF. \<forall>j < NBUF. b_dev (bufs s i) = 1 \<longrightarrow> b_dev (bufs s j) = 1 \<longrightarrow>
         b_blockno (bufs s i) = b_blockno (bufs s j) \<longrightarrow> i = j) \<and>
      (\<forall>i < NBUF. buf_ok s i))"

definition cache_ok :: "'x bst_scheme \<Rightarrow> bool" where
  "cache_ok s = (quiet s \<and> cache_inv s)"

text \<open>The client's view.\<close>

definition cached :: "'x bst_scheme \<Rightarrow> nat \<Rightarrow> nat option" where
  "cached s n = find (\<lambda>i. valid (bufs s i) \<and> unat (b_blockno (bufs s i)) = n) [0..<NBUF]"

record ablk =
  av :: "nat \<Rightarrow> block"            \<comment> \<open>the blocks as read through the cache\<close>
  ad :: "nat \<Rightarrow> block"            \<comment> \<open>the blocks on the disk\<close>
  aw :: "(nat \<times> block) list"      \<comment> \<open>the writes the disk has seen\<close>
  ah :: "nat set"                 \<comment> \<open>the blocks whose buffer is locked\<close>
  adt :: "nat set"                \<comment> \<open>the blocks pinned in the cache\<close>
  asize :: nat

definition bnos :: "'x bst_scheme \<Rightarrow> (nat \<Rightarrow> bool) \<Rightarrow> nat set" where
  "bnos s P = {unat (b_blockno (bufs s i)) | i. i < NBUF \<and> P i}"

definition ablk_of :: "'x bst_scheme \<Rightarrow> ablk" where
  "ablk_of s =
     \<lparr>av = (\<lambda>n. case cached s n of Some i \<Rightarrow> b_data (bufs s i) | None \<Rightarrow> memdisk s n),
      ad = memdisk s, aw = dwrites s, ah = bnos s (held s), adt = bnos s (\<lambda>i. dirty (bufs s i)),
      asize = disksize s\<rparr>"

text \<open>Buffer \<open>b\<close> is the caller's locked buffer for block \<open>n\<close>.\<close>

definition has_buf :: "'x bst_scheme \<Rightarrow> nat \<Rightarrow> nat \<Rightarrow> bool" where
  "has_buf s b n = (b < NBUF \<and> held s b \<and> unat (b_blockno (bufs s b)) = n)"

text \<open>What the operations leave alone: all that is not the cache, the disk or who sleeps.\<close>

definition bframe :: "'x bst_scheme \<Rightarrow> 'x bst_scheme \<Rightarrow> bool" where
  "bframe s s' =
     (\<exists>pt sl bf. s' = s\<lparr>ptable := pt, slocks := sl, bufs := bf, memdisk := memdisk s', dwrites := dwrites s'\<rparr> \<and>
        (\<forall>p. pt p = ptable s p \<or> p_state (ptable s p) = SLEEPING \<and> pt p = (ptable s p)\<lparr>p_state := RUNNABLE\<rparr>) \<and>
        (\<forall>lk. (\<forall>b. lk \<noteq> L_buf b) \<longrightarrow> sl lk = slocks s lk))"

lemma bframe_refl: "bframe s s"
  unfolding bframe_def by (rule exI [of _ "ptable s"], rule exI [of _ "slocks s"], rule exI [of _ "bufs s"]) simp

lemma bframe_trans: "bframe s t \<Longrightarrow> bframe t u \<Longrightarrow> bframe s u"
proof -
  assume "bframe s t" "bframe t u"
  then obtain pt sl bf md dw pt' sl' bf' md' dw' where
    t: "t = s\<lparr>ptable := pt, slocks := sl, bufs := bf, memdisk := md, dwrites := dw\<rparr>"
    and u: "u = t\<lparr>ptable := pt', slocks := sl', bufs := bf', memdisk := md', dwrites := dw'\<rparr>"
    and p: "\<And>p. pt p = ptable s p \<or> p_state (ptable s p) = SLEEPING \<and> pt p = (ptable s p)\<lparr>p_state := RUNNABLE\<rparr>"
    and p': "\<And>p. pt' p = ptable t p \<or> p_state (ptable t p) = SLEEPING \<and> pt' p = (ptable t p)\<lparr>p_state := RUNNABLE\<rparr>"
    and l: "\<And>lk. (\<forall>b. lk \<noteq> L_buf b) \<Longrightarrow> sl lk = slocks s lk" "\<And>lk. (\<forall>b. lk \<noteq> L_buf b) \<Longrightarrow> sl' lk = slocks t lk"
    unfolding bframe_def by blast
  have "pt' q = ptable s q \<or> p_state (ptable s q) = SLEEPING \<and> pt' q = (ptable s q)\<lparr>p_state := RUNNABLE\<rparr>" for q
    using p [of q] p' [of q] by (auto simp: t)
  moreover have "sl' lk = slocks s lk" if "\<forall>b. lk \<noteq> L_buf b" for lk using l that by (simp add: t)
  ultimately show ?thesis
    unfolding bframe_def by (intro exI [of _ pt'] exI [of _ sl'] exI [of _ bf']) (auto simp: t u)
qed

lemma bframe_keeps:
  assumes "bframe s s'"
  shows "disksize s' = disksize s" and "me s' = me s" and "cpus s' = cpus s" and "locks s' = locks s"
    and "mem s' = mem s" and "cr3 s' = cr3 s" and "cur s' = cur s" and "curproc s' = curproc s"
    and "freelist s' = freelist s" and "use_lock s' = use_lock s" and "kend s' = kend s"
    and "kpgdir s' = kpgdir s" and "kdata s' = kdata s" and "nextpid s' = nextpid s" and "initproc s' = initproc s"
    and "bst.more s' = bst.more s"
    and "(\<And>b. lk \<noteq> L_buf b) \<Longrightarrow> slocks s' lk = slocks s lk"
    and "p_state (ptable s p) \<noteq> SLEEPING \<Longrightarrow> ptable s' p = ptable s p"
proof -
  obtain pt sl bf md dw where s': "s' = s\<lparr>ptable := pt, slocks := sl, bufs := bf, memdisk := md, dwrites := dw\<rparr>"
    and pt: "\<And>p. pt p = ptable s p \<or> p_state (ptable s p) = SLEEPING \<and> pt p = (ptable s p)\<lparr>p_state := RUNNABLE\<rparr>"
    and sl: "\<And>lk. (\<forall>b. lk \<noteq> L_buf b) \<Longrightarrow> sl lk = slocks s lk"
    using assms unfolding bframe_def by blast
  show "p_state (ptable s p) \<noteq> SLEEPING \<Longrightarrow> ptable s' p = ptable s p" using pt [of p] by (auto simp: s')
  show "(\<And>b. lk \<noteq> L_buf b) \<Longrightarrow> slocks s' lk = slocks s lk" using sl by (simp add: s')
  show "disksize s' = disksize s" "me s' = me s" "cpus s' = cpus s" "locks s' = locks s" "mem s' = mem s" "cr3 s' = cr3 s"
    "cur s' = cur s" "curproc s' = curproc s" "freelist s' = freelist s" "use_lock s' = use_lock s" "kend s' = kend s"
    "kpgdir s' = kpgdir s" "kdata s' = kdata s" "nextpid s' = nextpid s" "initproc s' = initproc s"
    "bst.more s' = bst.more s"
    by (simp_all add: s' curproc_def)
qed

subsection \<open>The locks of a quiet state\<close>

lemma quiet_take: "quiet s \<Longrightarrow> can_take lk s"
  by (simp add: quiet_def)

lemma holdingsleep_eq: "quiet s \<Longrightarrow> holdingsleep (L_buf b) s = (Val (held s b), s)"
  unfolding holdingsleep_def
  by (intro with_lock_Val obl) (simp_all add: quiet_take kget_def held_def)

lemma holdingsleep_bind: "quiet s \<Longrightarrow> kbind (holdingsleep (L_buf b)) g s = g (held s b) s"
  using holdingsleep_eq [of s b] by (simp add: kbind_def)

lemma sl_full [simp]: "(l :: sleeplock)\<lparr>sl_locked := a, sl_pid := c\<rparr> = \<lparr>sl_locked = a, sl_pid = c\<rparr>"
  by (cases l) simp

lemma acquiresleep_eq:
  assumes "quiet s" and "sl_locked (slocks s lk) = 0"
  shows "acquiresleep lk s =
    (Val (), upd_sl lk (\<lambda>l. \<lparr>sl_locked = 1, sl_pid = p_pid (ptable s (the (curproc s)))\<rparr>) s)"
proof -
  let ?f = "kthen (kmod (upd_sl lk (\<lambda>l. l\<lparr>sl_locked := 1\<rparr>)))
     (with_cur (\<lambda>p. kmod (\<lambda>s. upd_sl lk (\<lambda>l. l\<lparr>sl_pid := p_pid (ptable s p)\<rparr>) s))) :: ('a bst_scheme, unit) K"
  let ?t = "upd_sl lk (\<lambda>l. \<lparr>sl_locked = 1, sl_pid = p_pid (ptable s (the (curproc s)))\<rparr>) s"
  obtain p where p: "curproc s = Some p" using assms(1) by (auto simp: quiet_def)
  have "oblivious ?f"
    by (intro obl oblivious_kbind) (simp_all add: upd_sl_def with_cur_def curproc_def oblivious_def kbind_def
        kget_def kmod_def kfail_def split: option.splits)
  moreover have "?f s = (Val (), ?t)"
    using p by (simp add: with_cur_def upd_sl_def curproc_def kmod_def)
  ultimately have "with_lock lk ?f s = (Val (), ?t)"
    using quiet_take [OF assms(1)] by (intro with_lock_Val)
  moreover have "kthen (acquire lk) (acquiresleep_test lk) s = with_lock lk ?f s"
    using acquire_grab [OF quiet_take [OF assms(1)], of lk] assms(2)
    by (simp add: with_lock_def acquiresleep_test_def kbind_assoc kbind_Val grab_def kret_def)
  ultimately show ?thesis by (simp add: acquiresleep_def)
qed

lemma quiet_upd [simp]:
  "quiet (upd_sl lk f s) = quiet s" "quiet (upd_buf b g s) = quiet s" "quiet (map_procs A h s) = quiet s"
  "quiet (s\<lparr>memdisk := md, dwrites := dw\<rparr>) = quiet s" "quiet (s\<lparr>bufs := bf\<rparr>) = quiet s"
  by (simp_all add: quiet_def can_take_def upd_sl_def upd_buf_def curproc_def map_procs_def)

lemma releasesleep_eq:
  assumes "quiet s" and "lk \<noteq> L_ptable"
  shows "releasesleep lk s =
    (Val (), map_procs {0..<NPROC} (woken (sl_chan lk)) (upd_sl lk (\<lambda>l. \<lparr>sl_locked = 0, sl_pid = 0\<rparr>) s))"
proof -
  let ?t = "map_procs {0..<NPROC} (woken (sl_chan lk)) (upd_sl lk (\<lambda>l. \<lparr>sl_locked = 0, sl_pid = 0\<rparr>) s)"
  let ?u = "upd_sl lk (\<lambda>l. \<lparr>sl_locked = 0, sl_pid = 0\<rparr>) (grab lk s)"
  have "can_take L_ptable ?u"
    using quiet_take [OF assms(1), of L_ptable] quiet_take [OF assms(1), of lk] assms(2)
    by (auto simp: can_take_def upd_sl_def grab_def cpu_sane_def split: if_splits)
  then have "wakeup (sl_chan lk) ?u = (Val (), map_procs {0..<NPROC} (woken (sl_chan lk)) ?u)"
    by (rule wakeup_eq)
  moreover have "map_procs {0..<NPROC} (woken (sl_chan lk)) ?u = grab lk ?t"
    by (simp add: map_procs_def upd_sl_def grab_def cong: if_cong)
  ultimately show ?thesis
    unfolding releasesleep_def using assms(1)
    by (intro with_lock_run) (simp_all add: quiet_take)
qed

subsection \<open>The view\<close>

lemma cache_okD:
  assumes "cache_ok s"
  shows "quiet s" and "\<exists>xs. ring (bufs s) xs \<and> set xs = {..<NBUF}"
    and "i < NBUF \<Longrightarrow> buf_ok s i"
    and "i < NBUF \<Longrightarrow> j < NBUF \<Longrightarrow> b_dev (bufs s i) = 1 \<Longrightarrow> b_dev (bufs s j) = 1 \<Longrightarrow>
      b_blockno (bufs s i) = b_blockno (bufs s j) \<Longrightarrow> i = j"
  using assms by (auto simp: cache_ok_def cache_inv_def)

lemma buf_okD:
  assumes "buf_ok s i"
  shows "b_refcnt (bufs s i) = (if held s i then 1 else 0)"
    and "held s i \<Longrightarrow> valid (bufs s i)" and "dirty (bufs s i) \<Longrightarrow> valid (bufs s i)"
    and "valid (bufs s i) \<Longrightarrow> b_dev (bufs s i) = 1"
    and "valid (bufs s i) \<Longrightarrow> unat (b_blockno (bufs s i)) < disksize s"
    and "valid (bufs s i) \<Longrightarrow> \<not> held s i \<Longrightarrow> \<not> dirty (bufs s i) \<Longrightarrow>
      b_data (bufs s i) = memdisk s (unat (b_blockno (bufs s i)))"
  using assms by (simp_all add: buf_ok_def Let_def)

lemma cached_Some:
  assumes "cache_ok s" and "i < NBUF" and "valid (bufs s i)"
  shows "cached s (unat (b_blockno (bufs s i))) = Some i"
proof -
  let ?P = "\<lambda>j. valid (bufs s j) \<and> unat (b_blockno (bufs s j)) = unat (b_blockno (bufs s i))"
  have uniq: "j = i" if "j < NBUF" "?P j" for j
    using cache_okD(4) [OF assms(1) that(1) assms(2)] buf_okD(4) [OF cache_okD(3) [OF assms(1)]] that assms(2,3)
    by (simp add: word_unat_eq_iff)
  have "find ?P [0..<NBUF] \<noteq> None" using assms(2,3) by (auto simp: find_None_iff)
  then obtain j where "find ?P [0..<NBUF] = Some j" by blast
  moreover from find_index_Some [OF this] have "j = i" using uniq by simp
  ultimately show ?thesis by (simp add: cached_def)
qed

lemma cached_None:
  "cached s n = None \<longleftrightarrow> (\<forall>i < NBUF. valid (bufs s i) \<longrightarrow> unat (b_blockno (bufs s i)) \<noteq> n)"
  by (auto simp: cached_def find_None_iff)

lemma cached_SomeD:
  "cached s n = Some i \<Longrightarrow> i < NBUF \<and> valid (bufs s i) \<and> unat (b_blockno (bufs s i)) = n"
  using find_index_Some by (fastforce simp: cached_def)

lemma ablk_simps [simp]:
  "ad (ablk_of s) = memdisk s" "aw (ablk_of s) = dwrites s" "asize (ablk_of s) = disksize s"
  by (simp_all add: ablk_of_def)

lemma has_buf_ok:
  assumes "cache_ok s" and "has_buf s b n"
  shows "b < NBUF" and "held s b" and "valid (bufs s b)" and "b_dev (bufs s b) = 1"
    and "unat (b_blockno (bufs s b)) = n" and "cached s n = Some b" and "b_data (bufs s b) = av (ablk_of s) n"
    and "n < disksize s" and "n \<in> ah (ablk_of s)"
proof -
  show b: "b < NBUF" and h: "held s b" and n: "unat (b_blockno (bufs s b)) = n"
    using assms(2) by (simp_all add: has_buf_def)
  note ok = cache_okD(3) [OF assms(1) b]
  show v: "valid (bufs s b)" using buf_okD(2) [OF ok h] .
  show "b_dev (bufs s b) = 1" using buf_okD(4) [OF ok v] .
  show "n < disksize s" using buf_okD(5) [OF ok v] n by simp
  show c: "cached s n = Some b" using cached_Some [OF assms(1) b v] n by simp
  show "b_data (bufs s b) = av (ablk_of s) n" using c by (simp add: ablk_of_def)
  show "n \<in> ah (ablk_of s)" using b h n by (auto simp: ablk_of_def bnos_def)
qed

text \<open>
  The one argument about the invariant and the view: buffer \<open>b\<close> is replaced by one for block
  \<open>n\<close>, which no other buffer holds, and was for \<open>n\<close> before or free to be recycled.
\<close>

definition core :: "buf \<Rightarrow> buf" where
  "core q = q\<lparr>b_prev := 0, b_next := 0\<rparr>"

lemma core_eq:
  assumes "core q = core q'"
  shows "b_flags q = b_flags q'" and "b_dev q = b_dev q'" and "b_blockno q = b_blockno q'"
    and "b_refcnt q = b_refcnt q'" and "b_data q = b_data q'" and "valid q = valid q'" and "dirty q = dirty q'"
  using assms by (cases q; cases q'; simp add: core_def valid_def dirty_def)+

definition replaces :: "'x bst_scheme \<Rightarrow> 'x bst_scheme \<Rightarrow> nat \<Rightarrow> nat \<Rightarrow> bool" where
  "replaces s s' b n =
     (b < NBUF \<and> quiet s' \<and> (\<exists>xs. ring (bufs s') xs \<and> set xs = {..<NBUF}) \<and>
      disksize s' = disksize s \<and> (\<forall>m. m \<noteq> n \<longrightarrow> memdisk s' m = memdisk s m) \<and>
      (\<forall>i < NBUF. i \<noteq> b \<longrightarrow> core (bufs s' i) = core (bufs s i) \<and> held s' i = held s i) \<and>
      buf_ok s' b \<and> b_dev (bufs s' b) = 1 \<and> unat (b_blockno (bufs s' b)) = n \<and>
      (\<forall>i < NBUF. i \<noteq> b \<longrightarrow> b_dev (bufs s i) = 1 \<longrightarrow> unat (b_blockno (bufs s i)) \<noteq> n) \<and>
      (unat (b_blockno (bufs s b)) = n \<or> \<not> held s b \<and> \<not> dirty (bufs s b)))"

lemma replaces_other:
  assumes "cache_ok s" and "replaces s s' b n" and "i < NBUF" and "i \<noteq> b"
  shows "b_dev (bufs s' i) = b_dev (bufs s i)" and "b_blockno (bufs s' i) = b_blockno (bufs s i)"
    and "valid (bufs s' i) = valid (bufs s i)" and "dirty (bufs s' i) = dirty (bufs s i)"
    and "b_data (bufs s' i) = b_data (bufs s i)" and "held s' i = held s i"
    and "valid (bufs s i) \<Longrightarrow> unat (b_blockno (bufs s i)) \<noteq> n" and "buf_ok s' i"
proof -
  have c: "core (bufs s' i) = core (bufs s i)" and h: "held s' i = held s i" and d: "disksize s' = disksize s"
    and n: "b_dev (bufs s i) = 1 \<Longrightarrow> unat (b_blockno (bufs s i)) \<noteq> n" and m: "\<And>m. m \<noteq> n \<Longrightarrow> memdisk s' m = memdisk s m"
    using assms(2-4) by (auto simp: replaces_def)
  show "held s' i = held s i" by (fact h)
  note eq = core_eq [OF c]
  show "b_dev (bufs s' i) = b_dev (bufs s i)" "b_blockno (bufs s' i) = b_blockno (bufs s i)"
    "valid (bufs s' i) = valid (bufs s i)" "dirty (bufs s' i) = dirty (bufs s i)"
    "b_data (bufs s' i) = b_data (bufs s i)" by (fact eq)+
  note ok = cache_okD(3) [OF assms(1,3)]
  show ne: "unat (b_blockno (bufs s i)) \<noteq> n" if "valid (bufs s i)" using n buf_okD(4) [OF ok that] by blast
  show "buf_ok s' i" using ok ne m by (simp add: buf_ok_def Let_def eq h d)
qed

lemma replaces_ok:
  assumes "cache_ok s" and r: "replaces s s' b n"
  shows "cache_ok s'"
proof -
  note o = replaces_other [OF assms]
  have b: "buf_ok s' b" "unat (b_blockno (bufs s' b)) = n" "quiet s'" "\<exists>xs. ring (bufs s') xs \<and> set xs = {..<NBUF}"
    and n: "\<And>i. i < NBUF \<Longrightarrow> i \<noteq> b \<Longrightarrow> b_dev (bufs s i) = 1 \<Longrightarrow> unat (b_blockno (bufs s i)) \<noteq> n"
    using r by (auto simp: replaces_def)
  have "i = j" if ij: "i < NBUF" "j < NBUF" "b_dev (bufs s' i) = 1" "b_dev (bufs s' j) = 1"
    "b_blockno (bufs s' i) = b_blockno (bufs s' j)" for i j
  proof (cases "i = b \<or> j = b")
    case True
    then show ?thesis using ij o(1,2) n b(2) by metis
  next
    case False
    then show ?thesis using ij o(1,2) cache_okD(4) [OF assms(1) ij(1,2)] by metis
  qed
  moreover have "buf_ok s' i" if "i < NBUF" for i using o(8) b(1) that by (cases "i = b") auto
  ultimately show ?thesis using b(3,4) by (simp add: cache_ok_def cache_inv_def)
qed

lemma replaces_bnos:
  assumes "cache_ok s" and r: "replaces s s' b n"
    and "\<And>i. i < NBUF \<Longrightarrow> i \<noteq> b \<Longrightarrow> P' i = P i" and "\<And>i. i < NBUF \<Longrightarrow> P i \<Longrightarrow> valid (bufs s i)"
    and "P b \<Longrightarrow> unat (b_blockno (bufs s b)) = n"
  shows "bnos s' P' = bnos s P - {n} \<union> (if P' b then {n} else {})"
proof -
  note o = replaces_other [OF assms(1,2)]
  have b: "b < NBUF" "unat (b_blockno (bufs s' b)) = n" using r by (auto simp: replaces_def)
  have "m \<in> bnos s' P' \<longleftrightarrow> m \<in> bnos s P - {n} \<union> (if P' b then {n} else {})" for m
  proof -
    have "m \<in> bnos s' P' \<longleftrightarrow> (\<exists>i < NBUF. i \<noteq> b \<and> P' i \<and> m = unat (b_blockno (bufs s' i))) \<or> P' b \<and> m = n"
      using b by (auto simp: bnos_def)
    also have "\<dots> \<longleftrightarrow> (\<exists>i < NBUF. i \<noteq> b \<and> P i \<and> m = unat (b_blockno (bufs s i))) \<or> P' b \<and> m = n"
      using assms(3) o(2) by metis
    also have "(\<exists>i < NBUF. i \<noteq> b \<and> P i \<and> m = unat (b_blockno (bufs s i))) \<longleftrightarrow> m \<in> bnos s P - {n}"
      using assms(4,5) o(7) b(1) by (auto simp: bnos_def)
    finally show ?thesis by auto
  qed
  then show ?thesis by blast
qed

lemma replaces_view:
  assumes "cache_ok s" and r: "replaces s s' b n"
  shows "av (ablk_of s') = (av (ablk_of s))(n := if valid (bufs s' b) then b_data (bufs s' b) else memdisk s' n)"
proof
  fix m
  note o = replaces_other [OF assms]
  note ok' = replaces_ok [OF assms]
  have b: "b < NBUF" "unat (b_blockno (bufs s' b)) = n" "\<And>m. m \<noteq> n \<Longrightarrow> memdisk s' m = memdisk s m"
    and c: "unat (b_blockno (bufs s b)) = n \<or> \<not> held s b \<and> \<not> dirty (bufs s b)"
    using r by (auto simp: replaces_def)
  show "av (ablk_of s') m = ((av (ablk_of s))(n := if valid (bufs s' b) then b_data (bufs s' b) else memdisk s' n)) m"
  proof (cases "m = n")
    case True
    then show ?thesis
      using cached_Some [OF ok' b(1)] b(2) o(2,3,7) cached_None [of s' n]
      by (cases "valid (bufs s' b)") (auto simp: ablk_of_def split: option.splits, metis)
  next
    case False
    show ?thesis
    proof (cases "cached s' m")
      case (Some i)
      have i: "i < NBUF" "i \<noteq> b" using cached_SomeD [OF Some] b(2) False by auto
      then have "valid (bufs s i)" "unat (b_blockno (bufs s i)) = m" "b_data (bufs s' i) = b_data (bufs s i)"
        using cached_SomeD [OF Some] o(2,3,5) [OF i] by auto
      then show ?thesis using cached_Some [OF assms(1), of i] i(1) Some False by (simp add: ablk_of_def)
    next
      case None
      have "av (ablk_of s) m = memdisk s m"
      proof (cases "cached s m")
        case (Some i)
        have "i = b" using cached_SomeD [OF Some] None o(2,3) [of i] by (cases "i = b") (auto simp: cached_None)
        then show ?thesis
          using buf_okD(6) [OF cache_okD(3) [OF assms(1) b(1)]] cached_SomeD [OF Some] c False Some
          by (simp add: ablk_of_def)
      qed (simp add: ablk_of_def)
      then show ?thesis using None False b(3) by (simp add: ablk_of_def)
    qed
  qed
qed

lemma replaces_ablk:
  assumes "cache_ok s" and r: "replaces s s' b n"
  shows "ablk_of s' =
    \<lparr>av = (av (ablk_of s))(n := if valid (bufs s' b) then b_data (bufs s' b) else memdisk s' n),
     ad = memdisk s', aw = dwrites s',
     ah = ah (ablk_of s) - {n} \<union> (if held s' b then {n} else {}),
     adt = adt (ablk_of s) - {n} \<union> (if dirty (bufs s' b) then {n} else {}), asize = disksize s\<rparr>"
proof -
  note o = replaces_other [OF assms]
  have c: "unat (b_blockno (bufs s b)) = n \<or> \<not> held s b \<and> \<not> dirty (bufs s b)" "disksize s' = disksize s"
    using r by (auto simp: replaces_def)
  have "bnos s' (held s') = bnos s (held s) - {n} \<union> (if held s' b then {n} else {})"
    using o(6) c(1) buf_okD(2) [OF cache_okD(3) [OF assms(1)]] by (intro replaces_bnos [OF assms]) auto
  moreover have "bnos s' (\<lambda>i. dirty (bufs s' i)) = bnos s (\<lambda>i. dirty (bufs s i)) - {n} \<union> (if dirty (bufs s' b) then {n} else {})"
    using o(4) c(1) buf_okD(3) [OF cache_okD(3) [OF assms(1)]] by (intro replaces_bnos [OF assms]) auto
  ultimately show ?thesis using replaces_view [OF assms] c(2) by (simp add: ablk_of_def)
qed

subsection \<open>The laws\<close>

lemma flag_tests: "(fl AND B_VALID = 0) = (\<not> bit fl 1)" "(fl AND B_DIRTY = 0) = (\<not> bit fl 2)"
  using bit_iff_and_push_bit_not_eq_0 [of fl 1] bit_iff_and_push_bit_not_eq_0 [of fl 2]
  by (simp_all add: B_VALID_def B_DIRTY_def)

lemma flag_bits: "valid q = bit (b_flags q) 1" "dirty q = bit (b_flags q) 2"
  by (simp_all add: valid_def dirty_def flag_tests)

lemma flag_word_bits: "bit B_VALID i = (i = 1)" "bit B_DIRTY i = (i = 2)"
  using bit_push_bit_iff [of 1 "1 :: u32" i] bit_push_bit_iff [of 2 "1 :: u32" i]
  by (auto simp: B_VALID_def B_DIRTY_def bit_1_iff)

lemma flag_simps [simp]:
  "valid (q\<lparr>b_flags := fl OR B_VALID\<rparr>)" "valid (q\<lparr>b_flags := fl OR B_DIRTY\<rparr>) = valid (q\<lparr>b_flags := fl\<rparr>)"
  "valid (q\<lparr>b_flags := fl AND NOT B_DIRTY\<rparr>) = valid (q\<lparr>b_flags := fl\<rparr>)"
  "dirty (q\<lparr>b_flags := fl OR B_VALID\<rparr>) = dirty (q\<lparr>b_flags := fl\<rparr>)" "dirty (q\<lparr>b_flags := fl OR B_DIRTY\<rparr>)"
  "\<not> dirty (q\<lparr>b_flags := fl AND NOT B_DIRTY\<rparr>)"
  by (simp_all add: flag_bits flag_word_bits bit_simps)

text \<open>Writing to the data of a held buffer.\<close>

definition set_data :: "nat \<Rightarrow> block \<Rightarrow> ('x bst_scheme, unit) K" where
  "set_data b d = kmod (upd_buf b (\<lambda>q. q\<lparr>b_data := d\<rparr>))"

lemma same_block_unique:
  assumes "cache_ok s" and "has_buf s b n" and "i < NBUF" and "i \<noteq> b" and "b_dev (bufs s i) = 1"
  shows "unat (b_blockno (bufs s i)) \<noteq> n"
  using cache_okD(4) [OF assms(1,3) has_buf_ok(1) [OF assms(1,2)] assms(5) has_buf_ok(4) [OF assms(1,2)]]
    has_buf_ok(5) [OF assms(1,2)] assms(4) by (auto simp: word_unat_eq_iff)

text \<open>A change to the held buffer of block \<open>n\<close> and to that block on the disk.\<close>

lemma has_buf_replaces:
  assumes "cache_ok s" and h: "has_buf s b n"
    and "bufs s' = (bufs s)(b := q)" and "slocks s' = slocks s" and "quiet s'" and "disksize s' = disksize s"
    and "\<And>m. m \<noteq> n \<Longrightarrow> memdisk s' m = memdisk s m"
    and "valid q" and "b_dev q = 1" and "b_blockno q = b_blockno (bufs s b)" and "b_refcnt q = 1"
    and "b_prev q = b_prev (bufs s b)" and "b_next q = b_next (bufs s b)"
  shows "replaces s s' b n" and "\<And>b' n'. has_buf s' b' n' = has_buf s b' n'"
proof -
  note hb = has_buf_ok [OF assms(1,2)]
  have hd: "held s' i = held s i" for i using assms(4) by (simp add: held_def)
  have "buf_ok s' b" using assms(3,6,8-11) hb by (simp add: buf_ok_def hd)
  moreover have "\<exists>xs. ring (bufs s') xs \<and> set xs = {..<NBUF}"
    using cache_okD(2) [OF assms(1)] ring_cong [of "bufs s'" "bufs s"] assms(3,12,13) by simp
  ultimately show "replaces s s' b n"
    using assms hb hd same_block_unique [OF assms(1,2)] by (simp add: replaces_def)
  show "has_buf s' b' n' = has_buf s b' n'" for b' n'
    using assms(3,10) hd by (simp add: has_buf_def)
qed

lemma has_buf_dirty:
  assumes "cache_ok s" and "has_buf s b n"
  shows "dirty (bufs s b) \<longleftrightarrow> n \<in> adt (ablk_of s)"
proof
  assume "dirty (bufs s b)"
  then show "n \<in> adt (ablk_of s)" using has_buf_ok [OF assms] by (auto simp: ablk_of_def bnos_def)
next
  assume "n \<in> adt (ablk_of s)"
  then obtain i where i: "i < NBUF" "dirty (bufs s i)" "unat (b_blockno (bufs s i)) = n"
    by (auto simp: ablk_of_def bnos_def)
  then have "i = b" using same_block_unique [OF assms i(1)] buf_okD(3,4) [OF cache_okD(3) [OF assms(1) i(1)]] by blast
  then show "dirty (bufs s b)" using i(2) by simp
qed

lemma bframe_upd:
  "s' = s\<lparr>slocks := sl, bufs := bf, memdisk := md, dwrites := dw\<rparr> \<Longrightarrow>
   (\<And>lk. (\<forall>b. lk \<noteq> L_buf b) \<Longrightarrow> sl lk = slocks s lk) \<Longrightarrow> bframe s s'"
  unfolding bframe_def by (intro exI [of _ "ptable s"] exI [of _ sl] exI [of _ bf]) auto

lemma bframe_upd_buf: "bframe s (upd_buf b f s)"
  by (rule bframe_upd [where sl = "slocks s" and md = "memdisk s" and dw = "dwrites s"]) (simp_all add: upd_buf_def)

text \<open>A held buffer with new data or flags, the disk unchanged.\<close>

lemma upd_held_law:
  assumes "cache_ok s" and "has_buf s b n" and "valid (f (bufs s b))"
    and "\<And>q. b_dev (f q) = b_dev q" and "\<And>q. b_blockno (f q) = b_blockno q" and "\<And>q. b_refcnt (f q) = b_refcnt q"
    and "\<And>q. b_prev (f q) = b_prev q" and "\<And>q. b_next (f q) = b_next q"
  shows "cache_ok (upd_buf b f s)" and "\<And>b' n'. has_buf (upd_buf b f s) b' n' = has_buf s b' n'"
    and "ablk_of (upd_buf b f s) = (ablk_of s)\<lparr>av := (av (ablk_of s))(n := b_data (f (bufs s b))),
      adt := adt (ablk_of s) - {n} \<union> (if dirty (f (bufs s b)) then {n} else {})\<rparr>"
proof -
  note hb = has_buf_ok [OF assms(1,2)]
  have rp: "replaces s (upd_buf b f s) b n" and "\<And>b' n'. has_buf (upd_buf b f s) b' n' = has_buf s b' n'"
    using has_buf_replaces [OF assms(1,2), of "upd_buf b f s" "f (bufs s b)"] assms(3-8) hb
      cache_okD(1) [OF assms(1)] buf_okD(1) [OF cache_okD(3) [OF assms(1) hb(1)]] by simp_all
  then show "cache_ok (upd_buf b f s)" "\<And>b' n'. has_buf (upd_buf b f s) b' n' = has_buf s b' n'"
    using replaces_ok [OF assms(1) rp] by simp_all
  show "ablk_of (upd_buf b f s) = (ablk_of s)\<lparr>av := (av (ablk_of s))(n := b_data (f (bufs s b))),
      adt := adt (ablk_of s) - {n} \<union> (if dirty (f (bufs s b)) then {n} else {})\<rparr>"
    using replaces_ablk [OF assms(1) rp] hb(2,9) assms(3) by (auto simp: held_def intro!: ablk.equality)
qed

lemma set_data_law:
  assumes "cache_ok s" and "has_buf s b n"
  shows "\<exists>s'. set_data b d s = (Val (), s') \<and> cache_ok s' \<and> bframe s s' \<and>
    ablk_of s' = (ablk_of s)\<lparr>av := (av (ablk_of s))(n := d)\<rparr> \<and>
    (\<forall>b' n'. has_buf s' b' n' = has_buf s b' n')"
proof -
  let ?f = "\<lambda>q. q\<lparr>b_data := d\<rparr>"
  have v: "valid (?f (bufs s b))" "dirty (?f (bufs s b)) = dirty (bufs s b)"
    using has_buf_ok(3) [OF assms] by (simp_all add: valid_def dirty_def)
  have "adt (ablk_of s) - {n} \<union> (if dirty (?f (bufs s b)) then {n} else {}) = adt (ablk_of s)"
    using has_buf_dirty [OF assms] by (auto simp: v(2))
  then show ?thesis
    using upd_held_law [OF assms, of ?f] v(1) bframe_upd_buf by (simp add: set_data_def kmod_def)
qed

text \<open>An assignment to a part of the data.\<close>

definition edit_data :: "nat \<Rightarrow> (block \<Rightarrow> block) \<Rightarrow> ('x bst_scheme, unit) K" where
  "edit_data b g = kmod (upd_buf b (\<lambda>q. q\<lparr>b_data := g (b_data q)\<rparr>))"

lemma edit_data_eq: "edit_data b g s = set_data b (g (b_data (bufs s b))) s"
  by (simp add: edit_data_def set_data_def kmod_def upd_buf_def)

text \<open>Pinning a held buffer, as \<open>log_write\<close> does.\<close>

definition mark_dirty :: "nat \<Rightarrow> ('x bst_scheme, unit) K" where
  "mark_dirty b = kmod (upd_buf b (\<lambda>q. q\<lparr>b_flags := b_flags q OR B_DIRTY\<rparr>))"

lemma mark_dirty_law:
  assumes "cache_ok s" and "has_buf s b n"
  shows "\<exists>s'. mark_dirty b s = (Val (), s') \<and> cache_ok s' \<and> bframe s s' \<and>
    ablk_of s' = (ablk_of s)\<lparr>adt := insert n (adt (ablk_of s))\<rparr> \<and>
    (\<forall>b' n'. has_buf s' b' n' = has_buf s b' n')"
proof -
  let ?f = "\<lambda>q. q\<lparr>b_flags := b_flags q OR B_DIRTY\<rparr>"
  have v: "valid (?f (bufs s b))" using has_buf_ok(3) [OF assms] by (simp add: flag_bits flag_word_bits bit_simps)
  show ?thesis
    using upd_held_law [OF assms, of ?f] v bframe_upd_buf has_buf_ok(7) [OF assms]
    by (auto simp: mark_dirty_def kmod_def intro!: ablk.equality)
qed

lemma iderw_flags: "(fl AND (B_VALID OR B_DIRTY) = B_VALID) = (bit fl 1 \<and> \<not> bit fl 2)"
proof
  assume h: "fl AND (B_VALID OR B_DIRTY) = B_VALID"
  have "bit (fl AND (B_VALID OR B_DIRTY)) i = bit B_VALID i" for i using h by simp
  from this [of 1] this [of 2] show "bit fl 1 \<and> \<not> bit fl 2" by (simp add: bit_simps flag_word_bits)
next
  assume "bit fl 1 \<and> \<not> bit fl 2"
  then show "fl AND (B_VALID OR B_DIRTY) = B_VALID" by (intro bit_word_eqI) (auto simp: bit_simps flag_word_bits)
qed

lemma iderw_eq:
  assumes "quiet s" and "held s b" and "b_dev (bufs s b) = 1" and "unat (b_blockno (bufs s b)) < disksize s"
  shows "dirty (bufs s b) \<Longrightarrow> iderw b s = (Val (), (upd_buf b (\<lambda>q. q\<lparr>b_flags := b_flags q AND NOT B_DIRTY OR B_VALID\<rparr>) s)
      \<lparr>memdisk := (memdisk s)(unat (b_blockno (bufs s b)) := b_data (bufs s b)),
       dwrites := dwrites s @ [(unat (b_blockno (bufs s b)), b_data (bufs s b))]\<rparr>)"
    and "\<not> dirty (bufs s b) \<Longrightarrow> \<not> valid (bufs s b) \<Longrightarrow> iderw b s =
      (Val (), upd_buf b (\<lambda>q. q\<lparr>b_data := memdisk s (unat (b_blockno q)), b_flags := b_flags q OR B_VALID\<rparr>) s)"
  unfolding iderw_def holdingsleep_bind [OF assms(1)]
  using assms(2-4)
  by (simp_all add: iderw_flags flag_bits flag_tests Let_def kbind_assoc) (simp_all add: kmod_def upd_buf_def)

lemma bwrite_law:
  assumes "cache_ok s" and "has_buf s b n"
  shows "\<exists>s'. bwrite b s = (Val (), s') \<and> cache_ok s' \<and> bframe s s' \<and>
    ablk_of s' = (ablk_of s)\<lparr>ad := (ad (ablk_of s))(n := av (ablk_of s) n),
      aw := aw (ablk_of s) @ [(n, av (ablk_of s) n)], adt := adt (ablk_of s) - {n}\<rparr> \<and>
    (\<forall>b' n'. has_buf s' b' n' = has_buf s b' n')"
proof -
  let ?s1 = "upd_buf b (\<lambda>q. q\<lparr>b_flags := b_flags q OR B_DIRTY\<rparr>) s"
  note hb = has_buf_ok [OF assms]
  note q = cache_okD(1) [OF assms(1)]
  have q1: "quiet ?s1" using q by simp
  let ?q = "(bufs s b)\<lparr>b_flags := (b_flags (bufs s b) OR B_DIRTY) AND NOT B_DIRTY OR B_VALID\<rparr>"
  let ?s' = "s\<lparr>bufs := (bufs s)(b := ?q), memdisk := (memdisk s)(n := b_data (bufs s b)),
     dwrites := dwrites s @ [(n, b_data (bufs s b))]\<rparr>"
  have "bwrite b s = (Val (), ?s')"
    unfolding bwrite_def holdingsleep_bind [OF q]
    using hb iderw_eq(1) [OF q1, of b] by (simp add: upd_buf_def held_def)
  moreover have rp: "replaces s ?s' b n" and "\<And>b' n'. has_buf ?s' b' n' = has_buf s b' n'"
    using has_buf_replaces [OF assms, of ?s' ?q] hb q buf_okD(1) [OF cache_okD(3) [OF assms(1) hb(1)]]
    by (simp_all add: quiet_def can_take_def curproc_def)
  moreover have "valid ?q" "\<not> dirty ?q" by (simp_all add: flag_bits flag_word_bits bit_simps)
  then have "ablk_of ?s' = (ablk_of s)\<lparr>ad := (ad (ablk_of s))(n := av (ablk_of s) n),
      aw := aw (ablk_of s) @ [(n, av (ablk_of s) n)], adt := adt (ablk_of s) - {n}\<rparr>"
    using replaces_ablk [OF assms(1) rp] hb(2,7,9) by (auto simp: held_def intro!: ablk.equality)
  moreover have "bframe s ?s'"
    by (rule bframe_upd [where sl = "slocks s"]) simp_all
  ultimately show ?thesis using replaces_ok [OF assms(1) rp] by auto
qed

text \<open>
  A buffer may be released when its changes are on the disk or pinned in the cache.
\<close>

lemma brelse_put_eq:
  assumes "b < NBUF" and "b_refcnt (bufs s b) = 1"
  shows "brelse_put b s = (Val (), s\<lparr>bufs := move_front b ((bufs s)(b := (bufs s b)\<lparr>b_refcnt := 0\<rparr>))\<rparr>)"
  using assms by (simp add: brelse_put_def b_move_front_eq on_bufs_def kmod_def upd_buf_def)

lemma oblivious_brelse_put: "b < NBUF \<Longrightarrow> oblivious (brelse_put b)"
  by (simp add: brelse_put_def b_move_front_eq on_bufs_def) (intro obl, simp_all add: upd_buf_def)

text \<open>The links after a move, and that nothing else changes.\<close>

lemma core_move_front: "core (move_front b bf i) = core (bf i)"
proof -
  have u: "core ((bf(x := (bf x)\<lparr>b_prev := p\<rparr>)) i) = core (bf i)" "core ((bf(x := (bf x)\<lparr>b_next := p\<rparr>)) i) = core (bf i)"
    "core ((bf(x := (bf x)\<lparr>b_next := p, b_prev := p'\<rparr>)) i) = core (bf i)" for bf x p p'
    by (simp_all add: core_def)
  show ?thesis unfolding move_front_def push_front_def unlink_def Let_def by (simp only: u)
qed

lemma brelse_law:
  assumes "cache_ok s" and "has_buf s b n" and "n \<in> adt (ablk_of s) \<or> av (ablk_of s) n = ad (ablk_of s) n"
  shows "\<exists>s'. brelse b s = (Val (), s') \<and> cache_ok s' \<and> bframe s s' \<and>
    ablk_of s' = (ablk_of s)\<lparr>ah := ah (ablk_of s) - {n}\<rparr> \<and>
    (\<forall>b' n'. has_buf s' b' n' = (has_buf s b' n' \<and> b' \<noteq> b))"
proof -
  note hb = has_buf_ok [OF assms(1,2)]
  note q = cache_okD(1) [OF assms(1)]
  let ?s1 = "map_procs {0..<NPROC} (woken (Ch_buf b)) (upd_sl (L_buf b) (\<lambda>l. \<lparr>sl_locked = 0, sl_pid = 0\<rparr>) s)"
  let ?bf = "move_front b ((bufs s)(b := (bufs s b)\<lparr>b_refcnt := 0\<rparr>))"
  let ?s' = "?s1\<lparr>bufs := ?bf\<rparr>"
  have b1: "bufs ?s1 = bufs s" "memdisk ?s1 = memdisk s" "disksize ?s1 = disksize s" "dwrites ?s1 = dwrites s"
    "held ?s1 i = (held s i \<and> i \<noteq> b)" for i
    by (simp_all add: map_procs_def upd_sl_def held_def)
  have q1: "quiet ?s1" using q by simp
  have r1: "b_refcnt (bufs s b) = 1" using buf_okD(1) [OF cache_okD(3) [OF assms(1) hb(1)]] hb(2) by simp
  have "with_lock L_bcache (brelse_put b) ?s1 = (Val (), ?s')"
    using with_lock_Val [OF oblivious_brelse_put [OF hb(1)] quiet_take [OF q1] brelse_put_eq [OF hb(1)]] b1(1) r1
    by simp
  then have run: "brelse b s = (Val (), ?s')"
    using hb(2) releasesleep_eq [OF q, of "L_buf b"] by (simp add: brelse_def holdingsleep_bind [OF q] kbind_Val)
  have bf: "core (?bf i) = core (if i = b then (bufs s b)\<lparr>b_refcnt := 0\<rparr> else bufs s i)" for i
    by (simp add: core_move_front)
  note e = core_eq [OF bf [of b, simplified]]
  have fl: "valid ((bufs s b)\<lparr>b_refcnt := 0\<rparr>) = valid (bufs s b)" "dirty ((bufs s b)\<lparr>b_refcnt := 0\<rparr>) = dirty (bufs s b)"
    by (simp_all add: valid_def dirty_def)
  have ok: "buf_ok ?s' b"
    using hb assms(3) has_buf_dirty [OF assms(1,2)] by (auto simp: buf_ok_def Let_def e fl b1 held_def map_procs_def upd_sl_def)
  obtain xs where xs: "ring (bufs s) xs" "set xs = {..<NBUF}" using cache_okD(2) [OF assms(1)] by blast
  have "ring ((bufs s)(b := (bufs s b)\<lparr>b_refcnt := 0\<rparr>)) xs = ring (bufs s) xs" by (rule ring_cong) simp_all
  with xs(1) ring_move_front [of _ xs b] have rg: "ring ?bf (b # remove1 b xs)" "set (b # remove1 b xs) = {..<NBUF}"
    using xs hb(1) by (auto simp: ring_def)
  have q': "quiet ?s'" using q1 by simp
  have hd: "held ?s' i = (held s i \<and> i \<noteq> b)" for i using b1(5) [of i] by (simp add: held_def)
  have rp: "replaces s ?s' b n"
    unfolding replaces_def
    using hb q' rg ok bf same_block_unique [OF assms(1,2)] e by (auto simp: hd b1)
  have "ablk_of ?s' = (ablk_of s)\<lparr>ah := ah (ablk_of s) - {n}\<rparr>"
    using replaces_ablk [OF assms(1) rp] hb(3,7) has_buf_dirty [OF assms(1,2)] e fl
    by (auto simp: hd b1 intro!: ablk.equality)
  moreover have "has_buf ?s' b' n' = (has_buf s b' n' \<and> b' \<noteq> b)" for b' n'
    using core_eq(3) [OF bf [of b']] by (auto simp: has_buf_def hd)
  moreover have "bframe s ?s'"
    unfolding bframe_def
    by (rule exI [of _ "ptable ?s1"], rule exI [of _ "slocks ?s1"], rule exI [of _ ?bf])
      (auto simp: map_procs_def upd_sl_def woken_def)
  ultimately show ?thesis using run replaces_ok [OF assms(1) rp] by auto
qed

lemma finite_bnos: "finite (bnos s P)"
proof -
  have "bnos s P \<subseteq> (\<lambda>i. unat (b_blockno (bufs s i))) ` {..<NBUF}" by (auto simp: bnos_def)
  then show ?thesis by (rule finite_subset) simp
qed

lemma free_buffer:
  assumes "cache_ok s" and "card (ah (ablk_of s) \<union> adt (ablk_of s)) < NBUF"
  shows "\<exists>i < NBUF. unused (bufs s i)"
proof (rule ccontr)
  assume "\<not> (\<exists>i < NBUF. unused (bufs s i))"
  then have busy: "held s i \<or> dirty (bufs s i)" if "i < NBUF" for i
    using that buf_okD(1) [OF cache_okD(3) [OF assms(1) that]] by (auto simp: unused_def dirty_def split: if_splits)
  then have dev: "b_dev (bufs s i) = 1" if "i < NBUF" for i
    using buf_okD(2-4) [OF cache_okD(3) [OF assms(1) that]] that by blast
  have "inj_on (\<lambda>i. unat (b_blockno (bufs s i))) {..<NBUF}"
    using cache_okD(4) [OF assms(1)] dev by (auto simp: inj_on_def word_unat_eq_iff)
  moreover have "(\<lambda>i. unat (b_blockno (bufs s i))) ` {..<NBUF} \<subseteq> ah (ablk_of s) \<union> adt (ablk_of s)"
    using busy by (auto simp: ablk_of_def bnos_def)
  moreover have "finite (ah (ablk_of s) \<union> adt (ablk_of s))" by (simp add: ablk_of_def finite_bnos)
  ultimately have "card {..<NBUF} \<le> card (ah (ablk_of s) \<union> adt (ablk_of s))" by (metis card_image card_mono)
  then show False using assms(2) by simp
qed

lemma oblivious_bget_cached [obl]: "oblivious (bget_cached n dev blockno b)"
  by (induction n arbitrary: b) (auto intro!: obl)

lemma oblivious_bget_unused [obl]: "oblivious (bget_unused n b)"
  by (induction n arbitrary: b) (auto intro!: obl)

lemma oblivious_bget_pick: "oblivious (bget_pick dev blockno)"
  unfolding bget_pick_def by (intro obl) (simp_all add: upd_buf_def)

text \<open>The buffer that \<open>bget\<close> picks: the one for the block, or an unused one set up for it.\<close>

definition picked :: "'x bst_scheme \<Rightarrow> u32 \<Rightarrow> nat \<Rightarrow> buf \<Rightarrow> bool" where
  "picked s bn b q =
     (b < NBUF \<and> \<not> held s b \<and> b_dev q = 1 \<and> b_blockno q = bn \<and> b_refcnt q = 1 \<and>
      b_prev q = b_prev (bufs s b) \<and> b_next q = b_next (bufs s b) \<and> b_data q = b_data (bufs s b) \<and>
      (\<forall>i < NBUF. i \<noteq> b \<longrightarrow> b_dev (bufs s i) = 1 \<longrightarrow> b_blockno (bufs s i) \<noteq> bn) \<and>
      (b_dev (bufs s b) = 1 \<and> b_blockno (bufs s b) = bn \<and> b_flags q = b_flags (bufs s b) \<or>
       \<not> caches 1 bn (bufs s b) \<and> \<not> dirty (bufs s b) \<and> b_flags q = 0))"

lemma bget_pick_ok:
  assumes "cache_ok s" and "unat bn \<notin> ah (ablk_of s)" and "card (ah (ablk_of s) \<union> adt (ablk_of s)) < NBUF"
  shows "\<exists>b q. bget_pick 1 bn s = (Val b, upd_buf b (\<lambda>_. q) s) \<and> picked s bn b q"
proof -
  obtain xs where xs: "ring (bufs s) xs" "set xs = {..<NBUF}" using cache_okD(2) [OF assms(1)] by blast
  have c: "kbind (bget_cached (NBUF + 1) 1 bn (b_next (bufs s NBUF))) g s = g (find (\<lambda>i. caches 1 bn (bufs s i)) xs) s"
    and u: "kbind (bget_unused (NBUF + 1) (b_prev (bufs s NBUF))) g s = g (find (\<lambda>i. unused (bufs s i)) (rev xs)) s"
    for g :: "nat option \<Rightarrow> ('a bst_scheme, nat) K"
    unfolding kbind_def bget_searches [OF xs] by simp_all
  show ?thesis
  proof (cases "find (\<lambda>i. caches 1 bn (bufs s i)) xs")
    case (Some b)
    let ?q = "(bufs s b)\<lparr>b_refcnt := b_refcnt (bufs s b) + 1\<rparr>"
    have b: "b < NBUF" "b_dev (bufs s b) = 1" "b_blockno (bufs s b) = bn"
      using find_index_Some [OF Some] xs(2) by (auto simp: caches_def)
    then have "\<not> held s b" using assms(2) by (auto simp: ablk_of_def bnos_def)
    moreover have "b_blockno (bufs s i) \<noteq> bn" if "i < NBUF" "i \<noteq> b" "b_dev (bufs s i) = 1" for i
      using cache_okD(4) [OF assms(1) that(1) b(1) that(3) b(2)] that(2) b(3) by auto
    moreover have "b_refcnt (bufs s b) = 0"
      using \<open>\<not> held s b\<close> buf_okD(1) [OF cache_okD(3) [OF assms(1) b(1)]] by simp
    ultimately have "picked s bn b ?q" using b by (simp add: picked_def)
    moreover have "bget_pick 1 bn s = (Val b, upd_buf b (\<lambda>_. ?q) s)"
      unfolding bget_pick_def kbind_simps c Some by (simp add: kret_def upd_buf_def)
    ultimately show ?thesis by blast
  next
    case None
    have nc: "\<not> caches 1 bn (bufs s i)" if "i < NBUF" for i
      using None xs(2) that by (auto simp: find_None_iff)
    have "find (\<lambda>i. unused (bufs s i)) (rev xs) \<noteq> None"
      using free_buffer [OF assms(1,3)] xs(2) by (auto simp: find_None_iff)
    then obtain b where fb: "find (\<lambda>i. unused (bufs s i)) (rev xs) = Some b" by blast
    let ?q = "(bufs s b)\<lparr>b_dev := 1, b_blockno := bn, b_flags := 0, b_refcnt := 1\<rparr>"
    have b: "b < NBUF" "unused (bufs s b)" using find_index_Some [OF fb] xs(2) by auto
    then have "\<not> held s b" "\<not> dirty (bufs s b)"
      using buf_okD(1) [OF cache_okD(3) [OF assms(1) b(1)]] by (auto simp: unused_def dirty_def)
    then have "picked s bn b ?q" using b nc by (simp add: picked_def caches_def)
    moreover have "bget_pick 1 bn s = (Val b, upd_buf b (\<lambda>_. ?q) s)"
      unfolding bget_pick_def kbind_simps c None option.case u fb by (simp add: kret_def upd_buf_def)
    ultimately show ?thesis by blast
  qed
qed

text \<open>The state after the buffer is locked and, if need be, read from the disk.\<close>

lemma bread_picked:
  assumes "quiet s" and "picked s bn b q" and "unat bn < disksize s" and "dirty q \<longrightarrow> valid q"
    and "bget_pick 1 bn s = (Val b, upd_buf b (\<lambda>_. q) s)"
  shows "\<exists>pid. bread 1 bn s = (Val b, upd_sl (L_buf b) (\<lambda>_. \<lparr>sl_locked = 1, sl_pid = pid\<rparr>)
     (upd_buf b (\<lambda>_. if valid q then q else q\<lparr>b_data := memdisk s (unat bn), b_flags := b_flags q OR B_VALID\<rparr>) s))"
proof -
  let ?s1 = "upd_buf b (\<lambda>_. q) s" and ?pid = "p_pid (ptable s (the (curproc s)))"
  let ?s2 = "upd_sl (L_buf b) (\<lambda>_. \<lparr>sl_locked = 1, sl_pid = ?pid\<rparr>) ?s1"
  have w: "with_lock L_bcache (bget_pick 1 bn) s = (Val b, ?s1)"
    using oblivious_bget_pick quiet_take [OF assms(1)] assms(5) by (rule with_lock_Val)
  have a: "acquiresleep (L_buf b) ?s1 = (Val (), ?s2)"
    using acquiresleep_eq [of ?s1 "L_buf b"] assms(1,2) by (simp add: picked_def held_def upd_buf_def curproc_def)
  have g: "bget 1 bn s = (Val b, ?s2)"
    by (simp add: bget_def kbind_def w a kret_def)
  have q2: "quiet ?s2" "held ?s2 b" "bufs ?s2 b = q" "disksize ?s2 = disksize s" "memdisk ?s2 = memdisk s"
    using assms(1) by (simp_all add: held_def)
  show ?thesis
  proof (cases "valid q")
    case True
    then show ?thesis
      using q2(3) by (intro exI [of _ ?pid]) (simp add: bread_def kbind_def g flag_tests flag_bits kret_def kget_def)
  next
    case False
    then have nd: "\<not> dirty q" using assms(4) by blast
    have "iderw b ?s2 = (Val (), upd_buf b (\<lambda>q. q\<lparr>b_data := memdisk s (unat (b_blockno q)), b_flags := b_flags q OR B_VALID\<rparr>) ?s2)"
      using iderw_eq(2) [OF q2(1,2)] q2 assms(2,3) False nd by (simp add: picked_def)
    moreover have "b_blockno q = bn" using assms(2) by (simp add: picked_def)
    moreover have "upd_buf b f ?s2 = upd_sl (L_buf b) (\<lambda>_. \<lparr>sl_locked = 1, sl_pid = ?pid\<rparr>) (upd_buf b (\<lambda>_. f q) s)" for f
      by (simp add: upd_buf_def upd_sl_def)
    ultimately show ?thesis
      using False q2(3)
      by (intro exI [of _ ?pid]) (simp add: bread_def kbind_def g flag_tests flag_bits kret_def kget_def)
  qed
qed

lemma bread_law:
  assumes "cache_ok s" and "unat bn < asize (ablk_of s)" and "unat bn \<notin> ah (ablk_of s)"
    and "card (ah (ablk_of s) \<union> adt (ablk_of s)) < NBUF"
  shows "\<exists>b s'. bread 1 bn s = (Val b, s') \<and> cache_ok s' \<and> bframe s s' \<and>
    ablk_of s' = (ablk_of s)\<lparr>ah := insert (unat bn) (ah (ablk_of s))\<rparr> \<and>
    (\<forall>b' n'. has_buf s' b' n' = (has_buf s b' n' \<or> b' = b \<and> n' = unat bn)) \<and> (\<forall>n'. \<not> has_buf s b n')"
proof -
  obtain b q where pk: "bget_pick 1 bn s = (Val b, upd_buf b (\<lambda>_. q) s)" and p: "picked s bn b q"
    using bget_pick_ok [OF assms(1,3,4)] by blast
  have b: "b < NBUF" and nh: "\<not> held s b"
    and oth: "\<And>i. i < NBUF \<Longrightarrow> i \<noteq> b \<Longrightarrow> b_dev (bufs s i) = 1 \<Longrightarrow> b_blockno (bufs s i) \<noteq> bn"
    and alt: "b_dev (bufs s b) = 1 \<and> b_blockno (bufs s b) = bn \<and> b_flags q = b_flags (bufs s b) \<or>
       \<not> caches 1 bn (bufs s b) \<and> \<not> dirty (bufs s b) \<and> b_flags q = 0"
    using p by (auto simp: picked_def)
  note ok = cache_okD(3) [OF assms(1) b]
  let ?q = "if valid q then q else q\<lparr>b_data := memdisk s (unat bn), b_flags := b_flags q OR B_VALID\<rparr>"
  have fl: "valid q \<longrightarrow> valid (bufs s b) \<and> b_blockno (bufs s b) = bn"
    "dirty q \<longrightarrow> valid q" "dirty q \<longrightarrow> dirty (bufs s b) \<and> b_blockno (bufs s b) = bn"
    "b_blockno (bufs s b) = bn \<and> dirty (bufs s b) \<longrightarrow> dirty q"
    using alt buf_okD(3,4) [OF ok] by (auto simp: flag_bits caches_def)
  have "unat bn < disksize s" using assms(2) by simp
  then obtain pid where run: "bread 1 bn s = (Val b, upd_sl (L_buf b) (\<lambda>_. \<lparr>sl_locked = 1, sl_pid = pid\<rparr>) (upd_buf b (\<lambda>_. ?q) s))"
    using bread_picked [OF cache_okD(1) [OF assms(1)] p _ fl(2) pk] by blast
  let ?s' = "upd_sl (L_buf b) (\<lambda>_. \<lparr>sl_locked = 1, sl_pid = pid\<rparr>) (upd_buf b (\<lambda>_. ?q) s)"
  have hd: "held ?s' i = (held s i \<or> i = b)" for i by (simp add: held_def)
  have s': "bufs ?s' = (bufs s)(b := ?q)" "memdisk ?s' = memdisk s" "disksize ?s' = disksize s" "dwrites ?s' = dwrites s"
    by simp_all
  have qf: "b_dev ?q = 1" "b_blockno ?q = bn" "b_refcnt ?q = 1" "b_prev ?q = b_prev (bufs s b)" "b_next ?q = b_next (bufs s b)"
    "valid ?q" "dirty ?q = dirty q"
    using p by (auto simp: picked_def flag_bits flag_word_bits bit_simps)
  have view: "b_data ?q = av (ablk_of s) (unat bn)"
  proof (cases "valid q")
    case True
    then show ?thesis using cached_Some [OF assms(1) b] fl(1) p by (simp add: ablk_of_def picked_def)
  next
    case False
    have "unat (b_blockno (bufs s i)) \<noteq> unat bn" if i: "i < NBUF" "valid (bufs s i)" for i
    proof (cases "i = b")
      case True
      then show ?thesis
        using alt False i(2) buf_okD(4) [OF ok] by (auto simp: word_unat_eq_iff [symmetric] flag_bits caches_def)
    next
      case False
      then show ?thesis
        using oth [OF i(1)] buf_okD(4) [OF cache_okD(3) [OF assms(1) i(1)] i(2)] by (simp add: word_unat_eq_iff)
    qed
    then have "cached s (unat bn) = None" by (simp add: cached_None)
    then show ?thesis using False by (simp add: ablk_of_def)
  qed
  have "buf_ok ?s' b" unfolding buf_ok_def hd s' using qf assms(2) by (simp add: Let_def)
  moreover have "ring (bufs ?s') xs = ring (bufs s) xs" for xs
    unfolding s' by (rule ring_cong) (use qf in auto)
  moreover have "quiet ?s'" using cache_okD(1) [OF assms(1)] by simp
  moreover have "unat (b_blockno (bufs s b)) = unat bn \<or> \<not> held s b \<and> \<not> dirty (bufs s b)" using nh alt by auto
  ultimately have rp: "replaces s ?s' b (unat bn)"
    unfolding replaces_def hd s' using b cache_okD(2) [OF assms(1)] qf(1,2) oth
    by (auto simp: word_unat_eq_iff [symmetric])
  have dt: "dirty q \<longleftrightarrow> unat bn \<in> adt (ablk_of s)"
    using fl(3,4) b oth buf_okD(3,4) [OF cache_okD(3) [OF assms(1)]]
    by (fastforce simp: ablk_of_def bnos_def word_unat_eq_iff [symmetric])
  have "ablk_of ?s' = (ablk_of s)\<lparr>ah := insert (unat bn) (ah (ablk_of s))\<rparr>"
    using replaces_ablk [OF assms(1) rp] view qf(6,7) dt assms(3) by (auto simp: hd s' intro!: ablk.equality)
  moreover have "has_buf ?s' b' n' = (has_buf s b' n' \<or> b' = b \<and> n' = unat bn)" "\<not> has_buf s b n'" for b' n'
    unfolding has_buf_def hd s' using b qf(2) nh by auto
  moreover have "bframe s ?s'"
    by (rule bframe_upd [where sl = "slocks ?s'" and md = "memdisk s" and dw = "dwrites s" and bf = "bufs ?s'"])
      (simp_all add: upd_sl_def upd_buf_def)
  ultimately show ?thesis using run replaces_ok [OF assms(1) rp] by blast
qed

section \<open>The interface\<close>

text \<open>
  What a client of the cache relies on.  \<open>ok\<close> is the invariant, \<open>abs\<close> the view, \<open>has s b n\<close> that
  the client holds buffer \<open>b\<close> for block \<open>n\<close>, and \<open>fr\<close> relates states that agree outside the cache.
\<close>

locale block_cache =
  fixes ok :: "'s \<Rightarrow> bool" and abs :: "'s \<Rightarrow> ablk" and has :: "'s \<Rightarrow> nat \<Rightarrow> nat \<Rightarrow> bool"
    and fr :: "'s \<Rightarrow> 's \<Rightarrow> bool" and dat :: "'s \<Rightarrow> nat \<Rightarrow> block"
    and rd :: "u32 \<Rightarrow> ('s, nat) K" and wr :: "nat \<Rightarrow> ('s, unit) K" and rel :: "nat \<Rightarrow> ('s, unit) K"
    and setd :: "nat \<Rightarrow> block \<Rightarrow> ('s, unit) K"
  assumes fr_refl: "fr s s" and fr_trans: "fr s t \<Longrightarrow> fr t u \<Longrightarrow> fr s u"
    and dat_view: "ok s \<Longrightarrow> has s b n \<Longrightarrow> dat s b = av (abs s) n"
    and rd_law: "ok s \<Longrightarrow> unat bn < asize (abs s) \<Longrightarrow> unat bn \<notin> ah (abs s) \<Longrightarrow>
      card (ah (abs s) \<union> adt (abs s)) < NBUF \<Longrightarrow>
      \<exists>b s'. rd bn s = (Val b, s') \<and> ok s' \<and> fr s s' \<and> abs s' = (abs s)\<lparr>ah := insert (unat bn) (ah (abs s))\<rparr> \<and>
        (\<forall>b' n'. has s' b' n' = (has s b' n' \<or> b' = b \<and> n' = unat bn)) \<and> (\<forall>n'. \<not> has s b n')"
    and wr_law: "ok s \<Longrightarrow> has s b n \<Longrightarrow>
      \<exists>s'. wr b s = (Val (), s') \<and> ok s' \<and> fr s s' \<and>
        abs s' = (abs s)\<lparr>ad := (ad (abs s))(n := av (abs s) n), aw := aw (abs s) @ [(n, av (abs s) n)],
          adt := adt (abs s) - {n}\<rparr> \<and> (\<forall>b' n'. has s' b' n' = has s b' n')"
    and setd_law: "ok s \<Longrightarrow> has s b n \<Longrightarrow>
      \<exists>s'. setd b d s = (Val (), s') \<and> ok s' \<and> fr s s' \<and> abs s' = (abs s)\<lparr>av := (av (abs s))(n := d)\<rparr> \<and>
        (\<forall>b' n'. has s' b' n' = has s b' n')"
    and rel_law: "ok s \<Longrightarrow> has s b n \<Longrightarrow> n \<in> adt (abs s) \<or> av (abs s) n = ad (abs s) n \<Longrightarrow>
      \<exists>s'. rel b s = (Val (), s') \<and> ok s' \<and> fr s s' \<and> abs s' = (abs s)\<lparr>ah := ah (abs s) - {n}\<rparr> \<and>
        (\<forall>b' n'. has s' b' n' = (has s b' n' \<and> b' \<noteq> b))"
    and held_in: "ok s \<Longrightarrow> has s b n \<Longrightarrow> n \<in> ah (abs s) \<and> n < asize (abs s)"
    and finite_abs: "finite (ah (abs s))" "finite (adt (abs s))"
begin

lemma wp_rd:
  assumes "ok s" and "unat bn < asize (abs s)" and "unat bn \<notin> ah (abs s)"
    and "card (ah (abs s) \<union> adt (abs s)) < NBUF"
    and "\<And>b s'. ok s' \<Longrightarrow> fr s s' \<Longrightarrow> abs s' = (abs s)\<lparr>ah := insert (unat bn) (ah (abs s))\<rparr> \<Longrightarrow>
      (\<And>b' n'. has s' b' n' = (has s b' n' \<or> b' = b \<and> n' = unat bn)) \<Longrightarrow> (\<And>n'. \<not> has s b n') \<Longrightarrow> Q b s'"
  shows "wp (rd bn) Q E s"
  using rd_law [OF assms(1-4)] assms(5) by (force simp: wp_def)

lemma wp_wr:
  assumes "ok s" and "has s b n"
    and "\<And>s'. ok s' \<Longrightarrow> fr s s' \<Longrightarrow> abs s' = (abs s)\<lparr>ad := (ad (abs s))(n := av (abs s) n),
        aw := aw (abs s) @ [(n, av (abs s) n)], adt := adt (abs s) - {n}\<rparr> \<Longrightarrow>
      (\<And>b' n'. has s' b' n' = has s b' n') \<Longrightarrow> Q () s'"
  shows "wp (wr b) Q E s"
  using wr_law [OF assms(1,2)] assms(3) by (force simp: wp_def)

lemma wp_setd:
  assumes "ok s" and "has s b n"
    and "\<And>s'. ok s' \<Longrightarrow> fr s s' \<Longrightarrow> abs s' = (abs s)\<lparr>av := (av (abs s))(n := d)\<rparr> \<Longrightarrow>
      (\<And>b' n'. has s' b' n' = has s b' n') \<Longrightarrow> Q () s'"
  shows "wp (setd b d) Q E s"
  using setd_law [OF assms(1,2)] assms(3) by (force simp: wp_def)

lemma wp_rel:
  assumes "ok s" and "has s b n" and "n \<in> adt (abs s) \<or> av (abs s) n = ad (abs s) n"
    and "\<And>s'. ok s' \<Longrightarrow> fr s s' \<Longrightarrow> abs s' = (abs s)\<lparr>ah := ah (abs s) - {n}\<rparr> \<Longrightarrow>
      (\<And>b' n'. has s' b' n' = (has s b' n' \<and> b' \<noteq> b)) \<Longrightarrow> Q () s'"
  shows "wp (rel b) Q E s"
  using rel_law [OF assms(1-3)] assms(4) by (force simp: wp_def)

text \<open>Reading a block and letting go of it leaves the view as it was.\<close>

lemma wp_read_block:
  assumes "ok s" and "unat bn < asize (abs s)" and "unat bn \<notin> ah (abs s)"
    and "card (ah (abs s) \<union> adt (abs s)) < NBUF"
    and "unat bn \<in> adt (abs s) \<or> av (abs s) (unat bn) = ad (abs s) (unat bn)"
    and "\<And>s'. ok s' \<Longrightarrow> fr s s' \<Longrightarrow> abs s' = abs s \<Longrightarrow> has s' = has s \<Longrightarrow> Q (f (av (abs s) (unat bn))) s'"
  shows "wp (kbind (rd bn) (\<lambda>b. kbind (kget (\<lambda>s. f (dat s b))) (\<lambda>x. kthen (rel b) (kret x)))) Q E s"
  unfolding wp_simps
proof (rule wp_rd [OF assms(1-4)])
  fix b s1
  assume 1: "ok s1" "fr s s1" "abs s1 = (abs s)\<lparr>ah := insert (unat bn) (ah (abs s))\<rparr>"
    and h: "\<And>b' n'. has s1 b' n' = (has s b' n' \<or> b' = b \<and> n' = unat bn)" "\<And>n'. \<not> has s b n'"
  have hb: "has s1 b (unat bn)" by (simp add: h(1))
  have d: "dat s1 b = av (abs s) (unat bn)" using dat_view [OF 1(1) hb] by (simp add: 1(3))
  show "wp (rel b) (\<lambda>_. Q (f (dat s1 b))) E s1"
  proof (rule wp_rel [OF 1(1) hb])
    show "unat bn \<in> adt (abs s1) \<or> av (abs s1) (unat bn) = ad (abs s1) (unat bn)" using assms(5) by (simp add: 1(3))
    fix s2
    assume 2: "ok s2" "fr s1 s2" "abs s2 = (abs s1)\<lparr>ah := ah (abs s1) - {unat bn}\<rparr>"
      and h2: "\<And>b' n'. has s2 b' n' = (has s1 b' n' \<and> b' \<noteq> b)"
    have "abs s2 = abs s" using 1(3) 2(3) assms(3) by simp
    moreover have "has s2 = has s" using h h2 by (auto simp: fun_eq_iff)
    ultimately show "Q (f (dat s1 b)) s2" unfolding d using 2(1) fr_trans [OF 1(2) 2(2)] by (intro assms(6))
  qed
qed

lemma room_insert: "card (insert n (ah (abs s)) \<union> adt (abs s)) \<le> Suc (card (ah (abs s) \<union> adt (abs s)))"
  by (simp add: card_insert_if finite_abs)

text \<open>Overwriting a block: read it, change it, write it back, release it.\<close>

lemma wp_write_block:
  assumes "ok s" and "unat bn < asize (abs s)" and "unat bn \<notin> ah (abs s)"
    and "card (ah (abs s) \<union> adt (abs s)) < NBUF"
    and "\<And>s'. ok s' \<Longrightarrow> fr s s' \<Longrightarrow> has s' = has s \<Longrightarrow>
      abs s' = (abs s)\<lparr>av := (av (abs s))(unat bn := f (av (abs s) (unat bn))),
        ad := (ad (abs s))(unat bn := f (av (abs s) (unat bn))),
        aw := aw (abs s) @ [(unat bn, f (av (abs s) (unat bn)))], adt := adt (abs s) - {unat bn}\<rparr> \<Longrightarrow> Q () s'"
  shows "wp (kbind (rd bn) (\<lambda>b. kbind (kget (\<lambda>s. dat s b)) (\<lambda>d. kthen (setd b (f d)) (kthen (wr b) (rel b))))) Q E s"
  unfolding wp_simps
proof (rule wp_rd [OF assms(1-4)], rule wp_setd, assumption)
  fix b s1 s2
  assume 1: "ok s1" "fr s s1" "abs s1 = (abs s)\<lparr>ah := insert (unat bn) (ah (abs s))\<rparr>"
    and h: "\<And>b' n'. has s1 b' n' = (has s b' n' \<or> b' = b \<and> n' = unat bn)" "\<And>n'. \<not> has s b n'"
  show hb: "has s1 b (unat bn)" by (simp add: h(1))
  have d: "dat s1 b = av (abs s) (unat bn)" using dat_view [OF 1(1) hb] by (simp add: 1(3))
  assume 2: "ok s2" "fr s1 s2" "abs s2 = (abs s1)\<lparr>av := (av (abs s1))(unat bn := f (dat s1 b))\<rparr>"
    and h2: "\<And>b' n'. has s2 b' n' = has s1 b' n'"
  have hb2: "has s2 b (unat bn)" by (simp add: h2 hb)
  show "wp (wr b) (\<lambda>_. wp (rel b) Q E) E s2"
  proof (rule wp_wr [OF 2(1) hb2], rule wp_rel, assumption)
    fix s3 s4
    assume 3: "ok s3" "fr s2 s3" "abs s3 = (abs s2)\<lparr>ad := (ad (abs s2))(unat bn := av (abs s2) (unat bn)),
        aw := aw (abs s2) @ [(unat bn, av (abs s2) (unat bn))], adt := adt (abs s2) - {unat bn}\<rparr>"
      and h3: "\<And>b' n'. has s3 b' n' = has s2 b' n'"
    show "has s3 b (unat bn)" by (simp add: h3 hb2)
    show "unat bn \<in> adt (abs s3) \<or> av (abs s3) (unat bn) = ad (abs s3) (unat bn)" by (simp add: 3(3))
    assume 4: "ok s4" "fr s3 s4" "abs s4 = (abs s3)\<lparr>ah := ah (abs s3) - {unat bn}\<rparr>"
      and h4: "\<And>b' n'. has s4 b' n' = (has s3 b' n' \<and> b' \<noteq> b)"
    have "has s4 = has s" using h by (auto simp: fun_eq_iff h2 h3 h4)
    moreover have "fr s s4" using 1(2) 2(2) 3(2) 4(2) fr_trans by blast
    ultimately show "Q () s4" using 4(1) 1(3) 2(3) 3(3) 4(3) assms(3) d by (intro assms(5)) auto
  qed
qed

end

interpretation bc: block_cache cache_ok ablk_of has_buf bframe "\<lambda>s b. b_data (bufs s b)" "bread 1" bwrite brelse set_data
proof unfold_locales
  show "bframe s s" for s :: "'a bst_scheme" by (rule bframe_refl)
  show "bframe s t \<Longrightarrow> bframe t u \<Longrightarrow> bframe s u" for s t u :: "'a bst_scheme" by (rule bframe_trans)
  show "cache_ok s \<Longrightarrow> has_buf s b n \<Longrightarrow> b_data (bufs s b) = av (ablk_of s) n" for s :: "'a bst_scheme" and b n
    by (rule has_buf_ok)
  show "cache_ok s \<Longrightarrow> has_buf s b n \<Longrightarrow> n \<in> ah (ablk_of s) \<and> n < asize (ablk_of s)" for s :: "'a bst_scheme" and b n
    using has_buf_ok(8,9) by auto
  show "finite (ah (ablk_of s))" "finite (adt (ablk_of s))" for s :: "'a bst_scheme"
    by (simp_all add: ablk_of_def finite_bnos)
qed (fact bread_law bwrite_law set_data_law brelse_law)+

section \<open>From boot on\<close>

definition buf0 :: buf where
  "buf0 = \<lparr>b_flags = 0, b_dev = 0, b_blockno = 0, b_refcnt = 0, b_prev = 0, b_next = 0, b_qnext = None, b_data = \<lambda>_. 0\<rparr>"

definition cache_boot :: "'x bst_scheme \<Rightarrow> bool" where
  "cache_boot s = (quiet s \<and> (\<forall>i. bufs s i = buf0))"

lemma initlock_free: "can_take lk s \<Longrightarrow> initlock lk s = (Val (), s)"
proof -
  assume "can_take lk s"
  then have "locks s lk = \<lparr>locked = 0, lk_cpu = None\<rparr>" by (simp add: can_take_def)
  then have "(locks s)(lk := (locks s lk)\<lparr>locked := 0, lk_cpu := None\<rparr>) = locks s" by (simp add: fun_upd_idem)
  then show ?thesis by (simp add: initlock_def kmod_def set_lock_def)
qed

lemma core_push_front: "core (push_front b bf i) = core (bf i)"
proof -
  have u: "core ((bf(x := (bf x)\<lparr>b_prev := p\<rparr>)) i) = core (bf i)" "core ((bf(x := (bf x)\<lparr>b_next := p\<rparr>)) i) = core (bf i)"
    "core ((bf(x := (bf x)\<lparr>b_next := p, b_prev := p'\<rparr>)) i) = core (bf i)" for bf x p p'
    by (simp_all add: core_def)
  show ?thesis unfolding push_front_def Let_def by (simp only: u)
qed

lemma binit_step_eq:
  assumes "quiet s" and "b < NBUF"
  shows "binit_step b s =
    (Val (), s\<lparr>slocks := (slocks s)(L_buf b := \<lparr>sl_locked = 0, sl_pid = 0\<rparr>), bufs := push_front b (bufs s)\<rparr>)"
proof -
  let ?s1 = "upd_buf b (\<lambda>q. q\<lparr>b_next := b_next (bufs s NBUF), b_prev := NBUF\<rparr>) s"
  have "initsleeplock (L_buf b) ?s1 = (Val (), upd_sl (L_buf b) (\<lambda>l. \<lparr>sl_locked = 0, sl_pid = 0\<rparr>) ?s1)"
    using initlock_free [of "L_buf b" ?s1] assms(1) by (simp add: quiet_take initsleeplock_def kbind_def kmod_def)
  then show ?thesis
    using assms(2) by (simp add: binit_step_def kbind_def kmod_def)
      (simp add: upd_buf_def upd_sl_def push_front_def Let_def)
qed

lemma binit_establishes:
  assumes "cache_boot s"
  shows "wp binit (\<lambda>_ s'. cache_ok s' \<and> bframe s s' \<and> memdisk s' = memdisk s \<and> dwrites s' = dwrites s \<and>
     ah (ablk_of s') = {} \<and> adt (ablk_of s') = {}) E s"
proof -
  let ?s0 = "upd_buf NBUF (\<lambda>q. q\<lparr>b_prev := NBUF, b_next := NBUF\<rparr>) s"
  have q: "quiet s" and b0: "\<And>i. bufs s i = buf0" using assms by (simp_all add: cache_boot_def)
  define I where "I = (\<lambda>js t. \<exists>k \<le> NBUF. js = [k..<NBUF] \<and> ring (bufs t) (rev [0..<k]) \<and> quiet t \<and> bframe s t \<and>
      (\<forall>i. core (bufs t i) = core buf0) \<and> (\<forall>i < k. \<not> held t i) \<and> memdisk t = memdisk s \<and> dwrites t = dwrites s)"
  have "I [0..<NBUF] ?s0"
    unfolding I_def using q b0 bframe_upd_buf [of s] by (intro exI [of _ 0]) (auto simp: ring_def core_def)
  moreover have "wp (binit_step b) (\<lambda>_ t'. I js t') E t" if I: "I (b # js) t" for b js t
  proof -
    let ?t = "t\<lparr>slocks := (slocks t)(L_buf b := \<lparr>sl_locked = 0, sl_pid = 0\<rparr>), bufs := push_front b (bufs t)\<rparr>"
    obtain k where k: "k \<le> NBUF" "b # js = [k..<NBUF]" "ring (bufs t) (rev [0..<k])" "quiet t" "bframe s t"
      "\<forall>i. core (bufs t i) = core buf0" "\<forall>i < k. \<not> held t i" "memdisk t = memdisk s" "dwrites t = dwrites s"
      using I unfolding I_def by blast
    have "k < NBUF" using k(2) by (cases "k < NBUF") auto
    then have b: "b = k" "k < NBUF" "js = [Suc k..<NBUF]" using k(2) by (simp_all add: upt_conv_Cons)
    have "bframe t ?t"
      by (rule bframe_upd [where sl = "slocks ?t" and bf = "bufs ?t" and md = "memdisk t" and dw = "dwrites t"]) simp_all
    then have "bframe s ?t" using bframe_trans [OF k(5)] by blast
    moreover have "quiet ?t" using k(4) by (simp add: quiet_def can_take_def curproc_def)
    moreover have "ring (bufs ?t) (rev [0..<Suc k])" using ring_push_front [OF k(3), of b] b by simp
    ultimately have "I js ?t"
      unfolding I_def using k b by (intro exI [of _ "Suc k"]) (auto simp: held_def core_push_front)
    then show ?thesis using binit_step_eq [OF k(4)] b by (simp add: wp_def)
  qed
  moreover have "cache_ok t \<and> bframe s t \<and> memdisk t = memdisk s \<and> dwrites t = dwrites s \<and> ah (ablk_of t) = {} \<and> adt (ablk_of t) = {}"
    if I: "I [] t" for t
  proof -
    obtain k where k0: "k \<le> NBUF" "[] = [k..<NBUF]" "ring (bufs t) (rev [0..<k])" "quiet t" "bframe s t"
      "\<forall>i. core (bufs t i) = core buf0" "\<forall>i < k. \<not> held t i" "memdisk t = memdisk s" "dwrites t = dwrites s"
      using I unfolding I_def by blast
    have "k = NBUF" using k0(1) k0(2) [symmetric] by auto
    then have k: "ring (bufs t) (rev [0..<NBUF])" "quiet t" "bframe s t" "\<And>i. i < NBUF \<Longrightarrow> \<not> held t i"
      "memdisk t = memdisk s" "dwrites t = dwrites s" and c: "\<And>i. core (bufs t i) = core buf0"
      using k0 by auto
    note e = core_eq [OF c]
    have "\<exists>xs. ring (bufs t) xs \<and> set xs = {..<NBUF}" using k(1) by (intro exI) auto
    then show ?thesis using k e
      by (auto simp: cache_ok_def cache_inv_def buf_ok_def Let_def ablk_of_def bnos_def buf0_def valid_def dirty_def)
  qed
  ultimately have "wp (kfor [0..<NBUF] binit_step) (\<lambda>_ s'. cache_ok s' \<and> bframe s s' \<and> memdisk s' = memdisk s \<and>
      dwrites s' = dwrites s \<and> ah (ablk_of s') = {} \<and> adt (ablk_of s') = {}) E ?s0"
    by (rule wp_kfor)
  then show ?thesis using initlock_free [OF quiet_take [OF q]] by (simp add: binit_def wp_def kbind_def kmod_def)
qed

text \<open>A client that reads and overwrites whole blocks, and the plain array it believes in.\<close>

datatype blkop = Bread u32 | Bwrite u32 block

fun run_blk :: "blkop list \<Rightarrow> ('x bst_scheme, block list) K" where
  "run_blk [] = kret []"
| "run_blk (Bread n # ops) =
     kbind (kbind (bread 1 n) (\<lambda>b. kbind (kget (\<lambda>s. b_data (bufs s b))) (\<lambda>d. kthen (brelse b) (kret d)))) (\<lambda>d.
     kbind (run_blk ops) (\<lambda>ds. kret (d # ds)))"
| "run_blk (Bwrite n d # ops) =
     kthen (kbind (bread 1 n) (\<lambda>b. kbind (kget (\<lambda>s. b_data (bufs s b))) (\<lambda>_.
       kthen (set_data b d) (kthen (bwrite b) (brelse b))))) (run_blk ops)"

fun spec_blk :: "blkop list \<Rightarrow> (nat \<Rightarrow> block) \<Rightarrow> block list \<times> (nat \<Rightarrow> block)" where
  "spec_blk [] a = ([], a)"
| "spec_blk (Bread n # ops) a = (let r = spec_blk ops a in (a (unat n) # fst r, snd r))"
| "spec_blk (Bwrite n d # ops) a = spec_blk ops (a(unat n := d))"

fun op_block :: "blkop \<Rightarrow> nat" where
  "op_block (Bread n) = unat n"
| "op_block (Bwrite n d) = unat n"

lemma run_blk_spec:
  assumes "cache_ok s" and "ah (ablk_of s) = {}" and "adt (ablk_of s) = {}" and "av (ablk_of s) = ad (ablk_of s)"
    and "list_all (\<lambda>op. op_block op < disksize s) ops"
  shows "wp (run_blk ops) (\<lambda>r s'. r = fst (spec_blk ops (memdisk s)) \<and> memdisk s' = snd (spec_blk ops (memdisk s)) \<and>
     cache_ok s') E s"
  using assms
proof (induction ops arbitrary: s rule: run_blk.induct)
  case 1
  then show ?case by (simp add: wp_simps)
next
  case (2 n ops)
  have "wp (kbind (bread 1 n) (\<lambda>b. kbind (kget (\<lambda>s. b_data (bufs s b))) (\<lambda>d. kthen (brelse b) (kret d))))
     (\<lambda>d. wp (kbind (run_blk ops) (\<lambda>ds. kret (d # ds))) (\<lambda>r s'. r = fst (spec_blk (Bread n # ops) (memdisk s)) \<and>
        memdisk s' = snd (spec_blk (Bread n # ops) (memdisk s)) \<and> cache_ok s') E) E s"
  proof (rule bc.wp_read_block [where f = "\<lambda>d. d", OF 2(2)])
    fix s' :: "'a bst_scheme"
    assume s': "cache_ok s'" "ablk_of s' = ablk_of s"
    then have m: "memdisk s' = memdisk s" "disksize s' = disksize s"
      using ablk_simps(1,3) [of s'] ablk_simps(1,3) [of s] by simp_all
    have "wp (run_blk ops) (\<lambda>r t. r = fst (spec_blk ops (memdisk s)) \<and> memdisk t = snd (spec_blk ops (memdisk s)) \<and>
        cache_ok t) E s'"
      using 2(1) [OF s'(1)] 2(3-6) s'(2) m by (simp add: list_all_iff)
    then show "wp (kbind (run_blk ops) (\<lambda>ds. kret (av (ablk_of s) (unat n) # ds)))
        (\<lambda>r t. r = fst (spec_blk (Bread n # ops) (memdisk s)) \<and> memdisk t = snd (spec_blk (Bread n # ops) (memdisk s)) \<and>
          cache_ok t) E s'"
      unfolding wp_simps by (rule wp_mono) (use 2(5) in \<open>auto simp: Let_def\<close>)
  qed (use 2 in \<open>simp_all add: NBUF_def MAXOPBLOCKS_def\<close>)
  then show ?case by (simp add: wp_bind)
next
  case (3 n d ops)
  have "wp (kbind (bread 1 n) (\<lambda>b. kbind (kget (\<lambda>s. b_data (bufs s b))) (\<lambda>_.
       kthen (set_data b d) (kthen (bwrite b) (brelse b)))))
     (\<lambda>_. wp (run_blk ops) (\<lambda>r s'. r = fst (spec_blk (Bwrite n d # ops) (memdisk s)) \<and>
        memdisk s' = snd (spec_blk (Bwrite n d # ops) (memdisk s)) \<and> cache_ok s') E) E s"
  proof (rule bc.wp_write_block [where f = "\<lambda>_. d", OF 3(2)])
    fix s' :: "'a bst_scheme"
    assume s': "cache_ok s'" and a: "ablk_of s' = (ablk_of s)\<lparr>av := (av (ablk_of s))(unat n := d),
        ad := (ad (ablk_of s))(unat n := d), aw := aw (ablk_of s) @ [(unat n, d)], adt := adt (ablk_of s) - {unat n}\<rparr>"
    then have m: "memdisk s' = (memdisk s)(unat n := d)" "disksize s' = disksize s"
      using ablk_simps(1,3) [of s'] ablk_simps(1,3) [of s] by simp_all
    show "wp (run_blk ops) (\<lambda>r t. r = fst (spec_blk (Bwrite n d # ops) (memdisk s)) \<and>
        memdisk t = snd (spec_blk (Bwrite n d # ops) (memdisk s)) \<and> cache_ok t) E s'"
      using 3(1) [OF s'] 3(3-6) a m by (simp add: list_all_iff fun_upd_def)
  qed (use 3 in \<open>simp_all add: NBUF_def MAXOPBLOCKS_def\<close>)
  then show ?case by (simp add: wp_bind)
qed

lemma view_clean:
  assumes "cache_ok s" and "ah (ablk_of s) = {}" and "adt (ablk_of s) = {}"
  shows "av (ablk_of s) = ad (ablk_of s)"
proof
  fix n
  have "\<not> held s i \<and> \<not> dirty (bufs s i)" if "i < NBUF" for i
    using assms(2,3) that by (auto simp: ablk_of_def bnos_def)
  then show "av (ablk_of s) n = ad (ablk_of s) n"
    using cached_SomeD [of s n] buf_okD(6) [OF cache_okD(3) [OF assms(1)]]
    by (auto simp: ablk_of_def split: option.splits)
qed

text \<open>
  C25: The buffer cache is invisible.  After \<open>binit\<close>, any sequence of block reads and writes through
  \<open>bread\<close>, \<open>bwrite\<close> and \<open>brelse\<close> on blocks of the disk runs without panic, returns what a plain
  array of blocks would, and leaves the disk with the contents of that array.
\<close>

theorem bcache_refines_disk:
  assumes "cache_boot s" and "list_all (\<lambda>op. op_block op < disksize s) ops"
  shows "\<exists>s'. kthen binit (run_blk ops) s = (Val (fst (spec_blk ops (memdisk s))), s') \<and>
    memdisk s' = snd (spec_blk ops (memdisk s))"
proof -
  have "wp binit (\<lambda>_. wp (run_blk ops) (\<lambda>r s'. r = fst (spec_blk ops (memdisk s)) \<and>
      memdisk s' = snd (spec_blk ops (memdisk s)) \<and> cache_ok s') (\<lambda>_ _. False)) (\<lambda>_ _. False) s"
  proof (rule wp_mono [OF binit_establishes [OF assms(1)]])
    fix u :: unit and t :: "'a bst_scheme"
    assume t: "cache_ok t \<and> bframe s t \<and> memdisk t = memdisk s \<and> dwrites t = dwrites s \<and> ah (ablk_of t) = {} \<and> adt (ablk_of t) = {}"
    then have "disksize t = disksize s" by (auto simp: bframe_def)
    then show "wp (run_blk ops) (\<lambda>r s'. r = fst (spec_blk ops (memdisk s)) \<and>
      memdisk s' = snd (spec_blk ops (memdisk s)) \<and> cache_ok s') (\<lambda>_ _. False) t"
      using run_blk_spec [of t ops] view_clean [of t] t assms(2) by simp
  qed simp
  then show ?thesis by (auto simp: wp_bind [symmetric] wp_returns)
qed

definition boot_ex :: bst where
  "boot_ex = ptst.extend (pt_ex (Some 0) (\<lambda>q. q))
     \<lparr>slocks = \<lambda>_. \<lparr>sl_locked = 0, sl_pid = 0\<rparr>, bufs = \<lambda>_. buf0, memdisk = \<lambda>n i. of_nat n, disksize = 1000, dwrites = []\<rparr>"

lemma boot_ex_simps [simp]: "cache_boot boot_ex" "memdisk boot_ex = (\<lambda>n i. of_nat n)" "disksize boot_ex = 1000"
  by (simp_all add: cache_boot_def quiet_def boot_ex_def can_take_def cpu_sane_def curproc_def ptst.defs pt_ex_def)

theorem bcache_refines_disk_witness:
  "\<exists>s'. kthen binit (run_blk [Bwrite 40 (\<lambda>_. 7), Bread 40, Bread 41]) boot_ex = (Val [\<lambda>_. 7, \<lambda>_. 41], s') \<and>
    memdisk s' = (\<lambda>n i. of_nat n)(40 := \<lambda>_. 7)"
  using bcache_refines_disk [of boot_ex "[Bwrite 40 (\<lambda>_. 7), Bread 40, Bread 41]"] by (simp add: Let_def)

end
