(* ===== verification/Xv6_Log.thy ===== *)
theory Xv6_Log
  imports Xv6_Bio
begin

text \<open>
  The write-ahead log (\<open>log.c\<close>) and the superblock it reads (\<open>fs.h\<close>, \<open>readsb\<close> of \<open>fs.c\<close>).

  The central result is about crashes: whatever prefix of the disk writes of a transaction has
  reached the disk, recovery at the next boot makes the disk look as if the transaction had not
  happened or had happened as a whole.  The argument about the on-disk format is made once, for
  any header format with the right round trip, in the locale \<open>redo_log\<close>.
\<close>

section \<open>State\<close>

record superblock =
  sb_size :: u32
  sb_nblocks :: u32
  sb_ninodes :: u32
  sb_nlog :: u32
  sb_logstart :: u32
  sb_inodestart :: u32
  sb_bmapstart :: u32

definition sb_of :: "block \<Rightarrow> superblock" where
  "sb_of d = \<lparr>sb_size = get32 d 0, sb_nblocks = get32 d 4, sb_ninodes = get32 d 8, sb_nlog = get32 d 12,
     sb_logstart = get32 d 16, sb_inodestart = get32 d 20, sb_bmapstart = get32 d 24\<rparr>"

definition readsb :: "u32 \<Rightarrow> ('x bst_scheme, superblock) K" where
  "readsb dev =
     kbind (bread dev 1) (\<lambda>bp.
     kbind (kget (\<lambda>s. sb_of (b_data (bufs s bp)))) (\<lambda>sb.
     kthen (brelse bp) (kret sb)))"

text \<open>\<open>struct log\<close> with its \<open>struct logheader\<close>.\<close>

record logst = bst +
  log_start :: u32
  log_size :: int
  log_outstanding :: int
  log_committing :: bool
  log_dev :: u32
  lh_n :: int
  lh_block :: "nat \<Rightarrow> u32"

definition lh_get :: "nat \<Rightarrow> ('x logst_scheme, u32) K" where
  "lh_get i = (if i < LOGSIZE then kget (\<lambda>s. lh_block s i) else kfail Wild)"

definition lh_set :: "nat \<Rightarrow> u32 \<Rightarrow> ('x logst_scheme, unit) K" where
  "lh_set i w = (if i < LOGSIZE then kmod (\<lambda>s. s\<lparr>lh_block := (lh_block s)(i := w)\<rparr>) else kfail Wild)"

section \<open>Operations\<close>

definition install_one :: "nat \<Rightarrow> ('x logst_scheme, unit) K" where
  "install_one tail =
     kbind (kget log_dev) (\<lambda>dev.
     kbind (kget log_start) (\<lambda>start.
     kbind (bread dev (start + of_nat tail + 1)) (\<lambda>lbuf.
     kbind (lh_get tail) (\<lambda>bn.
     kbind (bread dev bn) (\<lambda>dbuf.
     kbind (kget (\<lambda>s. b_data (bufs s lbuf))) (\<lambda>d.
     kthen (set_data dbuf d)
     (kthen (bwrite dbuf)
     (kthen (brelse lbuf)
     (brelse dbuf)))))))))"

definition install_trans :: "('x logst_scheme, unit) K" where
  "install_trans = kbind (kget lh_n) (\<lambda>n. kfor [0..<nat n] install_one)"

definition read_head :: "('x logst_scheme, unit) K" where
  "read_head =
     kbind (kget log_dev) (\<lambda>dev.
     kbind (kget log_start) (\<lambda>start.
     kbind (bread dev start) (\<lambda>buf.
     kthen (kmod (\<lambda>s. s\<lparr>lh_n := sint (get32 (b_data (bufs s buf)) 0)\<rparr>))
     (kbind (kget lh_n) (\<lambda>n.
     kthen (kfor [0..<nat n] (\<lambda>i. kbind (kget (\<lambda>s. get32 (b_data (bufs s buf)) (4 + 4 * i))) (lh_set i)))
     (brelse buf))))))"

definition write_head :: "('x logst_scheme, unit) K" where
  "write_head =
     kbind (kget log_dev) (\<lambda>dev.
     kbind (kget log_start) (\<lambda>start.
     kbind (bread dev start) (\<lambda>buf.
     kbind (kget lh_n) (\<lambda>n.
     kthen (edit_data buf (\<lambda>d. put32 d 0 (of_int n)))
     (kthen (kfor [0..<nat n] (\<lambda>i. kbind (lh_get i) (\<lambda>bn. edit_data buf (\<lambda>d. put32 d (4 + 4 * i) bn))))
     (kthen (bwrite buf)
     (brelse buf)))))))"

definition recover_from_log :: "('x logst_scheme, unit) K" where
  "recover_from_log =
     kthen read_head
     (kthen install_trans
     (kthen (kmod (\<lambda>s. s\<lparr>lh_n := 0\<rparr>))
     write_head))"

text \<open>The check on the size of \<open>struct logheader\<close> is a constant: \<open>4 * (LOGSIZE + 1) < BSIZE\<close>.\<close>

definition initlog :: "u32 \<Rightarrow> ('x logst_scheme, unit) K" where
  "initlog dev =
     (if 4 * (LOGSIZE + 1) \<ge> BSIZE then kpanic ''initlog: too big logheader''
      else
      kthen (initlock L_log)
      (kbind (readsb dev) (\<lambda>sb.
      kthen (kmod (\<lambda>s. s\<lparr>log_start := sb_logstart sb, log_size := sint (sb_nlog sb), log_dev := dev\<rparr>))
      recover_from_log)))"

text \<open>
  \<open>begin_op\<close> up to its return or the first sleep, and the rest of its loop after that sleep.
\<close>

definition begin_op_try :: "('x logst_scheme, unit) K" where
  "begin_op_try =
     kbind (kget log_committing) (\<lambda>c.
     if c then sleep Ch_log L_log
     else
     kbind (kget (\<lambda>s. (lh_n s, log_outstanding s))) (\<lambda>(n, out).
     if n + (out + 1) * int MAXOPBLOCKS > int LOGSIZE then sleep Ch_log L_log
     else
     kthen (kmod (\<lambda>s. s\<lparr>log_outstanding := log_outstanding s + 1\<rparr>))
     (release L_log)))"

definition begin_op :: "('x logst_scheme, unit) K" where
  "begin_op = kthen (acquire L_log) begin_op_try"

definition begin_op_resume :: "('x logst_scheme, unit) K" where
  "begin_op_resume = kthen (sleep_resume L_log) begin_op_try"

definition write_log_one :: "nat \<Rightarrow> ('x logst_scheme, unit) K" where
  "write_log_one tail =
     kbind (kget log_dev) (\<lambda>dev.
     kbind (kget log_start) (\<lambda>start.
     kbind (bread dev (start + of_nat tail + 1)) (\<lambda>to.
     kbind (lh_get tail) (\<lambda>bn.
     kbind (bread dev bn) (\<lambda>from.
     kbind (kget (\<lambda>s. b_data (bufs s from))) (\<lambda>d.
     kthen (set_data to d)
     (kthen (bwrite to)
     (kthen (brelse from)
     (brelse to)))))))))"

definition write_log :: "('x logst_scheme, unit) K" where
  "write_log = kbind (kget lh_n) (\<lambda>n. kfor [0..<nat n] write_log_one)"

definition commit :: "('x logst_scheme, unit) K" where
  "commit =
     kbind (kget lh_n) (\<lambda>n.
     kwhen (n > 0)
      (kthen write_log
      (kthen write_head
      (kthen install_trans
      (kthen (kmod (\<lambda>s. s\<lparr>lh_n := 0\<rparr>))
      write_head)))))"

definition end_op_leave :: "('x logst_scheme, bool) K" where
  "end_op_leave =
     kthen (kmod (\<lambda>s. s\<lparr>log_outstanding := log_outstanding s - 1\<rparr>))
     (kbind (kget log_committing) (\<lambda>c.
     if c then kpanic ''log.committing''
     else
     kbind (kget log_outstanding) (\<lambda>out.
     if out = 0 then kthen (kmod (\<lambda>s. s\<lparr>log_committing := True\<rparr>)) (kret True)
     else kthen (wakeup Ch_log) (kret False))))"

definition end_op :: "('x logst_scheme, unit) K" where
  "end_op =
     kbind (with_lock L_log end_op_leave) (\<lambda>do_commit.
     kwhen do_commit
      (kthen commit
      (with_lock L_log
        (kthen (kmod (\<lambda>s. s\<lparr>log_committing := False\<rparr>)) (wakeup Ch_log)))))"

definition log_write :: "nat \<Rightarrow> ('x logst_scheme, unit) K" where
  "log_write b =
     kbind (kget (\<lambda>s. (lh_n s, log_size s, log_outstanding s))) (\<lambda>(n, size, out).
     if n \<ge> int LOGSIZE \<or> n \<ge> size - 1 then kpanic ''too big a transaction''
     else if out < 1 then kpanic ''log_write outside of trans''
     else
     with_lock L_log
      (kbind (kget (\<lambda>s. b_blockno (bufs s b))) (\<lambda>bn.
       kbind (kget (\<lambda>s. length (takeWhile (\<lambda>i. lh_block s i \<noteq> bn) [0..<nat (lh_n s)]))) (\<lambda>i.
       kthen (lh_set i bn)
       (kthen (kmod (\<lambda>s. if int i = lh_n s then s\<lparr>lh_n := lh_n s + 1\<rparr> else s))
       (mark_dirty b))))))"

section \<open>The on-disk format\<close>

lemma get32_put32_same [simp]: "get32 (put32 d i w) i = w"
  by (simp add: get32_def put32_def split_bytes32)

lemma get32_put32_other: "i + 4 \<le> j \<or> j + 4 \<le> i \<Longrightarrow> get32 (put32 d i w) j = get32 d j"
  by (auto simp: get32_def put32_def)

definition enc_hdr :: "block \<Rightarrow> u32 list \<Rightarrow> block" where
  "enc_hdr d bns = fold (\<lambda>i d. put32 d (4 + 4 * i) (bns ! i)) [0..<length bns] (put32 d 0 (of_nat (length bns)))"

definition dec_hdr :: "block \<Rightarrow> u32 list" where
  "dec_hdr d = map (\<lambda>i. get32 d (4 + 4 * i)) [0..<nat (sint (get32 d 0))]"

lemma get32_fold_put32:
  "get32 (fold (\<lambda>i d. put32 d (4 + 4 * i) (f i)) [0..<n] d) j =
     (if \<exists>i < n. j = 4 + 4 * i then f ((j - 4) div 4) else
      if j = 0 then get32 d 0 else get32 (fold (\<lambda>i d. put32 d (4 + 4 * i) (f i)) [0..<n] d) j)"
proof (induction n)
  case (Suc n)
  then show ?case using get32_put32_other [of "4 + 4 * n" j] by (auto simp: less_Suc_eq)
qed simp

lemma dec_enc_hdr:
  assumes "length bns \<le> LOGSIZE"
  shows "dec_hdr (enc_hdr d bns) = bns"
proof -
  have "get32 (enc_hdr d bns) 0 = of_nat (length bns)"
    unfolding enc_hdr_def by (subst get32_fold_put32) simp
  then have "sint (get32 (enc_hdr d bns) 0) = int (length bns)"
    using assms by (simp add: signed_of_nat signed_take_bit_int_eq_self param_defs)
  moreover have "get32 (enc_hdr d bns) (4 + 4 * i) = bns ! i" if "i < length bns" for i
    unfolding enc_hdr_def using that by (subst get32_fold_put32) auto
  ultimately show ?thesis by (intro nth_equalityI) (simp_all add: dec_hdr_def)
qed

section \<open>Recovery, on the disk alone\<close>

definition apply_writes :: "(nat \<times> block) list \<Rightarrow> (nat \<Rightarrow> block) \<Rightarrow> nat \<Rightarrow> block" where
  "apply_writes ws D = fold (\<lambda>(n, d) D. D(n := d)) ws D"

definition install_blk :: "nat \<Rightarrow> u32 list \<Rightarrow> nat \<Rightarrow> (nat \<Rightarrow> block) \<Rightarrow> nat \<Rightarrow> block" where
  "install_blk start bns i D = D(unat (bns ! i) := D (start + 1 + i))"

definition install_disk :: "nat \<Rightarrow> u32 list \<Rightarrow> (nat \<Rightarrow> block) \<Rightarrow> nat \<Rightarrow> block" where
  "install_disk start bns D = fold (install_blk start bns) [0..<length bns] D"

definition recover_disk ::
  "(block \<Rightarrow> u32 list \<Rightarrow> block) \<Rightarrow> (block \<Rightarrow> u32 list) \<Rightarrow> nat \<Rightarrow> (nat \<Rightarrow> block) \<Rightarrow> nat \<Rightarrow> block" where
  "recover_disk enc dec start D =
     (let D' = install_disk start (dec (D start)) D in D'(start := enc (D' start) []))"

text \<open>The writes of \<open>commit\<close>: log blocks, header, home blocks, header.\<close>

definition log_writes :: "nat \<Rightarrow> u32 list \<Rightarrow> (nat \<Rightarrow> block) \<Rightarrow> (nat \<times> block) list" where
  "log_writes start bns v = map (\<lambda>i. (start + 1 + i, v (unat (bns ! i)))) [0..<length bns]"

definition home_writes :: "u32 list \<Rightarrow> (nat \<Rightarrow> block) \<Rightarrow> (nat \<times> block) list" where
  "home_writes bns v = map (\<lambda>i. (unat (bns ! i), v (unat (bns ! i)))) [0..<length bns]"

definition commit_writes ::
  "(block \<Rightarrow> u32 list \<Rightarrow> block) \<Rightarrow> nat \<Rightarrow> block \<Rightarrow> u32 list \<Rightarrow> (nat \<Rightarrow> block) \<Rightarrow> (nat \<times> block) list" where
  "commit_writes enc start h bns v =
     log_writes start bns v @ [(start, enc h bns)] @ home_writes bns v @ [(start, enc (enc h bns) [])]"

lemma LOGSIZE_pos [simp]: "0 < LOGSIZE"
  by (simp add: param_defs)

text \<open>The block numbers of a transaction: distinct and outside the log.\<close>

definition log_area :: "nat \<Rightarrow> nat set" where
  "log_area start = {start..<start + LOGSIZE}"

definition homes_ok :: "nat \<Rightarrow> u32 list \<Rightarrow> bool" where
  "homes_ok start bns = (distinct bns \<and> length bns < LOGSIZE \<and> (\<forall>b \<in> set bns. unat b \<notin> log_area start))"

lemma apply_writes_append: "apply_writes (xs @ ys) D = apply_writes ys (apply_writes xs D)"
  by (simp add: apply_writes_def)

lemma apply_writes_simps:
  "apply_writes [] D = D" "apply_writes ((n, d) # ws) D = apply_writes ws (D(n := d))"
  "apply_writes (ws @ [(n, d)]) D = (apply_writes ws D)(n := d)"
  by (simp_all add: apply_writes_def)

lemma apply_writes_other: "x \<notin> fst ` set ws \<Longrightarrow> apply_writes ws D x = D x"
  by (induction ws arbitrary: D) (auto simp: apply_writes_simps)

lemma apply_writes_same:
  assumes "(x, d) \<in> set ws" and "\<forall>w \<in> set ws. fst w = x \<longrightarrow> snd w = d"
  shows "apply_writes ws D x = d"
  using assms
proof (induction ws rule: rev_induct)
  case (snoc w ws)
  have e: "apply_writes (ws @ [w]) D = (apply_writes ws D)(fst w := snd w)"
    by (simp add: apply_writes_append apply_writes_def case_prod_unfold)
  show ?case
  proof (cases "fst w = x")
    case True
    then have "snd w = d" using snoc.prems(2) by simp
    then show ?thesis using True by (simp only: e fun_upd_same)
  next
    case False
    then have "(x, d) \<in> set ws" using snoc.prems(1) by auto
    moreover have "\<forall>w \<in> set ws. fst w = x \<longrightarrow> snd w = d" using snoc.prems(2) by simp
    ultimately have "apply_writes ws D x = d" by (rule snoc.IH)
    then show ?thesis using False by (simp only: e fun_upd_other)
  qed
qed simp

lemma install_blk_apply:
  "install_blk start bns i D x = (if x = unat (bns ! i) then D (start + 1 + i) else D x)"
  by (simp add: install_blk_def)

lemma install_disk_other: "x \<notin> unat ` set bns \<Longrightarrow> install_disk start bns D x = D x"
proof -
  have "x \<notin> unat ` set (take k bns) \<Longrightarrow> k \<le> length bns \<Longrightarrow>
     fold (install_blk start bns) [0..<k] D x = D x" for k
    by (induction k) (auto simp: take_Suc_conv_app_nth install_blk_apply)
  from this [of "length bns"] show "x \<notin> unat ` set bns \<Longrightarrow> ?thesis" by (simp add: install_disk_def)
qed

lemma install_disk_home:
  assumes "homes_ok start bns" and "i < length bns"
  shows "install_disk start bns D (unat (bns ! i)) = D (start + 1 + i)"
proof -
  let ?f = "\<lambda>k. fold (install_blk start bns) [0..<k] D"
  have step: "?f (Suc k) x = (if x = unat (bns ! k) then ?f k (start + 1 + k) else ?f k x)" for k x
    using install_blk_apply [of start bns k "?f k" x] by simp
  have log: "?f k x = D x" if "k \<le> length bns" "x \<in> log_area start" for k x
    using that
  proof (induction k)
    case (Suc k)
    then have "x \<noteq> unat (bns ! k)" using assms(1) by (auto simp: homes_ok_def)
    then show ?case using Suc by (simp only: step if_False)
  qed simp
  have "?f k (unat (bns ! i)) = D (start + 1 + i)" if "i < k" "k \<le> length bns" for k
    using that
  proof (induction k)
    case (Suc k)
    show ?case
    proof (cases "i = k")
      case True
      have "start + 1 + k \<in> log_area start" using Suc.prems assms(1) by (simp add: log_area_def homes_ok_def)
      then have "?f k (start + 1 + k) = D (start + 1 + k)" using Suc.prems by (intro log) simp_all
      then show ?thesis unfolding step using True by simp
    next
      case False
      then have "unat (bns ! i) \<noteq> unat (bns ! k)"
        using assms Suc.prems by (auto simp: homes_ok_def nth_eq_iff_index_eq word_unat_eq_iff [symmetric])
      then show ?thesis using False Suc step by simp
    qed
  qed simp
  from this [of "length bns"] show ?thesis using assms(2) by (simp add: install_disk_def)
qed

locale redo_log =
  fixes enc :: "block \<Rightarrow> u32 list \<Rightarrow> block" and dec :: "block \<Rightarrow> u32 list"
  assumes dec_enc: "length bns \<le> LOGSIZE \<Longrightarrow> dec (enc d bns) = bns"
begin

lemma recover_empty:
  assumes "dec (D start) = []" and "x \<noteq> start"
  shows "recover_disk enc dec start D x = D x"
  using assms by (simp add: recover_disk_def install_disk_def Let_def)

lemma recover_committed:
  assumes "dec (D start) = bns" and "homes_ok start bns" and "x \<notin> log_area start"
    and "\<And>i. i < length bns \<Longrightarrow> D (start + 1 + i) = v (unat (bns ! i))"
    and "\<And>x. x \<notin> log_area start \<Longrightarrow> x \<notin> unat ` set bns \<Longrightarrow> D x = v x"
  shows "recover_disk enc dec start D x = v x"
proof -
  have x: "x \<noteq> start" using assms(3) by (auto simp: log_area_def)
  have "install_disk start bns D x = v x"
  proof (cases "x \<in> unat ` set bns")
    case True
    then obtain i where "i < length bns" "x = unat (bns ! i)" by (auto simp: in_set_conv_nth)
    then show ?thesis using install_disk_home [OF assms(2)] assms(4) by simp
  next
    case False
    then show ?thesis using assms(3,5) by (simp add: install_disk_other)
  qed
  then show ?thesis using x assms(1) by (simp add: recover_disk_def Let_def)
qed

text \<open>The state of the disk after a part of the writes of a commit.\<close>

lemma after_log_writes:
  assumes "homes_ok start bns" and "x \<notin> log_area start \<or> x = start"
  shows "apply_writes (take k (log_writes start bns v)) D x = D x"
proof (rule apply_writes_other)
  have "fst ` set (take k (log_writes start bns v)) \<subseteq> fst ` set (log_writes start bns v)"
    by (auto dest: in_set_takeD)
  also have "\<dots> \<subseteq> log_area start - {start}"
    using assms(1) by (auto simp: log_writes_def log_area_def homes_ok_def)
  finally show "x \<notin> fst ` set (take k (log_writes start bns v))" using assms(2) by blast
qed

lemma home_writes_log:
  assumes "homes_ok start bns" and "x \<in> log_area start"
  shows "apply_writes (take k (home_writes bns v)) D x = D x"
proof (rule apply_writes_other)
  have "fst ` set (take k (home_writes bns v)) \<subseteq> unat ` set bns"
    by (auto simp: home_writes_def dest!: in_set_takeD)
  then show "x \<notin> fst ` set (take k (home_writes bns v))" using assms by (auto simp: homes_ok_def)
qed

lemma home_writes_new:
  assumes "x \<notin> unat ` set bns \<Longrightarrow> D x = v x"
  shows "apply_writes (home_writes bns v) D x = v x"
proof (cases "x \<in> unat ` set bns")
  case True
  then obtain i where "i < length bns" "x = unat (bns ! i)" by (auto simp: in_set_conv_nth)
  then have "(x, v x) \<in> set (home_writes bns v)" by (auto simp: home_writes_def)
  moreover have "\<forall>w \<in> set (home_writes bns v). fst w = x \<longrightarrow> snd w = v x" by (auto simp: home_writes_def)
  ultimately show ?thesis by (rule apply_writes_same)
next
  case False
  then have "x \<notin> fst ` set (home_writes bns v)" by (auto simp: home_writes_def)
  then show ?thesis using assms False by (simp add: apply_writes_other)
qed

lemma log_writes_new:
  assumes "i < length bns"
  shows "apply_writes (log_writes start bns v) D (start + 1 + i) = v (unat (bns ! i))"
proof (rule apply_writes_same)
  show "(start + 1 + i, v (unat (bns ! i))) \<in> set (log_writes start bns v)"
    using assms by (auto simp: log_writes_def)
qed (auto simp: log_writes_def)

lemma crash_atomic:
  assumes "dec (D start) = []" and ok: "homes_ok start bns" and x: "x \<notin> log_area start"
    and v: "\<And>x. x \<notin> log_area start \<Longrightarrow> x \<notin> unat ` set bns \<Longrightarrow> D x = v x"
  shows "recover_disk enc dec start (apply_writes (take k (commit_writes enc start h bns v)) D) x =
    (if k \<le> length bns then D x else v x)"
proof -
  let ?n = "length bns" and ?W = "commit_writes enc start h bns v" and ?L = "log_writes start bns v"
    and ?H = "home_writes bns v"
  let ?D1 = "(apply_writes ?L D)(start := enc h bns)"
  have len: "length ?L = ?n" "length ?H = ?n" "length bns < LOGSIZE" using ok by (simp_all add: log_writes_def home_writes_def homes_ok_def)
  have sx: "start \<noteq> x" "start \<in> log_area start" using x by (auto simp: log_area_def)
  have D1: "?D1 (start + 1 + i) = v (unat (bns ! i))" if "i < ?n" for i using log_writes_new [OF that] by simp
  have D1o: "?D1 y = D y" if "y \<notin> log_area start" for y
    using after_log_writes [OF ok, of y ?n v D] that sx(2) len(1) by (auto simp: fun_upd_def)
  consider "k \<le> ?n" | "k > ?n" "k \<le> 2 * ?n + 1" | "k > 2 * ?n + 1" by linarith
  then show ?thesis
  proof cases
    case 1
    then have "take k ?W = take k ?L" by (simp add: commit_writes_def len)
    then show ?thesis
      using 1 recover_empty [of "apply_writes (take k ?L) D" start x] after_log_writes [OF ok] assms(1) x sx by simp
  next
    case 2
    define j where "j = k - ?n - 1"
    have j: "k = ?n + 1 + j" "j \<le> ?n" using 2 by (simp_all add: j_def)
    then have "take k ?W = ?L @ [(start, enc h bns)] @ take j ?H" by (simp add: commit_writes_def len)
    then have W: "apply_writes (take k ?W) D = apply_writes (take j ?H) ?D1"
      by (simp add: apply_writes_append apply_writes_simps)
    have "recover_disk enc dec start (apply_writes (take j ?H) ?D1) x = v x"
    proof (rule recover_committed [OF _ ok x])
      show "dec (apply_writes (take j ?H) ?D1 start) = bns"
        using home_writes_log [OF ok sx(2)] dec_enc len(3) by simp
      show "apply_writes (take j ?H) ?D1 (start + 1 + i) = v (unat (bns ! i))" if "i < ?n" for i
        using home_writes_log [OF ok, of "start + 1 + i"] D1 [OF that] that len(3) by (simp add: log_area_def)
      show "apply_writes (take j ?H) ?D1 y = v y" if y: "y \<notin> log_area start" "y \<notin> unat ` set bns" for y
      proof -
        have "y \<notin> fst ` set (take j ?H)" using y(2) by (auto simp: home_writes_def dest!: in_set_takeD)
        then show ?thesis using D1o [OF y(1)] v [OF y] apply_writes_other [of y "take j ?H" ?D1] by simp
      qed
    qed
    then show ?thesis using 2 W by simp
  next
    case 3
    then have "take k ?W = ?W" by (simp add: commit_writes_def len)
    then have W: "apply_writes (take k ?W) D = (apply_writes ?H ?D1)(start := enc (enc h bns) [])"
      by (simp add: commit_writes_def apply_writes_append apply_writes_simps)
    have "apply_writes ?H ?D1 x = v x" using D1o [OF x] v [OF x] by (intro home_writes_new) simp
    then show ?thesis using 3 W recover_empty [of "apply_writes (take k ?W) D" start x] dec_enc [of "[]"] sx(1) by simp
  qed
qed

end

interpretation hdr: redo_log enc_hdr dec_hdr
  by unfold_locales (rule dec_enc_hdr)

section \<open>What the operations do\<close>

context block_cache
begin

text \<open>The common end of \<open>install_trans\<close> and \<open>write_log\<close>: copy one held block to another and write it.\<close>

lemma wp_copy_held:
  assumes "ok s" and "has s f m" and "has s t n" and "m \<noteq> n" and "f \<noteq> t"
    and "m \<in> adt (abs s) \<or> av (abs s) m = ad (abs s) m"
    and "\<And>s'. ok s' \<Longrightarrow> fr s s' \<Longrightarrow> (\<And>b' n'. has s' b' n' = (has s b' n' \<and> b' \<noteq> f \<and> b' \<noteq> t)) \<Longrightarrow>
      abs s' = (abs s)\<lparr>av := (av (abs s))(n := av (abs s) m), ad := (ad (abs s))(n := av (abs s) m),
        aw := aw (abs s) @ [(n, av (abs s) m)], adt := adt (abs s) - {n}, ah := ah (abs s) - {m, n}\<rparr> \<Longrightarrow> Q () s'"
  shows "wp (kbind (kget (\<lambda>s. dat s f)) (\<lambda>d. kthen (setd t d) (kthen (wr t) (kthen (rel f) (rel t))))) Q E s"
  unfolding wp_simps
proof (rule wp_setd [OF assms(1,3)], rule wp_wr, assumption)
  fix s1 s2
  have d: "dat s f = av (abs s) m" using dat_view [OF assms(1,2)] .
  assume 1: "ok s1" "fr s s1" "abs s1 = (abs s)\<lparr>av := (av (abs s))(n := dat s f)\<rparr>"
    and h1: "\<And>b' n'. has s1 b' n' = has s b' n'"
  show "has s1 t n" by (simp add: h1 assms(3))
  assume 2: "ok s2" "fr s1 s2" "abs s2 = (abs s1)\<lparr>ad := (ad (abs s1))(n := av (abs s1) n),
        aw := aw (abs s1) @ [(n, av (abs s1) n)], adt := adt (abs s1) - {n}\<rparr>"
    and h2: "\<And>b' n'. has s2 b' n' = has s1 b' n'"
  have hf: "has s2 f m" by (simp add: h1 h2 assms(2))
  show "wp (rel f) (\<lambda>_. wp (rel t) Q E) E s2"
  proof (rule wp_rel [OF 2(1) hf])
    show "m \<in> adt (abs s2) \<or> av (abs s2) m = ad (abs s2) m" using assms(4,6) by (simp add: 1(3) 2(3))
    fix s3
    assume 3: "ok s3" "fr s2 s3" "abs s3 = (abs s2)\<lparr>ah := ah (abs s2) - {m}\<rparr>"
      and h3: "\<And>b' n'. has s3 b' n' = (has s2 b' n' \<and> b' \<noteq> f)"
    have ht: "has s3 t n" using assms(3,5) by (simp add: h1 h2 h3)
    show "wp (rel t) Q E s3"
    proof (rule wp_rel [OF 3(1) ht])
      show "n \<in> adt (abs s3) \<or> av (abs s3) n = ad (abs s3) n" by (simp add: 1(3) 2(3) 3(3))
      fix s4
      assume 4: "ok s4" "fr s3 s4" "abs s4 = (abs s3)\<lparr>ah := ah (abs s3) - {n}\<rparr>"
        and h4: "\<And>b' n'. has s4 b' n' = (has s3 b' n' \<and> b' \<noteq> t)"
      have "fr s s4" using 1(2) 2(2) 3(2) 4(2) fr_trans by blast
      moreover have "ah (abs s) - {m} - {n} = ah (abs s) - {m, n}" by blast
      ultimately show "Q () s4"
        using 4(1) by (intro assms(7)) (simp_all add: h1 h2 h3 h4 1(3) 2(3) 3(3) 4(3) d)
    qed
  qed
qed

end

text \<open>Writes through the cache, as they act on the view.\<close>

definition awrite :: "nat \<times> block \<Rightarrow> ablk \<Rightarrow> ablk" where
  "awrite w A = A\<lparr>av := (av A)(fst w := snd w), ad := (ad A)(fst w := snd w), aw := aw A @ [w], adt := adt A - {fst w}\<rparr>"

definition awrites :: "(nat \<times> block) list \<Rightarrow> ablk \<Rightarrow> ablk" where
  "awrites ws A = fold awrite ws A"

lemma awrites_simps [simp]:
  "av (awrites ws A) = apply_writes ws (av A)" "ad (awrites ws A) = apply_writes ws (ad A)"
  "aw (awrites ws A) = aw A @ ws" "ah (awrites ws A) = ah A" "asize (awrites ws A) = asize A"
  "adt (awrites ws A) = adt A - fst ` set ws"
  by (induction ws arbitrary: A) (auto simp: awrites_def awrite_def apply_writes_def)

lemma awrites_append: "awrites (xs @ ys) A = awrites ys (awrites xs A)"
  by (simp add: awrites_def)

lemma awrites_one: "awrites [] A = A" "awrites (w # ws) A = awrites ws (awrite w A)"
  by (simp_all add: awrites_def)

lemma awrites_snoc: "awrites (ws @ [w]) A = awrite w (awrites ws A)"
  by (simp add: awrites_def)

text \<open>A loop each of whose rounds writes one block.\<close>

lemma wp_kfor_writes:
  assumes "cache_ok s"
    and "\<And>i t. i < n \<Longrightarrow> cache_ok t \<Longrightarrow> bframe s t \<Longrightarrow> ablk_of t = awrites (map w [0..<i]) (ablk_of s) \<Longrightarrow>
      wp (body i) (\<lambda>_ t'. cache_ok t' \<and> bframe t t' \<and> ablk_of t' = awrite (w i) (ablk_of t)) E t"
    and "\<And>t. cache_ok t \<Longrightarrow> bframe s t \<Longrightarrow> ablk_of t = awrites (map w [0..<n]) (ablk_of s) \<Longrightarrow> Q () t"
  shows "wp (kfor [0..<n] body) Q E s"
proof -
  define I where "I = (\<lambda>js t. \<exists>k \<le> n. js = [k..<n] \<and> cache_ok t \<and> bframe s t \<and> ablk_of t = awrites (map w [0..<k]) (ablk_of s))"
  have "I [0..<n] s" unfolding I_def using assms(1) bframe_refl by (intro exI [of _ 0]) (simp add: awrites_one)
  moreover have "wp (body i) (\<lambda>_ t'. I js t') E t" if I: "I (i # js) t" for i js t
  proof -
    obtain k where k: "i # js = [k..<n]" "cache_ok t" "bframe s t" "ablk_of t = awrites (map w [0..<k]) (ablk_of s)"
      using I by (auto simp: I_def)
    have "k < n" using k(1) by (cases "k < n") auto
    then have i: "i = k" "js = [Suc k..<n]" using k(1) by (simp_all add: upt_conv_Cons)
    show ?thesis
    proof (rule wp_mono [OF assms(2)])
      fix u :: unit and t'
      assume t': "cache_ok t' \<and> bframe t t' \<and> ablk_of t' = awrite (w i) (ablk_of t)"
      then have "ablk_of t' = awrites (map w [0..<Suc k]) (ablk_of s)" using k(4) i by (simp add: awrites_snoc)
      then show "I js t'"
        unfolding I_def using t' i \<open>k < n\<close> bframe_trans [OF k(3)] by (intro exI [of _ "Suc k"]) auto
    qed (use k i \<open>k < n\<close> in simp_all)
  qed
  moreover have "Q () t" if I: "I [] t" for t
  proof -
    obtain k where k: "k \<le> n" "[] = [k..<n]" "cache_ok t" "bframe s t" "ablk_of t = awrites (map w [0..<k]) (ablk_of s)"
      using I unfolding I_def by blast
    have "k = n" using k(1) k(2) [symmetric] by auto
    then show ?thesis using k(3-5) assms(3) by simp
  qed
  ultimately show ?thesis by (rule wp_kfor)
qed

text \<open>The log part of the state is outside the cache.\<close>

lemma bframe_log:
  assumes "bframe s s'"
  shows "log_start s' = log_start s" and "log_size s' = log_size s" and "log_outstanding s' = log_outstanding s"
    and "log_committing s' = log_committing s" and "log_dev s' = log_dev s" and "lh_n s' = lh_n s"
    and "lh_block s' = lh_block s"
proof -
  obtain pt sl bf md dw where "s' = s\<lparr>ptable := pt, slocks := sl, bufs := bf, memdisk := md, dwrites := dw\<rparr>"
    using assms unfolding bframe_def by blast
  then show "log_start s' = log_start s" "log_size s' = log_size s" "log_outstanding s' = log_outstanding s"
    "log_committing s' = log_committing s" "log_dev s' = log_dev s" "lh_n s' = lh_n s" "lh_block s' = lh_block s"
    by simp_all
qed

lemma cache_cong:
  assumes "me t = me s" and "cpus t = cpus s" and "locks t = locks s" and "cur t = cur s" and "slocks t = slocks s"
    and "bufs t = bufs s" and "memdisk t = memdisk s" and "disksize t = disksize s" and "dwrites t = dwrites s"
  shows "cache_ok t = cache_ok s" and "ablk_of t = ablk_of s" and "has_buf t = has_buf s" and "quiet t = quiet s"
proof -
  have h: "held t = held s" by (rule ext) (simp add: held_def assms)
  show q: "quiet t = quiet s" by (simp add: quiet_def can_take_def curproc_def assms)
  have b: "buf_ok t = buf_ok s" by (rule ext) (simp add: buf_ok_def h assms)
  show "cache_ok t = cache_ok s" unfolding cache_ok_def cache_inv_def q b assms ..
  have c: "cached t = cached s" by (rule ext) (simp add: cached_def assms)
  have n: "bnos t = bnos s" by (intro ext) (simp add: bnos_def assms)
  show "ablk_of t = ablk_of s" unfolding ablk_of_def c n h assms ..
  show "has_buf t = has_buf s" by (intro ext) (simp add: has_buf_def h assms)
qed

lemma log_upd_cache [simp]:
  "cache_ok (s\<lparr>lh_n := x\<rparr>) = cache_ok s" "cache_ok (s\<lparr>lh_block := y\<rparr>) = cache_ok s"
  "ablk_of (s\<lparr>lh_n := x\<rparr>) = ablk_of s" "ablk_of (s\<lparr>lh_block := y\<rparr>) = ablk_of s"
  "has_buf (s\<lparr>lh_n := x\<rparr>) = has_buf s" "has_buf (s\<lparr>lh_block := y\<rparr>) = has_buf s"
  by (rule cache_cong; simp)+

text \<open>
  A transaction in memory: the header lists the blocks \<open>bns\<close>, all of them on the disk outside the
  log, and there are two buffers to spare.
\<close>

definition log_area_ok :: "'x logst_scheme \<Rightarrow> nat \<Rightarrow> bool" where
  "log_area_ok s start =
     (log_dev s = 1 \<and> unat (log_start s) = start \<and> start + LOGSIZE < disksize s \<and> disksize s < 2 ^ 32 \<and>
      ah (ablk_of s) = {} \<and> card (adt (ablk_of s)) + 2 \<le> NBUF)"

definition log_trans :: "'x logst_scheme \<Rightarrow> nat \<Rightarrow> u32 list \<Rightarrow> bool" where
  "log_trans s start bns =
     (log_area_ok s start \<and> lh_n s = int (length bns) \<and> (\<forall>i < length bns. lh_block s i = bns ! i) \<and>
      homes_ok start bns \<and> (\<forall>b \<in> set bns. unat b < disksize s))"

lemma log_block_no:
  assumes "log_area_ok s start" and "i < LOGSIZE"
  shows "unat (log_start s + of_nat i + 1) = start + 1 + i" and "start + 1 + i < asize (ablk_of s)"
proof -
  have "unat (log_start s + of_nat (i + 1)) = unat (log_start s) + (i + 1)"
    using assms by (intro unat_add_nowrap) (simp add: log_area_ok_def)
  then show "unat (log_start s + of_nat i + 1) = start + 1 + i" using assms by (simp add: log_area_ok_def ac_simps)
  show "start + 1 + i < asize (ablk_of s)" using assms by (simp add: log_area_ok_def)
qed

lemma card_two: "finite A \<Longrightarrow> card (insert a A) \<le> Suc (card A)"
  by (simp add: card_insert_if)

text \<open>Both loops start by holding the log block and the home block of one entry.\<close>

lemma wp_log_pair:
  assumes "cache_ok s" and "log_trans s start bns" and "i < length bns"
    and "\<And>lb hb s'. cache_ok s' \<Longrightarrow> bframe s s' \<Longrightarrow> lb \<noteq> hb \<Longrightarrow> has_buf s' lb (start + 1 + i) \<Longrightarrow>
      has_buf s' hb (unat (bns ! i)) \<Longrightarrow>
      ablk_of s' = (ablk_of s)\<lparr>ah := {start + 1 + i, unat (bns ! i)}\<rparr> \<Longrightarrow> wp (f lb hb) Q E s'"
  shows "wp (kbind (kget log_dev) (\<lambda>dev. kbind (kget log_start) (\<lambda>st.
     kbind (bread dev (st + of_nat i + 1)) (\<lambda>lb. kbind (lh_get i) (\<lambda>bn. kbind (bread dev bn) (f lb)))))) Q E s"
proof -
  have ar: "log_area_ok s start" and n: "i < LOGSIZE" "Suc i < LOGSIZE" and bi: "lh_block s i = bns ! i" and hd: "homes_ok start bns"
    and dev: "log_dev s = 1" and emp: "ah (ablk_of s) = {}" and room: "card (adt (ablk_of s)) + 2 \<le> NBUF"
    and sz: "unat (bns ! i) < disksize s" and na: "unat (bns ! i) \<notin> log_area start"
    using assms(2,3) by (auto simp: log_trans_def log_area_ok_def homes_ok_def)
  have ne: "unat (bns ! i) \<noteq> start + 1 + i" using na n by (auto simp: log_area_def)
  note lb = log_block_no [OF ar n(1)]
  have fin: "finite (adt (ablk_of s))" by (rule bc.finite_abs)
  show ?thesis
    unfolding wp_simps dev
  proof (rule bc.wp_rd [OF assms(1)], goal_cases)
    case (4 b1 s1)
    note s1 = 4
    have a1: "ablk_of s1 = (ablk_of s)\<lparr>ah := {start + 1 + i}\<rparr>" using s1(3) emp lb(1) by simp
    have l1: "lh_block s1 i = bns ! i" using bframe_log(7) [OF s1(2)] bi by simp
    show ?case
      unfolding lh_get_def if_P [OF n(1)] wp_simps l1
    proof (rule bc.wp_rd [OF s1(1)], goal_cases)
      case 1
      then show ?case using sz by (simp add: a1)
    next
      case 2
      then show ?case using ne by (simp add: a1)
    next
      case 3
      then show ?case using room card_two [OF fin, of "start + 1 + i"] by (simp add: a1)
    next
      case (4 b2 s2)
      have "has_buf s2 b1 (start + 1 + i)" "has_buf s2 b2 (unat (bns ! i))" "b1 \<noteq> b2"
        using 4(4,5) s1(4) lb(1) by (auto simp: 4(4) s1(4))
      moreover have "ablk_of s2 = (ablk_of s)\<lparr>ah := {start + 1 + i, unat (bns ! i)}\<rparr>" using 4(3) a1 by (simp add: insert_commute)
      ultimately show ?case using assms(4) 4(1) bframe_trans [OF s1(2) 4(2)] by blast
    qed
  qed (use emp room lb in \<open>simp_all\<close>)
qed

lemma log_trans_frame:
  assumes "log_trans s start bns" and "bframe s t" and "ah (ablk_of t) = {}" and "adt (ablk_of t) \<subseteq> adt (ablk_of s)"
  shows "log_trans t start bns"
proof -
  have "card (adt (ablk_of t)) \<le> card (adt (ablk_of s))" using assms(4) bc.finite_abs(2) by (rule card_mono [rotated])
  moreover have "disksize t = disksize s" using assms(2) by (rule bframe_keeps)
  ultimately show ?thesis
    using assms(1,3) by (simp add: log_trans_def log_area_ok_def bframe_log [OF assms(2)])
qed

lemma wp_write_log:
  assumes "cache_ok s" and tr: "log_trans s start bns" and ad: "unat ` set bns \<subseteq> adt (ablk_of s)"
    and "\<And>t. cache_ok t \<Longrightarrow> bframe s t \<Longrightarrow> ablk_of t = awrites (log_writes start bns (av (ablk_of s))) (ablk_of s) \<Longrightarrow> Q () t"
  shows "wp write_log Q E s"
proof -
  let ?v = "av (ablk_of s)" and ?w = "\<lambda>i. (start + 1 + i, av (ablk_of s) (unat (bns ! i)))"
  have n: "lh_n s = int (length bns)" and hd: "homes_ok start bns" using tr by (auto simp: log_trans_def)
  have "wp (kfor [0..<length bns] write_log_one) Q E s"
  proof (rule wp_kfor_writes [where w = ?w, OF assms(1)])
    fix i and t :: "'a logst_scheme"
    assume i: "i < length bns" and t: "cache_ok t" "bframe s t" "ablk_of t = awrites (map ?w [0..<i]) (ablk_of s)"
    have m: "map ?w [0..<i] = take i (log_writes start bns ?v)" using i by (simp add: log_writes_def take_map)
    have na: "unat (bns ! i) \<notin> log_area start" using hd i by (auto simp: homes_ok_def)
    have li: "start + 1 + i \<in> log_area start" using hd i by (auto simp: homes_ok_def log_area_def)
    have av: "av (ablk_of t) (unat (bns ! i)) = ?v (unat (bns ! i))"
      unfolding t(3) m using hdr.after_log_writes [OF hd] na by simp
    have "fst ` set (map ?w [0..<i]) \<subseteq> log_area start" using hd i by (auto simp: homes_ok_def log_area_def)
    then have dt: "unat (bns ! i) \<in> adt (ablk_of t)" using ad i na by (auto simp: t(3))
    have tr': "log_trans t start bns" using tr t(2) by (rule log_trans_frame) (use tr in \<open>auto simp: t(3) log_trans_def log_area_ok_def\<close>)
    show "wp (write_log_one i) (\<lambda>_ t'. cache_ok t' \<and> bframe t t' \<and> ablk_of t' = awrite (?w i) (ablk_of t)) E t"
      unfolding write_log_one_def
    proof (rule wp_log_pair [OF t(1) tr' i], rule bc.wp_copy_held, assumption+, goal_cases)
      case (1 lb hb t1)
      then show ?case using na li by auto
    next
      case (2 lb hb t1)
      then show ?case by blast
    next
      case (3 lb hb t1)
      then show ?case using dt by simp
    next
      case (4 lb hb t1 t2)
      then show ?case
        using bframe_trans [of t t1 t2] tr' by (auto simp: awrite_def av log_trans_def log_area_ok_def intro!: ablk.equality)
    qed
  qed (use assms(4) in \<open>simp add: log_writes_def\<close>)
  then show ?thesis by (simp add: write_log_def wp_simps n)
qed

definition install_writes :: "nat \<Rightarrow> u32 list \<Rightarrow> (nat \<Rightarrow> block) \<Rightarrow> (nat \<times> block) list" where
  "install_writes start bns D = map (\<lambda>i. (unat (bns ! i), D (start + 1 + i))) [0..<length bns]"

lemma wp_install_trans:
  assumes "cache_ok s" and tr: "log_trans s start bns"
    and clean: "\<And>i. i < length bns \<Longrightarrow> av (ablk_of s) (start + 1 + i) = ad (ablk_of s) (start + 1 + i)"
    and "\<And>t. cache_ok t \<Longrightarrow> bframe s t \<Longrightarrow> ablk_of t = awrites (install_writes start bns (av (ablk_of s))) (ablk_of s) \<Longrightarrow> Q () t"
  shows "wp install_trans Q E s"
proof -
  let ?v = "av (ablk_of s)" and ?w = "\<lambda>i. (unat (bns ! i), av (ablk_of s) (start + 1 + i))"
  have n: "lh_n s = int (length bns)" and hd: "homes_ok start bns" using tr by (auto simp: log_trans_def)
  have "wp (kfor [0..<length bns] install_one) Q E s"
  proof (rule wp_kfor_writes [where w = ?w, OF assms(1)])
    fix i and t :: "'a logst_scheme"
    assume i: "i < length bns" and t: "cache_ok t" "bframe s t" "ablk_of t = awrites (map ?w [0..<i]) (ablk_of s)"
    have na: "unat (bns ! i) \<notin> log_area start" using hd i by (auto simp: homes_ok_def)
    have li: "start + 1 + i \<in> log_area start" using hd i by (auto simp: homes_ok_def log_area_def)
    have "start + 1 + i \<notin> fst ` set (map ?w [0..<i])" using hd i li by (auto simp: homes_ok_def)
    then have av: "av (ablk_of t) (start + 1 + i) = ?v (start + 1 + i)" "ad (ablk_of t) (start + 1 + i) = ?v (start + 1 + i)"
      unfolding t(3) using clean [OF i] apply_writes_other by simp_all
    have tr': "log_trans t start bns" using tr t(2) by (rule log_trans_frame) (use tr in \<open>auto simp: t(3) log_trans_def log_area_ok_def\<close>)
    have emp: "ah (ablk_of t) = {}" using tr' by (simp add: log_trans_def log_area_ok_def)
    show "wp (install_one i) (\<lambda>_ t'. cache_ok t' \<and> bframe t t' \<and> ablk_of t' = awrite (?w i) (ablk_of t)) E t"
      unfolding install_one_def
    proof (rule wp_log_pair [OF t(1) tr' i], rule bc.wp_copy_held, assumption+, goal_cases)
      case (1 lb hb t1)
      then show ?case using na li by auto
    next
      case (2 lb hb t1)
      then show ?case by blast
    next
      case (3 lb hb t1)
      then show ?case using av by simp
    next
      case (4 lb hb t1 t2)
      then show ?case
        using bframe_trans [of t t1 t2] av(1) emp by (simp add: awrite_def)
    qed
  qed (use assms(4) in \<open>simp add: install_writes_def\<close>)
  then show ?thesis by (simp add: install_trans_def wp_simps n)
qed

lemma wp_edit_data:
  assumes "cache_ok s" and "has_buf s b n"
    and "\<And>s'. cache_ok s' \<Longrightarrow> bframe s s' \<Longrightarrow> ablk_of s' = (ablk_of s)\<lparr>av := (av (ablk_of s))(n := g (av (ablk_of s) n))\<rparr> \<Longrightarrow>
      (\<And>b' n'. has_buf s' b' n' = has_buf s b' n') \<Longrightarrow> Q () s'"
  shows "wp (edit_data b g) Q E s"
proof -
  have "wp (set_data b (g (b_data (bufs s b)))) Q E s"
    using has_buf_ok(7) [OF assms(1,2)] by (intro bc.wp_setd [OF assms(1,2)] assms(3)) simp_all
  then show ?thesis by (simp add: wp_def edit_data_eq)
qed

text \<open>Filling in the entries of the header.\<close>

lemma wp_write_entries:
  assumes "cache_ok s" and "has_buf s b n" and "k \<le> LOGSIZE" and bl: "\<And>i. i < k \<Longrightarrow> lh_block s i = bns ! i"
    and "\<And>t. cache_ok t \<Longrightarrow> bframe s t \<Longrightarrow> ablk_of t = (ablk_of s)\<lparr>av := (av (ablk_of s))(n :=
          fold (\<lambda>i d. put32 d (4 + 4 * i) (bns ! i)) [0..<k] (av (ablk_of s) n))\<rparr> \<Longrightarrow>
        (\<And>b' n'. has_buf t b' n' = has_buf s b' n') \<Longrightarrow> Q () t"
  shows "wp (kfor [0..<k] (\<lambda>i. kbind (lh_get i) (\<lambda>bn. edit_data b (\<lambda>d. put32 d (4 + 4 * i) bn)))) Q E s"
proof -
  let ?d = "\<lambda>j. fold (\<lambda>i d. put32 d (4 + 4 * i) (bns ! i)) [0..<j] (av (ablk_of s) n)"
  define I where "I = (\<lambda>js t. \<exists>j \<le> k. js = [j..<k] \<and> cache_ok t \<and> bframe s t \<and>
     ablk_of t = (ablk_of s)\<lparr>av := (av (ablk_of s))(n := ?d j)\<rparr> \<and> has_buf t = has_buf s)"
  have "I [0..<k] s" unfolding I_def using assms(1) bframe_refl by (intro exI [of _ 0]) simp
  moreover have "wp (kbind (lh_get i) (\<lambda>bn. edit_data b (\<lambda>d. put32 d (4 + 4 * i) bn))) (\<lambda>_ t'. I js t') E t"
    if I: "I (i # js) t" for i js t
  proof -
    obtain j where j: "i # js = [j..<k]" "cache_ok t" "bframe s t" "ablk_of t = (ablk_of s)\<lparr>av := (av (ablk_of s))(n := ?d j)\<rparr>"
      "has_buf t = has_buf s"
      using I by (auto simp: I_def)
    have "j < k" using j(1) by (cases "j < k") auto
    then have i: "i = j" "js = [Suc j..<k]" using j(1) by (simp_all add: upt_conv_Cons)
    have g: "lh_get i = kget (\<lambda>s. lh_block s i)" "lh_block t i = bns ! i"
      using \<open>j < k\<close> assms(3) bl i bframe_log(7) [OF j(3)] by (simp_all add: lh_get_def)
    have "has_buf t b n" using assms(2) by (simp add: j(5))
    then show ?thesis
      unfolding g(1) wp_simps g(2)
    proof (rule wp_edit_data [OF j(2)], goal_cases)
      case (1 t')
      have "has_buf t' = has_buf s" using 1(4) j(5) by (simp add: fun_eq_iff)
      then show ?case
        unfolding I_def using 1 i \<open>j < k\<close> bframe_trans [OF j(3) 1(2)] j(4) by (intro exI [of _ "Suc j"]) simp
    qed
  qed
  moreover have "Q () t" if I: "I [] t" for t
  proof -
    obtain j where j: "j \<le> k" "[] = [j..<k]" "cache_ok t" "bframe s t" "ablk_of t = (ablk_of s)\<lparr>av := (av (ablk_of s))(n := ?d j)\<rparr>"
      "has_buf t = has_buf s"
      using I unfolding I_def by blast
    have "j = k" using j(1) j(2) [symmetric] by auto
    then show ?thesis using j(3-6) by (intro assms(5)) simp_all
  qed
  ultimately show ?thesis by (rule wp_kfor)
qed

lemma wp_write_head:
  assumes "cache_ok s" and ar: "log_area_ok s start" and n: "lh_n s = int (length bns)" "length bns \<le> LOGSIZE"
    and bl: "\<And>i. i < length bns \<Longrightarrow> lh_block s i = bns ! i"
    and "\<And>t. cache_ok t \<Longrightarrow> bframe s t \<Longrightarrow> ablk_of t = awrite (start, enc_hdr (av (ablk_of s) start) bns) (ablk_of s) \<Longrightarrow> Q () t"
  shows "wp write_head Q E s"
proof -
  have st: "log_dev s = 1" "unat (log_start s) = start" "start < disksize s" "ah (ablk_of s) = {}" "card (adt (ablk_of s)) < NBUF"
    using ar by (auto simp: log_area_ok_def)
  show ?thesis
    unfolding write_head_def wp_simps st(1)
  proof (rule bc.wp_rd [OF assms(1)], goal_cases)
    case (4 b s1)
    have a1: "ablk_of s1 = (ablk_of s)\<lparr>ah := {start}\<rparr>" using 4(3) st by simp
    have hb: "has_buf s1 b start" using 4(4) st by simp
    note l1 = bframe_log [OF 4(2)]
    show ?case
      unfolding wp_simps l1(6) n(1)
    proof (rule wp_edit_data [OF 4(1) hb], rule wp_write_entries [where bns = bns and n = start], assumption, goal_cases)
      case (1 s2) then show ?case using hb by simp
    next
      case (2 s2) then show ?case using n(2) by simp
    next
      case (3 s2 i) then show ?case using bl l1 bframe_log(7) [OF 3(2)] by simp
    next
      case (4 s2 s3)
      let ?h = "enc_hdr (av (ablk_of s) start) bns"
      have h3: "has_buf s3 b start" and o3: "cache_ok s3" using 4 hb by simp_all
      have a3: "ablk_of s3 = (ablk_of s)\<lparr>ah := {start}, av := (av (ablk_of s))(start := ?h)\<rparr>"
        using 4(3,7) a1 by (simp add: enc_hdr_def)
      have f3: "bframe s s3" using \<open>bframe s s1\<close> 4(2,6) bframe_trans by blast
      show ?case
      proof (rule bc.wp_wr [OF o3 h3], rule bc.wp_rel [where n = start], assumption, goal_cases)
        case (1 s4) then show ?case using h3 by simp
      next
        case (2 s4) then show ?case by simp
      next
        case (3 s4 s5)
        then show ?case
          using a3 st(4) bframe_trans [OF f3] bframe_trans [of s3 s4 s5] by (intro assms(6)) (auto simp: awrite_def)
      qed
    qed
  qed (use st in simp_all)
qed

text \<open>Frames of operations that also change the header in memory.\<close>

definition lframe :: "'x logst_scheme \<Rightarrow> 'x logst_scheme \<Rightarrow> bool" where
  "lframe s t = (\<exists>n bl. bframe (s\<lparr>lh_n := n, lh_block := bl\<rparr>) t)"

lemma bframe_header:
  assumes "bframe s t"
  shows "bframe (s\<lparr>lh_n := n\<rparr>) (t\<lparr>lh_n := n\<rparr>)" and "bframe (s\<lparr>lh_block := bl\<rparr>) (t\<lparr>lh_block := bl\<rparr>)"
proof -
  obtain pt sl bf md dw where t: "t = s\<lparr>ptable := pt, slocks := sl, bufs := bf, memdisk := md, dwrites := dw\<rparr>"
    and p: "\<forall>p. pt p = ptable s p \<or> p_state (ptable s p) = SLEEPING \<and> pt p = (ptable s p)\<lparr>p_state := RUNNABLE\<rparr>"
      "\<forall>lk. (\<forall>b. lk \<noteq> L_buf b) \<longrightarrow> sl lk = slocks s lk"
    using assms unfolding bframe_def by blast
  show "bframe (s\<lparr>lh_n := n\<rparr>) (t\<lparr>lh_n := n\<rparr>)" "bframe (s\<lparr>lh_block := bl\<rparr>) (t\<lparr>lh_block := bl\<rparr>)"
    unfolding bframe_def by (intro exI [of _ pt] exI [of _ sl] exI [of _ bf]; use p in \<open>simp add: t\<close>)+
qed

lemma lframe_bframe: "bframe s t \<Longrightarrow> lframe s t"
  unfolding lframe_def by (intro exI [of _ "lh_n s"] exI [of _ "lh_block s"]) simp

lemma lframe_header: "lframe s (s\<lparr>lh_n := n\<rparr>)" "lframe s (s\<lparr>lh_block := bl\<rparr>)"
  unfolding lframe_def
  by (intro exI [of _ n] exI [of _ "lh_block s"], simp add: bframe_refl)
    (intro exI [of _ "lh_n s"] exI [of _ bl], simp add: bframe_refl)

lemma lframe_trans: "lframe s t \<Longrightarrow> lframe t u \<Longrightarrow> lframe s u"
proof -
  assume "lframe s t" "lframe t u"
  then obtain n bl n' bl' where 1: "bframe (s\<lparr>lh_n := n, lh_block := bl\<rparr>) t" and 2: "bframe (t\<lparr>lh_n := n', lh_block := bl'\<rparr>) u"
    unfolding lframe_def by blast
  have "bframe (s\<lparr>lh_n := n, lh_block := bl, lh_n := n', lh_block := bl'\<rparr>) (t\<lparr>lh_n := n', lh_block := bl'\<rparr>)"
    by (intro bframe_header 1)
  then have "bframe (s\<lparr>lh_n := n', lh_block := bl'\<rparr>) (t\<lparr>lh_n := n', lh_block := bl'\<rparr>)" by simp
  then show ?thesis unfolding lframe_def using bframe_trans [OF _ 2] by blast
qed

lemma lframe_keeps:
  assumes "lframe s t"
  shows "log_start t = log_start s" and "log_size t = log_size s" and "log_outstanding t = log_outstanding s"
    and "log_committing t = log_committing s" and "log_dev t = log_dev s" and "disksize t = disksize s"
proof -
  obtain n bl where b: "bframe (s\<lparr>lh_n := n, lh_block := bl\<rparr>) t" using assms unfolding lframe_def by blast
  show "log_start t = log_start s" "log_size t = log_size s" "log_outstanding t = log_outstanding s"
    "log_committing t = log_committing s" "log_dev t = log_dev s" "disksize t = disksize s"
    using bframe_log [OF b] bframe_keeps(1) [OF b] by simp_all
qed

lemma wp_commit:
  assumes "cache_ok s" and tr: "log_trans s start bns" and "bns \<noteq> []"
    and pin: "unat ` set bns \<subseteq> adt (ablk_of s)" and "adt (ablk_of s) \<inter> log_area start = {}"
    and "\<And>t. cache_ok t \<Longrightarrow> lframe s t \<Longrightarrow> lh_n t = 0 \<Longrightarrow>
      ablk_of t = awrites (commit_writes enc_hdr start (av (ablk_of s) start) bns (av (ablk_of s))) (ablk_of s) \<Longrightarrow> Q () t"
  shows "wp commit Q E s"
proof -
  let ?A = "ablk_of s" and ?v = "av (ablk_of s)" and ?h = "av (ablk_of s) start"
  let ?L = "log_writes start bns ?v" and ?H = "home_writes bns ?v"
  have n: "lh_n s = int (length bns)" "lh_n s > 0" and hd: "homes_ok start bns" and ar: "log_area_ok s start"
    and len: "length bns \<le> LOGSIZE" and bl: "\<And>i. i < length bns \<Longrightarrow> lh_block s i = bns ! i"
    using tr assms(3) by (auto simp: log_trans_def homes_ok_def)
  have stl: "start \<in> log_area start" by (simp add: log_area_def)
  have tr': "log_trans t start bns" if "bframe s t" "ablk_of t = awrites ws ?A" for t ws
    using tr that(1) by (rule log_trans_frame) (use that tr in \<open>auto simp: log_trans_def log_area_ok_def\<close>)
  have "wp (kthen write_log (kthen write_head (kthen install_trans (kthen (kmod (\<lambda>s. s\<lparr>lh_n := 0\<rparr>)) write_head)))) Q E s"
    unfolding wp_simps
  proof (rule wp_write_log [OF assms(1) tr pin])
    fix s1 :: "'a logst_scheme"
    assume 1: "cache_ok s1" "bframe s s1" "ablk_of s1 = awrites ?L ?A"
    note t1 = tr' [OF 1(2,3)]
    have h1: "av (ablk_of s1) start = ?h"
      using hdr.after_log_writes [OF hd, of start "length bns" ?v ?v] by (simp add: 1(3) log_writes_def)
    show "wp write_head (\<lambda>_. wp install_trans (\<lambda>_ s. wp write_head Q E (s\<lparr>lh_n := 0\<rparr>)) E) E s1"
    proof (rule wp_write_head [where start = start and bns = bns, OF 1(1)], goal_cases)
      case (5 s2)
      have A2: "ablk_of s2 = awrites (?L @ [(start, enc_hdr ?h bns)]) ?A" using 5(3) h1 1(3) by (simp add: awrites_snoc)
      have f2: "bframe s s2" using bframe_trans [OF 1(2) 5(2)] .
      have lg: "av (ablk_of s2) (start + 1 + i) = ?v (unat (bns ! i))" "ad (ablk_of s2) (start + 1 + i) = ?v (unat (bns ! i))"
        if "i < length bns" for i
        unfolding A2 using hdr.log_writes_new [OF that, of start ?v] by (simp_all add: apply_writes_simps)
      then have iw: "install_writes start bns (av (ablk_of s2)) = ?H" by (simp add: install_writes_def home_writes_def)
      show ?case
      proof (rule wp_install_trans [OF 5(1) tr' [OF f2 A2]], goal_cases)
        case (1 i) then show ?case using lg by simp
      next
        case (2 s3)
        let ?W = "?L @ [(start, enc_hdr ?h bns)] @ ?H"
        have A3: "ablk_of s3 = awrites ?W ?A" using 2(3) A2 iw by (simp add: awrites_append awrites_one)
        have f3: "bframe s s3" using bframe_trans [OF f2 2(2)] .
        have "av (ablk_of s3) start = enc_hdr ?h bns"
          using hdr.home_writes_log [OF hd stl, of "length bns" ?v] by (simp add: A3 apply_writes_append apply_writes_simps home_writes_def)
        moreover have "ablk_of (s3\<lparr>lh_n := 0\<rparr>) = awrites ?W ?A" using A3 by simp
        moreover have "log_area_ok (s3\<lparr>lh_n := 0\<rparr>) start"
          using tr' [OF f3 A3] by (simp add: log_trans_def log_area_ok_def)
        ultimately show ?case
        proof (intro wp_write_head [where start = start and bns = "[]"], goal_cases)
          case (6 s4)
          have "lframe s (s3\<lparr>lh_n := 0\<rparr>)" using lframe_trans [OF lframe_bframe [OF f3] lframe_header(1)] .
          then have "lframe s s4" using lframe_trans lframe_bframe [OF 6(5)] by blast
          moreover have "ablk_of s4 = awrites (commit_writes enc_hdr start ?h bns ?v) ?A"
            using 6(1,2,6) by (simp add: commit_writes_def awrites_append awrites_one)
          ultimately show ?case using 6(4) bframe_log(6) [OF 6(5)] by (intro assms(6)) simp_all
        qed (use 2(1) in simp_all)
      qed
    qed (use t1 len in \<open>auto simp: log_trans_def\<close>)
  qed
  then show ?thesis using n by (simp add: commit_def wp_simps)
qed

text \<open>The header on the disk lists \<open>bns\<close>.\<close>

definition disk_hdr :: "block \<Rightarrow> u32 list \<Rightarrow> bool" where
  "disk_hdr d bns = (sint (get32 d 0) = int (length bns) \<and> dec_hdr d = bns)"

lemma disk_hdr_nth: "disk_hdr d bns \<Longrightarrow> i < length bns \<Longrightarrow> get32 d (4 + 4 * i) = bns ! i"
  by (auto simp: disk_hdr_def dec_hdr_def)

lemma disk_hdr_enc: "length bns \<le> LOGSIZE \<Longrightarrow> disk_hdr (enc_hdr d bns) bns"
proof -
  assume len: "length bns \<le> LOGSIZE"
  have "get32 (enc_hdr d bns) 0 = of_nat (length bns)"
    unfolding enc_hdr_def by (subst get32_fold_put32) simp
  then have "sint (get32 (enc_hdr d bns) 0) = int (length bns)"
    using len by (simp add: signed_of_nat signed_take_bit_int_eq_self param_defs)
  then show ?thesis using dec_enc_hdr [OF len] by (simp add: disk_hdr_def)
qed

text \<open>Copying the entries into memory.\<close>

lemma wp_read_entries:
  assumes "k \<le> LOGSIZE" and "\<And>i. i < k \<Longrightarrow> get32 (b_data (bufs s b)) (4 + 4 * i) = bns ! i"
    and "\<And>bl. (\<And>i. i < k \<Longrightarrow> bl i = bns ! i) \<Longrightarrow> Q () (s\<lparr>lh_block := bl\<rparr>)"
  shows "wp (kfor [0..<k] (\<lambda>i. kbind (kget (\<lambda>s. get32 (b_data (bufs s b)) (4 + 4 * i))) (lh_set i))) Q E s"
proof -
  define I where "I = (\<lambda>js t. \<exists>j \<le> k. js = [j..<k] \<and> (\<exists>bl. t = s\<lparr>lh_block := bl\<rparr> \<and> (\<forall>i < j. bl i = bns ! i)))"
  have "I [0..<k] s" unfolding I_def by (intro exI [of _ 0] conjI exI [of _ "lh_block s"]) simp_all
  moreover have "wp (kbind (kget (\<lambda>s. get32 (b_data (bufs s b)) (4 + 4 * i))) (lh_set i)) (\<lambda>_ t'. I js t') E t"
    if I: "I (i # js) t" for i js t
  proof -
    obtain j bl where j: "i # js = [j..<k]" "t = s\<lparr>lh_block := bl\<rparr>" "\<forall>i < j. bl i = bns ! i"
      using I by (auto simp: I_def)
    have "j < k" using j(1) by (cases "j < k") auto
    then have i: "i = j" "js = [Suc j..<k]" using j(1) by (simp_all add: upt_conv_Cons)
    have "I js (t\<lparr>lh_block := (lh_block t)(i := bns ! i)\<rparr>)"
      unfolding I_def using i j \<open>j < k\<close>
      by (intro exI [of _ "Suc j"] conjI exI [of _ "bl(i := bns ! i)"]) (auto simp: less_Suc_eq)
    then show ?thesis
      using \<open>j < k\<close> assms(1,2) i by (simp add: wp_simps lh_set_def j(2))
  qed
  moreover have "Q () t" if I: "I [] t" for t
  proof -
    obtain j bl where j: "j \<le> k" "[] = [j..<k]" "t = s\<lparr>lh_block := bl\<rparr>" "\<forall>i < j. bl i = bns ! i"
      using I unfolding I_def by blast
    have "j = k" using j(1) j(2) [symmetric] by auto
    then show ?thesis using j(3,4) assms(3) by simp
  qed
  ultimately show ?thesis by (rule wp_kfor)
qed

lemma wp_read_head:
  assumes "cache_ok s" and ar: "log_area_ok s start" and "av (ablk_of s) start = ad (ablk_of s) start"
    and h: "disk_hdr (av (ablk_of s) start) bns" and "length bns \<le> LOGSIZE"
    and "\<And>t. cache_ok t \<Longrightarrow> lframe s t \<Longrightarrow> ablk_of t = ablk_of s \<Longrightarrow> lh_n t = int (length bns) \<Longrightarrow>
      (\<And>i. i < length bns \<Longrightarrow> lh_block t i = bns ! i) \<Longrightarrow> Q () t"
  shows "wp read_head Q E s"
proof -
  have st: "log_dev s = 1" "unat (log_start s) = start" "start < disksize s" "ah (ablk_of s) = {}" "card (adt (ablk_of s)) < NBUF"
    using ar by (auto simp: log_area_ok_def)
  show ?thesis
    unfolding read_head_def wp_simps st(1)
  proof (rule bc.wp_rd [OF assms(1)], goal_cases)
    case (4 b s1)
    have a1: "ablk_of s1 = (ablk_of s)\<lparr>ah := {start}\<rparr>" using 4(3) st by simp
    have hb: "has_buf s1 b start" using 4(4) st by simp
    have d: "b_data (bufs s1 b) = av (ablk_of s) start" using has_buf_ok(7) [OF 4(1) hb] a1 by simp
    have n: "sint (get32 (b_data (bufs s1 b)) 0) = int (length bns)" using h by (simp add: d disk_hdr_def)
    have e: "lh_n (s1\<lparr>lh_n := int (length bns)\<rparr>) = int (length bns)" by simp
    show ?case
      unfolding wp_simps n e nat_int
    proof (rule wp_read_entries [where bns = bns, OF assms(5)], goal_cases)
      case (1 i) then show ?case using disk_hdr_nth [OF h] d by simp
    next
      case (2 bl)
      let ?s2 = "s1\<lparr>lh_n := int (length bns), lh_block := bl\<rparr>"
      have f2: "lframe s ?s2"
        using lframe_trans [OF lframe_trans [OF lframe_bframe [OF 4(2)] lframe_header(1)] lframe_header(2)] .
      have "cache_ok ?s2" "has_buf ?s2 b start" using 4(1) hb by simp_all
      then show ?case
      proof (rule bc.wp_rel, goal_cases)
        case 1 then show ?case using assms(3) a1 by simp
      next
        case (2 s3)
        then show ?case
          using a1 st(4) bframe_log(6,7) [OF 2(2)] \<open>\<And>i. i < length bns \<Longrightarrow> bl i = bns ! i\<close>
            lframe_trans [OF f2 lframe_bframe [OF 2(2)]]
          by (intro assms(6)) simp_all
      qed
    qed
  qed (use st in simp_all)
qed

lemma install_writes_disk:
  assumes "homes_ok start bns"
  shows "apply_writes (install_writes start bns D) D = install_disk start bns D"
proof
  fix x
  show "apply_writes (install_writes start bns D) D x = install_disk start bns D x"
  proof (cases "x \<in> unat ` set bns")
    case True
    then obtain i where i: "i < length bns" "x = unat (bns ! i)" by (auto simp: in_set_conv_nth)
    have "\<forall>w \<in> set (install_writes start bns D). fst w = x \<longrightarrow> snd w = D (start + 1 + i)"
      using assms i by (auto simp: install_writes_def homes_ok_def word_unat_eq_iff [symmetric] nth_eq_iff_index_eq)
    moreover have "(x, D (start + 1 + i)) \<in> set (install_writes start bns D)" using i by (auto simp: install_writes_def)
    ultimately show ?thesis using install_disk_home [OF assms i(1)] i(2) apply_writes_same by metis
  next
    case False
    then have "x \<notin> fst ` set (install_writes start bns D)" by (auto simp: install_writes_def)
    then show ?thesis using False by (simp add: apply_writes_other install_disk_other)
  qed
qed

text \<open>Recovery computes \<open>recover_disk\<close>.\<close>

lemma wp_recover_from_log:
  assumes "cache_ok s" and ar: "log_area_ok s start" and "adt (ablk_of s) = {}"
    and h: "disk_hdr (memdisk s start) bns" and hd: "homes_ok start bns" and sz: "\<forall>b \<in> set bns. unat b < disksize s"
    and "\<And>t. cache_ok t \<Longrightarrow> lframe s t \<Longrightarrow> lh_n t = 0 \<Longrightarrow> ah (ablk_of t) = {} \<Longrightarrow> adt (ablk_of t) = {} \<Longrightarrow>
      memdisk t = recover_disk enc_hdr dec_hdr start (memdisk s) \<Longrightarrow> Q () t"
  shows "wp recover_from_log Q E s"
proof -
  have len: "length bns \<le> LOGSIZE" using hd by (simp add: homes_ok_def)
  have emp: "ah (ablk_of s) = {}" using ar by (simp add: log_area_ok_def)
  have cl: "av (ablk_of s) = memdisk s" using view_clean [OF assms(1) emp assms(3)] by simp
  show ?thesis
    unfolding recover_from_log_def wp_simps
  proof (rule wp_read_head [OF assms(1) ar _ _ len], goal_cases)
    case (3 s1)
    have d1: "disksize s1 = disksize s" using lframe_keeps(6) [OF 3(2)] .
    have ar1: "log_area_ok s1 start" using ar 3(3) lframe_keeps [OF 3(2)] by (simp add: log_area_ok_def)
    then have t1: "log_trans s1 start bns" using 3 hd sz d1 by (simp add: log_trans_def)
    have cl1: "av (ablk_of s1) = memdisk s" "ad (ablk_of s1) = memdisk s" using 3(3) cl by simp_all
    show ?case
    proof (rule wp_install_trans [OF 3(1) t1], goal_cases)
      case 1 then show ?case by (simp only: cl1)
    next
      case (2 s2)
      let ?W = "install_writes start bns (memdisk s)"
      have A2: "ablk_of s2 = awrites ?W (ablk_of s)" using 2(3) 3(3) cl1 by simp
      have ar2: "log_area_ok (s2\<lparr>lh_n := 0\<rparr>) start"
        using ar1 A2 emp assms(3) bframe_keeps(1) [OF 2(2)] bframe_log [OF 2(2)] by (simp add: log_area_ok_def NBUF_def MAXOPBLOCKS_def)
      have f2: "lframe s (s2\<lparr>lh_n := 0\<rparr>)"
        using lframe_trans [OF lframe_trans [OF 3(2) lframe_bframe [OF 2(2)]] lframe_header(1)] .
      show ?case
      proof (rule wp_write_head [where bns = "[]", OF _ ar2], goal_cases)
        case (5 s3)
        let ?D = "install_disk start bns (memdisk s)"
        have A3: "ablk_of s3 = awrite (start, enc_hdr (?D start) []) (awrites ?W (ablk_of s))"
          using 5(3) A2 cl install_writes_disk [OF hd] by simp
        then have "memdisk s3 = recover_disk enc_hdr dec_hdr start (memdisk s)"
          using ablk_simps(1) [of s3] h install_writes_disk [OF hd]
          by (simp add: recover_disk_def awrite_def disk_hdr_def Let_def)
        moreover have "ah (ablk_of s3) = {}" "adt (ablk_of s3) = {}" using A3 emp assms(3) by (simp_all add: awrite_def)
        ultimately show ?case
          using 5(1) lframe_trans [OF f2 lframe_bframe [OF 5(2)]] bframe_log(6) [OF 5(2)] by (intro assms(7)) simp_all
      qed (use 2(1) in simp_all)
    qed
  qed (use cl h in simp_all)
qed

section \<open>Transactions\<close>

lemma log_fields_cache [simp]:
  "cache_ok (s\<lparr>log_outstanding := x\<rparr>) = cache_ok s" "ablk_of (s\<lparr>log_outstanding := x\<rparr>) = ablk_of s"
  "has_buf (s\<lparr>log_outstanding := x\<rparr>) = has_buf s"
  "cache_ok (s\<lparr>log_committing := c\<rparr>) = cache_ok s" "ablk_of (s\<lparr>log_committing := c\<rparr>) = ablk_of s"
  "has_buf (s\<lparr>log_committing := c\<rparr>) = has_buf s"
  "cache_ok (s\<lparr>log_start := st, log_size := sz, log_dev := d\<rparr>) = cache_ok s"
  "ablk_of (s\<lparr>log_start := st, log_size := sz, log_dev := d\<rparr>) = ablk_of s"
  "quiet (s\<lparr>log_outstanding := x\<rparr>) = quiet s" "quiet (s\<lparr>log_committing := c\<rparr>) = quiet s"
  by (rule cache_cong; simp)+

text \<open>The blocks of the transaction in memory are \<open>bns\<close>, and exactly they are pinned.\<close>

definition in_trans :: "'x logst_scheme \<Rightarrow> nat \<Rightarrow> u32 list \<Rightarrow> bool" where
  "in_trans s start bns =
     (cache_ok s \<and> log_trans s start bns \<and> adt (ablk_of s) = unat ` set bns \<and> \<not> log_committing s)"

text \<open>\<open>log_write\<close> on the header: absorb a block that is there already.\<close>

definition log_absorb :: "u32 \<Rightarrow> u32 list \<Rightarrow> u32 list" where
  "log_absorb bn bns = (if bn \<in> set bns then bns else bns @ [bn])"

lemma takeWhile_index:
  assumes "\<And>i. i < length bns \<Longrightarrow> f i = bns ! i"
  obtains "bn \<notin> set bns" "length (takeWhile (\<lambda>i. f i \<noteq> bn) [0..<length bns]) = length bns"
  | i where "bn \<in> set bns" "i < length bns" "bns ! i = bn" "length (takeWhile (\<lambda>i. f i \<noteq> bn) [0..<length bns]) = i"
proof (cases "bn \<in> set bns")
  case False
  then have "\<forall>i \<in> set [0..<length bns]. f i \<noteq> bn" using assms by (auto simp: in_set_conv_nth)
  then have "takeWhile (\<lambda>i. f i \<noteq> bn) [0..<length bns] = [0..<length bns]" by (simp only: takeWhile_eq_all_conv)
  then have "length (takeWhile (\<lambda>i. f i \<noteq> bn) [0..<length bns]) = length bns" by (simp only: length_upt)
  then show ?thesis using False that(1) by blast
next
  case True
  then obtain j where "j < length bns" "bns ! j = bn" by (auto simp: in_set_conv_nth)
  then have ex: "\<exists>x \<in> set [0..<length bns]. \<not> f x \<noteq> bn" using assms by force
  let ?k = "length (takeWhile (\<lambda>i. f i \<noteq> bn) [0..<length bns])"
  have "takeWhile (\<lambda>i. f i \<noteq> bn) [0..<length bns] \<noteq> [0..<length bns]" using ex by (simp only: takeWhile_eq_all_conv) blast
  then have "?k \<noteq> length bns"
    using takeWhile_eq_take [of "\<lambda>i. f i \<noteq> bn" "[0..<length bns]"] by (metis length_upt minus_nat.diff_0 take_all_iff le_refl)
  moreover have "?k \<le> length bns" using length_takeWhile_le [of "\<lambda>i. f i \<noteq> bn" "[0..<length bns]"] by simp
  ultimately have k: "?k < length bns" by linarith
  then have "f ([0..<length bns] ! ?k) = bn" using nth_length_takeWhile [of "\<lambda>i. f i \<noteq> bn" "[0..<length bns]"] by simp
  then show ?thesis using True k assms [OF k] that(2) [of ?k] by simp
qed

lemma oblivious_lh_set [obl]: "oblivious (lh_set i w)"
  unfolding lh_set_def by (intro obl) simp_all

lemma oblivious_mark_dirty [obl]: "oblivious (mark_dirty b)"
  unfolding mark_dirty_def by (intro obl) (simp_all add: upd_buf_def)

lemma log_write_locked:
  assumes "quiet s" and "lh_n s = int (length bns)" and "length bns < LOGSIZE" and "int (length bns) < log_size s - 1"
    and "1 \<le> log_outstanding s" and bl: "\<And>i. i < length bns \<Longrightarrow> lh_block s i = bns ! i"
  shows "\<exists>bl'. log_write b s = mark_dirty b (s\<lparr>lh_block := bl', lh_n := int (length (log_absorb (b_blockno (bufs s b)) bns))\<rparr>) \<and>
    (\<forall>i < length (log_absorb (b_blockno (bufs s b)) bns). bl' i = log_absorb (b_blockno (bufs s b)) bns ! i)"
proof -
  let ?bn = "b_blockno (bufs s b)"
  let ?f = "(kbind (kget (\<lambda>s. b_blockno (bufs s b))) (\<lambda>bn.
       kbind (kget (\<lambda>s. length (takeWhile (\<lambda>i. lh_block s i \<noteq> bn) [0..<nat (lh_n s)]))) (\<lambda>i.
       kthen (lh_set i bn)
       (kthen (kmod (\<lambda>s. if int i = lh_n s then s\<lparr>lh_n := lh_n s + 1\<rparr> else s))
       (mark_dirty b))))) :: ('a logst_scheme, unit) K"
  let ?n = "length (log_absorb ?bn bns)"
  have ex: "\<exists>bl'. ?f s = mark_dirty b (s\<lparr>lh_block := bl', lh_n := int ?n\<rparr>) \<and> (\<forall>i < ?n. bl' i = log_absorb ?bn bns ! i)"
  proof (rule takeWhile_index [of bns "lh_block s" ?bn, OF bl])
    assume "?bn \<notin> set bns" and k: "length (takeWhile (\<lambda>i. lh_block s i \<noteq> ?bn) [0..<length bns]) = length bns"
    then show ?thesis
      using assms(2,3) bl
      by (intro exI [of _ "(lh_block s)(length bns := ?bn)"]) (auto simp: lh_set_def log_absorb_def nth_append less_Suc_eq add.commute)
  next
    fix i
    assume i: "?bn \<in> set bns" "i < length bns" "bns ! i = ?bn" "length (takeWhile (\<lambda>i. lh_block s i \<noteq> ?bn) [0..<length bns]) = i"
    have "(lh_block s)(i := ?bn) = lh_block s" using bl i by auto
    moreover have e: "s\<lparr>lh_n := int (length bns)\<rparr> = s" unfolding assms(2) [symmetric] by simp
    ultimately show ?thesis
      using assms(2,3) bl i by (intro exI [of _ "lh_block s"]) (auto simp: lh_set_def log_absorb_def e)
  qed auto
  obtain bl' where f: "?f s = mark_dirty b (s\<lparr>lh_block := bl', lh_n := int ?n\<rparr>)"
    and bl': "\<forall>i < ?n. bl' i = log_absorb ?bn bns ! i" using ex by blast
  obtain t where t: "mark_dirty b (s\<lparr>lh_block := bl', lh_n := int ?n\<rparr>) = (Val (), t)" by (simp add: mark_dirty_def kmod_def)
  have "oblivious ?f" by (intro obl) simp_all
  then have "with_lock L_log ?f s = (Val (), t)" using quiet_take [OF assms(1)] by (rule with_lock_Val) (simp only: f t)
  moreover have "log_write b s = with_lock L_log ?f s" using assms(2-5) by (simp add: log_write_def)
  ultimately have "log_write b s = mark_dirty b (s\<lparr>lh_block := bl', lh_n := int ?n\<rparr>)" by (simp only: t)
  then show ?thesis using bl' by blast
qed

lemma homes_ok_absorb:
  assumes "homes_ok start bns" and "unat bn \<notin> log_area start" and "Suc (length bns) < LOGSIZE"
  shows "homes_ok start (log_absorb bn bns)"
  using assms by (auto simp: homes_ok_def log_absorb_def)

lemma set_log_absorb: "set (log_absorb bn bns) = insert bn (set bns)"
  by (auto simp: log_absorb_def)

text \<open>One update of a block inside a transaction.\<close>

definition update_block :: "u32 \<times> (block \<Rightarrow> block) \<Rightarrow> ('x logst_scheme, unit) K" where
  "update_block u =
     kbind (bread 1 (fst u)) (\<lambda>b.
     kthen (edit_data b (snd u))
     (kthen (log_write b)
     (brelse b)))"

fun update_blocks :: "(u32 \<times> (block \<Rightarrow> block)) list \<Rightarrow> ('x logst_scheme, unit) K" where
  "update_blocks [] = kret ()"
| "update_blocks (u # us) = kthen (update_block u) (update_blocks us)"

definition room_for :: "'x logst_scheme \<Rightarrow> nat \<Rightarrow> bool" where
  "room_for s n = (Suc n < LOGSIZE \<and> int n < log_size s - 1 \<and> n + 3 \<le> NBUF \<and> 1 \<le> log_outstanding s)"

lemma card_unat: "card (unat ` A) = card A" for A :: "u32 set"
  by (rule card_image) (simp add: inj_on_def word_unat_eq_iff)

lemma card_le_length: "card (set xs) \<le> length xs"
  by (rule card_length)

lemma wp_update_block:
  assumes tr: "in_trans s start bns" and bn: "unat (fst u) \<notin> log_area start" "unat (fst u) < disksize s"
    and room: "room_for s (length bns)"
    and Q: "\<And>t. in_trans t start (log_absorb (fst u) bns) \<Longrightarrow> lframe s t \<Longrightarrow>
      ablk_of t = (ablk_of s)\<lparr>av := (av (ablk_of s))(unat (fst u) := snd u (av (ablk_of s) (unat (fst u)))),
        adt := unat ` set (log_absorb (fst u) bns)\<rparr> \<Longrightarrow> Q () t"
  shows "wp (update_block u) Q E s"
proof -
  let ?n = "unat (fst u)" and ?bns = "log_absorb (fst u) bns" and ?d = "snd u (av (ablk_of s) (unat (fst u)))"
  have ok: "cache_ok s" and lt: "log_trans s start bns" and dt: "adt (ablk_of s) = unat ` set bns" and nc: "\<not> log_committing s"
    using tr by (auto simp: in_trans_def)
  have emp: "ah (ablk_of s) = {}" and hd: "homes_ok start bns" and ar: "log_area_ok s start" and ln: "lh_n s = int (length bns)"
    and bl: "\<And>i. i < length bns \<Longrightarrow> lh_block s i = bns ! i" and sz: "\<forall>b \<in> set bns. unat b < disksize s"
    using lt by (auto simp: log_trans_def log_area_ok_def)
  have cd: "card (adt (ablk_of s)) \<le> length bns" using card_le_length [of bns] by (simp add: dt card_unat)
  show ?thesis
    unfolding update_block_def wp_simps
  proof (rule bc.wp_rd [OF ok], goal_cases)
    case (4 b s1)
    have hb: "has_buf s1 b ?n" using 4(4) by simp
    have a1: "ablk_of s1 = (ablk_of s)\<lparr>ah := {?n}\<rparr>" using 4(3) emp by simp
    show ?case
    proof (rule wp_edit_data [OF 4(1) hb])
      fix s2
      assume 2: "cache_ok s2" "bframe s1 s2" "ablk_of s2 = (ablk_of s1)\<lparr>av := (av (ablk_of s1))(?n := snd u (av (ablk_of s1) ?n))\<rparr>"
        and h2: "\<And>b' n'. has_buf s2 b' n' = has_buf s1 b' n'"
      have hb2: "has_buf s2 b ?n" using h2 hb by simp
      have f2: "bframe s s2" using bframe_trans [OF 4(2) 2(2)] .
      note l2 = bframe_log [OF f2]
      have b2: "b_blockno (bufs s2 b) = fst u" using has_buf_ok(5) [OF 2(1) hb2] by (simp add: word_unat_eq_iff)
      obtain bl' where lw: "log_write b s2 = mark_dirty b (s2\<lparr>lh_block := bl', lh_n := int (length ?bns)\<rparr>)"
        and bl': "\<forall>i < length ?bns. bl' i = ?bns ! i"
        using log_write_locked [OF cache_okD(1) [OF 2(1)], of bns b] ln l2 room bl unfolding b2 room_for_def by auto
      let ?s3 = "s2\<lparr>lh_block := bl', lh_n := int (length ?bns)\<rparr>"
      have o3: "cache_ok ?s3" "has_buf ?s3 b ?n" using 2(1) hb2 by simp_all
      obtain s4 where 4: "mark_dirty b ?s3 = (Val (), s4)" "cache_ok s4" "bframe ?s3 s4"
        "ablk_of s4 = (ablk_of ?s3)\<lparr>adt := insert ?n (adt (ablk_of ?s3))\<rparr>" "has_buf s4 b ?n"
        using mark_dirty_law [OF o3] o3(2) by blast
      have f4: "lframe s s4"
        using lframe_trans [OF lframe_trans [OF lframe_trans [OF lframe_bframe [OF f2] lframe_header(2)] lframe_header(1)] lframe_bframe [OF 4(3)]] .
      have a4: "ablk_of s4 = (ablk_of s)\<lparr>ah := {?n}, av := (av (ablk_of s))(?n := ?d), adt := unat ` set ?bns\<rparr>"
        using 4(4) 2(3) a1 dt by (simp add: set_log_absorb)
      have "wp (brelse b) Q E s4"
      proof (rule bc.wp_rel [OF 4(2) 4(5)], goal_cases)
        case 1 then show ?case by (simp add: a4 set_log_absorb)
      next
        case (2 t)
        have a5: "ablk_of t = (ablk_of s)\<lparr>av := (av (ablk_of s))(?n := ?d), adt := unat ` set ?bns\<rparr>" using 2(3) a4 emp by simp
        have f5: "lframe s t" using lframe_trans [OF f4 lframe_bframe [OF 2(2)]] .
        have n5: "lh_n t = int (length ?bns)" "lh_block t = bl'" using bframe_log(6,7) [OF 2(2)] bframe_log(6,7) [OF 4(3)] by simp_all
        have "card (adt (ablk_of t)) + 2 \<le> NBUF"
          using a5 card_le_length [of ?bns] room by (auto simp: card_unat room_for_def log_absorb_def split: if_splits)
        then have "log_area_ok t start" using ar a5 lframe_keeps [OF f5] by (simp add: log_area_ok_def)
        moreover have "homes_ok start ?bns" using homes_ok_absorb [OF hd bn(1)] room by (simp add: room_for_def)
        moreover have "\<forall>b \<in> set ?bns. unat b < disksize t" using sz bn(2) lframe_keeps(6) [OF f5] by (simp add: set_log_absorb)
        ultimately have "in_trans t start ?bns"
          using 2(1) a5 n5 bl' nc lframe_keeps(4) [OF f5] by (simp add: in_trans_def log_trans_def)
        then show ?case using f5 a5 by (rule Q)
      qed
      then show "wp (log_write b) (\<lambda>_. wp (brelse b) Q E) E s2" by (simp add: wp_def lw 4(1))
    qed
  qed (use emp bn(2) cd room in \<open>simp_all add: room_for_def\<close>)
qed

definition upd_all :: "(u32 \<times> (block \<Rightarrow> block)) list \<Rightarrow> (nat \<Rightarrow> block) \<Rightarrow> nat \<Rightarrow> block" where
  "upd_all us D = fold (\<lambda>u D. D(unat (fst u) := snd u (D (unat (fst u))))) us D"

lemma upd_all_simps:
  "upd_all [] D = D" "upd_all (u # us) D = upd_all us (D(unat (fst u) := snd u (D (unat (fst u)))))"
  by (simp_all add: upd_all_def)

definition updates_ok :: "nat \<Rightarrow> nat \<Rightarrow> u32 list \<Rightarrow> (u32 \<times> (block \<Rightarrow> block)) list \<Rightarrow> bool" where
  "updates_ok start dsz bns us =
     ((\<forall>u \<in> set us. unat (fst u) \<notin> log_area start \<and> unat (fst u) < dsz) \<and>
      card (set bns \<union> fst ` set us) \<le> MAXOPBLOCKS)"

lemma wp_update_blocks:
  assumes "in_trans s start bns" and "updates_ok start (disksize s) bns us"
    and "int MAXOPBLOCKS + 1 < log_size s" and "1 \<le> log_outstanding s"
    and "\<And>t bns'. in_trans t start bns' \<Longrightarrow> set bns' = set bns \<union> fst ` set us \<Longrightarrow> lframe s t \<Longrightarrow>
      ablk_of t = (ablk_of s)\<lparr>av := upd_all us (av (ablk_of s)), adt := unat ` set bns'\<rparr> \<Longrightarrow> Q () t"
  shows "wp (update_blocks us) Q E s"
  using assms
proof (induction us arbitrary: s bns)
  case Nil
  have a: "ablk_of s = (ablk_of s)\<lparr>av := upd_all [] (av (ablk_of s)), adt := unat ` set bns\<rparr>"
    using Nil.prems(1) by (simp add: in_trans_def upd_all_simps)
  show ?case
    unfolding update_blocks.simps wp_simps
    using Nil.prems(1) _ _ a by (rule Nil.prems(5)) (simp_all add: lframe_bframe bframe_refl)
next
  case (Cons u us)
  have "distinct bns" using Cons.prems(1) by (simp add: in_trans_def log_trans_def homes_ok_def)
  then have "length bns \<le> card (set bns \<union> fst ` set (u # us))" by (metis card_mono distinct_card finite_UnI finite_imageI finite_set sup_ge1)
  then have len: "length bns \<le> 10" using Cons.prems(2) by (simp add: updates_ok_def MAXOPBLOCKS_def)
  then have room: "room_for s (length bns)" using Cons.prems(3,4) by (simp add: room_for_def param_defs)
  have u: "unat (fst u) \<notin> log_area start" "unat (fst u) < disksize s" using Cons.prems(2) by (auto simp: updates_ok_def)
  show ?case
    unfolding update_blocks.simps wp_simps
  proof (rule wp_update_block [OF Cons.prems(1) u room])
    fix t
    assume t: "in_trans t start (log_absorb (fst u) bns)" "lframe s t"
      "ablk_of t = (ablk_of s)\<lparr>av := (av (ablk_of s))(unat (fst u) := snd u (av (ablk_of s) (unat (fst u)))),
        adt := unat ` set (log_absorb (fst u) bns)\<rparr>"
    have ok: "updates_ok start (disksize t) (log_absorb (fst u) bns) us"
      using Cons.prems(2) lframe_keeps(6) [OF t(2)] by (auto simp: updates_ok_def set_log_absorb)
    show "wp (update_blocks us) Q E t"
    proof (rule Cons.IH [OF t(1) ok])
      fix t' bns'
      assume t': "in_trans t' start bns'" "set bns' = set (log_absorb (fst u) bns) \<union> fst ` set us" "lframe t t'"
        "ablk_of t' = (ablk_of t)\<lparr>av := upd_all us (av (ablk_of t)), adt := unat ` set bns'\<rparr>"
      show "Q () t'"
        using t'(1) _ lframe_trans [OF t(2) t'(3)]
        by (rule Cons.prems(5)) (simp_all add: t'(2,4) t(3) set_log_absorb upd_all_simps)
    qed (use Cons.prems(3,4) lframe_keeps [OF t(2)] in simp_all)
  qed
qed

lemma begin_op_eq:
  assumes "quiet s" and "\<not> log_committing s" and "lh_n s + (log_outstanding s + 1) * int MAXOPBLOCKS \<le> int LOGSIZE"
  shows "begin_op s = (Val (), s\<lparr>log_outstanding := log_outstanding s + 1\<rparr>)"
proof -
  let ?f = "kmod (\<lambda>s. s\<lparr>log_outstanding := log_outstanding s + 1\<rparr>) :: ('a logst_scheme, unit) K"
  have "oblivious ?f" by (intro obl) simp_all
  then have "with_lock L_log ?f s = (Val (), s\<lparr>log_outstanding := log_outstanding s + 1\<rparr>)"
    using quiet_take [OF assms(1)] by (rule with_lock_Val) (simp add: kmod_def)
  moreover have "begin_op s = with_lock L_log ?f s"
    using acquire_grab [OF quiet_take [OF assms(1)], of L_log] assms(2,3)
    by (simp add: begin_op_def begin_op_try_def with_lock_def kbind_Val grab_def)
  ultimately show ?thesis by simp
qed

lemma end_op_leave_eq:
  assumes "quiet s" and "\<not> log_committing s" and "log_outstanding s = 1"
  shows "with_lock L_log end_op_leave s = (Val True, s\<lparr>log_outstanding := 0, log_committing := True\<rparr>)"
proof (rule with_lock_run [OF quiet_take [OF assms(1)]])
  show "end_op_leave (grab L_log s) = (Val True, grab L_log (s\<lparr>log_outstanding := 0, log_committing := True\<rparr>))"
    using assms(2,3) by (simp add: end_op_leave_def grab_def kret_def)
  show "can_take L_log (s\<lparr>log_outstanding := 0, log_committing := True\<rparr>)"
    using quiet_take [OF assms(1), of L_log] by (simp add: can_take_def)
qed

lemma end_op_done_eq:
  assumes "quiet s"
  shows "with_lock L_log (kthen (kmod (\<lambda>s. s\<lparr>log_committing := False\<rparr>)) (wakeup Ch_log)) s =
    (Val (), map_procs {0..<NPROC} (woken Ch_log) (s\<lparr>log_committing := False\<rparr>))"
proof (rule with_lock_run [OF quiet_take [OF assms]])
  let ?u = "(grab L_log s)\<lparr>log_committing := False\<rparr>"
  have "can_take L_ptable ?u"
    using quiet_take [OF assms, of L_ptable] quiet_take [OF assms, of L_log]
    by (auto simp: can_take_def grab_def cpu_sane_def split: if_splits)
  then have "wakeup Ch_log ?u = (Val (), map_procs {0..<NPROC} (woken Ch_log) ?u)" by (rule wakeup_eq)
  then show "kthen (kmod (\<lambda>s. s\<lparr>log_committing := False\<rparr>)) (wakeup Ch_log) (grab L_log s) =
      (Val (), grab L_log (map_procs {0..<NPROC} (woken Ch_log) (s\<lparr>log_committing := False\<rparr>)))"
    by (simp add: map_procs_def grab_def cong: if_cong)
  show "can_take L_log (map_procs {0..<NPROC} (woken Ch_log) (s\<lparr>log_committing := False\<rparr>))"
    using quiet_take [OF assms, of L_log] by (simp add: can_take_def map_procs_def)
qed

lemma map_procs_cache [simp]:
  "cache_ok (map_procs P f s) = cache_ok s" "ablk_of (map_procs P f s) = ablk_of s"
  by (rule cache_cong; simp add: map_procs_def)+

lemma map_procs_log [simp]:
  "lh_n (map_procs P f s) = lh_n s" "log_outstanding (map_procs P f s) = log_outstanding s"
  "log_committing (map_procs P f s) = log_committing s" "log_size (map_procs P f s) = log_size s"
  "log_start (map_procs P f s) = log_start s" "log_dev (map_procs P f s) = log_dev s"
  by (simp_all add: map_procs_def)

text \<open>The end of the only transaction: it commits.\<close>

lemma wp_end_op:
  assumes tr: "in_trans s start bns" and out: "log_outstanding s = 1"
    and Q: "\<And>t. cache_ok t \<Longrightarrow> lh_n t = 0 \<Longrightarrow> log_outstanding t = 0 \<Longrightarrow> \<not> log_committing t \<Longrightarrow>
      log_size t = log_size s \<Longrightarrow> log_area_ok t start \<Longrightarrow>
      ablk_of t = awrites (if bns = [] then [] else commit_writes enc_hdr start (av (ablk_of s) start) bns (av (ablk_of s))) (ablk_of s) \<Longrightarrow> Q () t"
  shows "wp end_op Q E s"
proof -
  let ?s1 = "s\<lparr>log_outstanding := 0, log_committing := True\<rparr>"
  have ok: "cache_ok s" and lt: "log_trans s start bns" and dt: "adt (ablk_of s) = unat ` set bns" and nc: "\<not> log_committing s"
    using tr by (auto simp: in_trans_def)
  have ar: "log_area_ok s start" and hd: "homes_ok start bns" using lt by (simp_all add: log_trans_def)
  have o1: "cache_ok ?s1" "log_trans ?s1 start bns" "ablk_of ?s1 = ablk_of s" using ok lt by (simp_all add: log_trans_def log_area_ok_def)
  let ?W = "if bns = [] then [] else commit_writes enc_hdr start (av (ablk_of s) start) bns (av (ablk_of s))"
  have fin: "wp (with_lock L_log (kthen (kmod (\<lambda>s. s\<lparr>log_committing := False\<rparr>)) (wakeup Ch_log))) Q E t"
    if t: "cache_ok t" "lframe ?s1 t" "lh_n t = 0" "ablk_of t = awrites ?W (ablk_of s)" for t
  proof -
    let ?t = "map_procs {0..<NPROC} (woken Ch_log) (t\<lparr>log_committing := False\<rparr>)"
    have "card (adt (ablk_of t)) \<le> card (adt (ablk_of s))" using bc.finite_abs(2) by (intro card_mono) (auto simp: t(4))
    then have "log_area_ok ?t start"
      using ar t(4) lframe_keeps [OF t(2)] by (simp add: log_area_ok_def) (simp add: map_procs_def)
    then have "Q () ?t" using t lframe_keeps [OF t(2)] by (intro Q) simp_all
    then show ?thesis using end_op_done_eq [OF cache_okD(1) [OF t(1)]] by (simp add: wp_def)
  qed
  have "wp commit (\<lambda>_. wp (with_lock L_log (kthen (kmod (\<lambda>s. s\<lparr>log_committing := False\<rparr>)) (wakeup Ch_log))) Q E) E ?s1"
  proof (cases "bns = []")
    case True
    then have "lh_n ?s1 = 0" using lt by (simp add: log_trans_def)
    then have "commit ?s1 = (Val (), ?s1)" by (simp add: commit_def kwhen_def kret_def)
    then show ?thesis
      using fin [of ?s1] o1 True \<open>lh_n ?s1 = 0\<close> by (simp add: wp_def awrites_one lframe_bframe bframe_refl)
  next
    case False
    have "unat ` set bns \<inter> log_area start = {}" using hd by (auto simp: homes_ok_def)
    then show ?thesis
      using False o1 dt fin by (intro wp_commit [OF o1(1,2)]) simp_all
  qed
  then show ?thesis
    using wp_Val [where f = "with_lock L_log end_op_leave" and s = s, OF end_op_leave_eq [OF cache_okD(1) [OF ok] nc out]] by (simp add: end_op_def wp_simps)
qed

section \<open>Crashes\<close>

text \<open>
  The machine between transactions: nothing cached is dirty, the log is empty in memory and on
  the disk, and block 1 describes a log that has room for one operation.
\<close>

definition sb_log_ok :: "(nat \<Rightarrow> block) \<Rightarrow> nat \<Rightarrow> nat \<Rightarrow> bool" where
  "sb_log_ok D start dsz =
     (unat (sb_logstart (sb_of (D 1))) = start \<and> start + LOGSIZE < dsz \<and> dsz < 2 ^ 32 \<and> 1 < dsz \<and>
      1 \<notin> log_area start \<and> int MAXOPBLOCKS + 1 < sint (sb_nlog (sb_of (D 1))))"

definition log_idle :: "'x logst_scheme \<Rightarrow> nat \<Rightarrow> bool" where
  "log_idle s start =
     (cache_ok s \<and> log_area_ok s start \<and> adt (ablk_of s) = {} \<and> lh_n s = 0 \<and> log_outstanding s = 0 \<and>
      \<not> log_committing s \<and> int MAXOPBLOCKS + 1 < log_size s \<and> disk_hdr (memdisk s start) [] \<and>
      sb_log_ok (memdisk s) start (disksize s))"

text \<open>Booting on a disk whose log holds the transaction \<open>bns\<close> or nothing.\<close>

lemma wp_initlog:
  assumes "cache_ok s" and "ah (ablk_of s) = {}" and "adt (ablk_of s) = {}" and sb: "sb_log_ok (memdisk s) start (disksize s)"
    and h: "disk_hdr (memdisk s start) bns" and hd: "homes_ok start bns" and sz: "\<forall>b \<in> set bns. unat b < disksize s"
    and Q: "\<And>t. cache_ok t \<Longrightarrow> memdisk t = recover_disk enc_hdr dec_hdr start (memdisk s) \<Longrightarrow> log_area_ok t start \<Longrightarrow>
      adt (ablk_of t) = {} \<Longrightarrow> lh_n t = 0 \<Longrightarrow> log_outstanding t = log_outstanding s \<Longrightarrow>
      log_committing t = log_committing s \<Longrightarrow> int MAXOPBLOCKS + 1 < log_size t \<Longrightarrow> disksize t = disksize s \<Longrightarrow> Q () t"
  shows "wp (initlog 1) Q E s"
proof -
  have cl: "av (ablk_of s) = memdisk s" using view_clean [OF assms(1-3)] by simp
  have i: "initlock L_log s = (Val (), s)" using initlock_free quiet_take cache_okD(1) [OF assms(1)] by blast
  have big: "\<not> 4 * (LOGSIZE + 1) \<ge> BSIZE" by (simp add: param_defs BSIZE_def)
  have "wp (readsb 1) (\<lambda>sb. wp (kthen (kmod (\<lambda>s. s\<lparr>log_start := sb_logstart sb, log_size := sint (sb_nlog sb),
      log_dev := 1\<rparr>)) recover_from_log) Q E) E s"
    unfolding readsb_def
  proof (rule bc.wp_read_block [OF assms(1)], goal_cases)
    case (5 s1)
    let ?sb = "sb_of (memdisk s 1)"
    let ?s2 = "s1\<lparr>log_start := sb_logstart ?sb, log_size := sint (sb_nlog ?sb), log_dev := 1\<rparr>"
    have m: "memdisk s1 = memdisk s" "disksize s1 = disksize s"
      using 5(3) ablk_simps(1,3) [of s1] ablk_simps(1,3) [of s] by simp_all
    have a2: "ablk_of ?s2 = ablk_of s" "cache_ok ?s2" using 5(1,3) by simp_all
    have ar: "log_area_ok ?s2 start" using sb a2 assms(2,3) m by (simp add: log_area_ok_def sb_log_ok_def NBUF_def MAXOPBLOCKS_def)
    have "wp recover_from_log Q E ?s2"
    proof (rule wp_recover_from_log [OF a2(2) ar _ _ hd], goal_cases)
      case (4 t)
      have "log_area_ok t start"
        using ar 4(4,5) lframe_keeps [OF 4(2)] by (simp add: log_area_ok_def NBUF_def MAXOPBLOCKS_def)
      then show ?case
        using 4 sb m lframe_keeps [OF 4(2)] bframe_log(3,4) [OF 5(2)] by (intro Q) (simp_all add: sb_log_ok_def)
    qed (use a2 assms(3) h sz m in simp_all)
    then show ?case by (simp add: cl wp_simps)
  qed (use assms(2,3) cl sb in \<open>simp_all add: sb_log_ok_def NBUF_def MAXOPBLOCKS_def\<close>)
  then show ?thesis using big by (simp add: initlog_def wp_simps wp_Val [where f = "initlock L_log", OF i])
qed

text \<open>The header on the disk after any part of a commit.\<close>

lemma hdr_after:
  assumes hd: "homes_ok start bns" and h0: "disk_hdr (D start) []"
  shows "\<exists>bns'. disk_hdr (apply_writes (take k (commit_writes enc_hdr start h bns v)) D start) bns' \<and> (bns' = [] \<or> bns' = bns)"
proof -
  let ?n = "length bns" and ?L = "log_writes start bns v" and ?H = "home_writes bns v"
  let ?D1 = "(apply_writes ?L D)(start := enc_hdr h bns)"
  have len: "length ?L = ?n" "length ?H = ?n" "?n \<le> LOGSIZE" using hd by (simp_all add: log_writes_def home_writes_def homes_ok_def)
  have sl: "start \<in> log_area start" by (simp add: log_area_def)
  consider "k \<le> ?n" | "k > ?n" "k \<le> 2 * ?n + 1" | "k > 2 * ?n + 1" by linarith
  then show ?thesis
  proof cases
    case 1
    then have "take k (commit_writes enc_hdr start h bns v) = take k ?L" by (simp add: commit_writes_def len)
    then show ?thesis using hdr.after_log_writes [OF hd, of start k v D] h0 by auto
  next
    case 2
    then have "take k (commit_writes enc_hdr start h bns v) = ?L @ [(start, enc_hdr h bns)] @ take (k - ?n - 1) ?H"
      by (simp add: commit_writes_def len take_Cons')
    then have "apply_writes (take k (commit_writes enc_hdr start h bns v)) D start = enc_hdr h bns"
      using hdr.home_writes_log [OF hd sl, of "k - ?n - 1" v ?D1] by (simp add: apply_writes_append apply_writes_simps)
    then show ?thesis using disk_hdr_enc [OF len(3)] by auto
  next
    case 3
    then have "apply_writes (take k (commit_writes enc_hdr start h bns v)) D start = enc_hdr (enc_hdr h bns) []"
      by (simp add: commit_writes_def len apply_writes_append apply_writes_simps)
    then show ?thesis using disk_hdr_enc [of "[]"] by auto
  qed
qed

lemma upd_all_other: "x \<notin> unat ` fst ` set us \<Longrightarrow> upd_all us D x = D x"
  by (induction us arbitrary: D) (auto simp: upd_all_simps)

text \<open>The disk when \<open>k\<close> of the writes between \<open>s\<close> and \<open>s'\<close> have been done.\<close>

definition crash_disk :: "'x bst_scheme \<Rightarrow> 'x bst_scheme \<Rightarrow> nat \<Rightarrow> nat \<Rightarrow> block" where
  "crash_disk s s' k = apply_writes (take k (drop (length (dwrites s)) (dwrites s'))) (memdisk s)"

text \<open>The writes of the end of a transaction on \<open>bns\<close>; none when nothing was logged.\<close>

definition trans_writes :: "nat \<Rightarrow> block \<Rightarrow> u32 list \<Rightarrow> (nat \<Rightarrow> block) \<Rightarrow> (nat \<times> block) list" where
  "trans_writes start h bns v = (if bns = [] then [] else commit_writes enc_hdr start h bns v)"

lemma trans_writes_disk:
  assumes hd: "homes_ok start bns" and h0: "disk_hdr (D start) []"
    and v0: "\<forall>x. x \<notin> log_area start \<longrightarrow> x \<notin> unat ` set bns \<longrightarrow> D x = v x"
  shows "x \<notin> log_area start \<Longrightarrow> apply_writes (trans_writes start h bns v) D x = v x"
    and "disk_hdr (apply_writes (trans_writes start h bns v) D start) []"
    and "\<exists>bns'. disk_hdr (apply_writes (take k (trans_writes start h bns v)) D start) bns' \<and> (bns' = [] \<or> bns' = bns)"
    and "x \<notin> log_area start \<Longrightarrow>
      recover_disk enc_hdr dec_hdr start (apply_writes (take k (trans_writes start h bns v)) D) x =
      (if k \<le> length bns then D x else v x)"
proof -
  note v = v0 [rule_format]
  have d0: "dec_hdr (D start) = []" using h0 by (simp add: disk_hdr_def)
  show ex: "\<exists>bns'. disk_hdr (apply_writes (take k (trans_writes start h bns v)) D start) bns' \<and> (bns' = [] \<or> bns' = bns)" for k
    using hdr_after [where D = D, OF hd h0, of k h v] h0 by (auto simp: trans_writes_def apply_writes_simps)
  show rec: "recover_disk enc_hdr dec_hdr start (apply_writes (take k (trans_writes start h bns v)) D) x =
      (if k \<le> length bns then D x else v x)" if x: "x \<notin> log_area start" for k x
  proof (cases "bns = []")
    case True
    have "x \<noteq> start" using x by (auto simp: log_area_def)
    then show ?thesis using True hdr.recover_empty [where D = D and start = start, OF d0] v [OF x] by (simp add: trans_writes_def apply_writes_simps)
  next
    case False
    then show ?thesis using hdr.crash_atomic [where D = D and start = start, OF d0 hd x v] by (simp add: trans_writes_def)
  qed
  have full: "apply_writes (trans_writes start h bns v) D start = enc_hdr (enc_hdr h bns) []" if "bns \<noteq> []"
    using that by (simp add: trans_writes_def commit_writes_def apply_writes_append apply_writes_simps)
  show nil: "disk_hdr (apply_writes (trans_writes start h bns v) D start) []"
    using full disk_hdr_enc [of "[]"] h0 by (cases "bns = []") (auto simp: trans_writes_def apply_writes_simps)
  show "apply_writes (trans_writes start h bns v) D x = v x" if x: "x \<notin> log_area start"
  proof (cases "bns = []")
    case True
    then show ?thesis using v [OF x] by (simp add: trans_writes_def apply_writes_simps)
  next
    case False
    let ?k = "length (trans_writes start h bns v)"
    have "?k > length bns" using False by (simp add: trans_writes_def commit_writes_def log_writes_def)
    then have "recover_disk enc_hdr dec_hdr start (apply_writes (trans_writes start h bns v) D) x = v x"
      using rec [OF x, of ?k] by simp
    moreover have "x \<noteq> start" using x by (auto simp: log_area_def)
    ultimately show ?thesis using hdr.recover_empty nil by (simp add: disk_hdr_def)
  qed
qed

lemma home_writes_fst: "fst ` set (home_writes bns v) = unat ` set bns"
proof -
  have "fst ` set (home_writes bns v) = unat ` (nth bns ` {0..<length bns})" by (simp add: home_writes_def image_image)
  then show ?thesis by (simp add: nth_image)
qed

lemma trans_writes_fst:
  assumes "homes_ok start bns"
  shows "fst ` set (trans_writes start h bns v) \<subseteq> log_area start \<union> unat ` set bns"
proof -
  have "fst ` set (log_writes start bns v) \<subseteq> log_area start"
    using assms by (auto simp: log_writes_def log_area_def homes_ok_def)
  then show ?thesis using home_writes_fst [of bns v] by (auto simp: trans_writes_def commit_writes_def log_area_def)
qed

lemma wp_transaction:
  assumes idle: "log_idle s start" and ups: "updates_ok start (disksize s) [] us" and one: "1 \<notin> unat ` fst ` set us"
  shows "wp (kthen begin_op (kthen (update_blocks us) end_op)) (\<lambda>_ s'. log_idle s' start \<and> disksize s' = disksize s \<and>
     (\<exists>bns. homes_ok start bns \<and> set bns = fst ` set us \<and> (\<forall>b \<in> set bns. unat b < disksize s) \<and>
        dwrites s' = dwrites s @ trans_writes start (memdisk s start) bns (upd_all us (memdisk s)) \<and>
        memdisk s' = apply_writes (trans_writes start (memdisk s start) bns (upd_all us (memdisk s))) (memdisk s))) E s"
proof -
  let ?v = "upd_all us (memdisk s)" and ?s1 = "s\<lparr>log_outstanding := 1\<rparr>"
  have i: "cache_ok s" "log_area_ok s start" "adt (ablk_of s) = {}" "lh_n s = 0" "log_outstanding s = 0" "\<not> log_committing s"
    "int MAXOPBLOCKS + 1 < log_size s" "disk_hdr (memdisk s start) []" "sb_log_ok (memdisk s) start (disksize s)"
    using idle by (auto simp: log_idle_def)
  have emp: "ah (ablk_of s) = {}" using i(2) by (simp add: log_area_ok_def)
  have cl: "av (ablk_of s) = memdisk s" using view_clean [OF i(1) emp i(3)] by simp
  have b: "begin_op s = (Val (), ?s1)" using begin_op_eq [OF cache_okD(1) [OF i(1)]] i by (simp add: param_defs)
  have tr: "in_trans ?s1 start []" using i by (simp add: in_trans_def log_trans_def log_area_ok_def homes_ok_def)
  have st: "start \<notin> unat ` fst ` set us" using ups by (auto simp: updates_ok_def log_area_def)
  show ?thesis
    unfolding wp_simps wp_Val [where f = begin_op, OF b]
  proof (rule wp_update_blocks [OF tr])
    fix t bns
    assume t: "in_trans t start bns" "set bns = set [] \<union> fst ` set us" "lframe ?s1 t"
      "ablk_of t = (ablk_of ?s1)\<lparr>av := upd_all us (av (ablk_of ?s1)), adt := unat ` set bns\<rparr>"
    note k = lframe_keeps [OF t(3)]
    have A: "av (ablk_of t) = ?v" "ad (ablk_of t) = memdisk s" "aw (ablk_of t) = dwrites s" using t(4) cl by simp_all
    have hst: "?v start = memdisk s start" using upd_all_other [OF st] .
    have hd: "homes_ok start bns" and szb: "\<forall>b \<in> set bns. unat b < disksize s"
      using t(1) k(6) by (auto simp: in_trans_def log_trans_def)
    have v: "\<forall>x. x \<notin> log_area start \<longrightarrow> x \<notin> unat ` set bns \<longrightarrow> memdisk s x = ?v x"
      using upd_all_other [of _ us "memdisk s"] t(2) by simp
    note W = trans_writes_disk [where D = "memdisk s", OF hd i(8) v]
    show "wp end_op (\<lambda>_ s'. log_idle s' start \<and> disksize s' = disksize s \<and>
       (\<exists>bns. homes_ok start bns \<and> set bns = fst ` set us \<and> (\<forall>b \<in> set bns. unat b < disksize s) \<and>
        dwrites s' = dwrites s @ trans_writes start (memdisk s start) bns ?v \<and>
        memdisk s' = apply_writes (trans_writes start (memdisk s start) bns ?v) (memdisk s))) E t"
    proof (rule wp_end_op [OF t(1)], goal_cases)
      case (2 u)
      let ?W = "trans_writes start (memdisk s start) bns ?v"
      have a: "ablk_of u = awrites ?W (ablk_of t)" using 2(7) by (simp add: A(1) hst trans_writes_def)
      have m: "memdisk u = apply_writes ?W (memdisk s)" "dwrites u = dwrites s @ ?W" "disksize u = disksize s"
        using a A(2,3) k(6) ablk_simps [of u] ablk_simps(3) [of t] by simp_all
      have "fst ` set ?W \<supseteq> unat ` set bns"
        using home_writes_fst [of bns ?v] by (auto simp: trans_writes_def commit_writes_def)
      then have "adt (ablk_of u) = {}" using a t(4) by auto
      moreover have "memdisk u 1 = memdisk s 1"
        using W(1) [of 1] upd_all_other [OF one] i(9) by (simp add: m sb_log_ok_def)
      ultimately have "log_idle u start"
        using 2 i(7,9) k W(2) m by (simp add: log_idle_def sb_log_ok_def)
      then show ?case using m hd szb t(2) by (intro conjI exI [of _ bns]) simp_all
    qed (use k in simp)
  qed (use ups i in \<open>simp_all add: updates_ok_def\<close>)
qed

text \<open>
  C1: Transactions are atomic with respect to crashes.  An operation that updates at most
  \<open>MAXOPBLOCKS\<close> blocks between \<open>begin_op\<close> and \<open>end_op\<close> runs to its end and leaves the disk with
  all its updates.  If the machine stops after any number \<open>k\<close> of the disk writes of the commit
  and boots again, \<open>binit\<close> and \<open>initlog\<close> recover a disk on which, outside the log, either none
  of the updates is visible or all of them are; the log is then ready for the next operation.
\<close>

theorem transaction_crash_atomic:
  fixes s :: "'x logst_scheme"
  assumes "log_idle s start" and "updates_ok start (disksize s) [] us" and "1 \<notin> unat ` fst ` set us"
  shows "\<exists>s'. kthen begin_op (kthen (update_blocks us) end_op) s = (Val (), s') \<and> log_idle s' start \<and>
    (\<forall>x. x \<notin> log_area start \<longrightarrow> memdisk s' x = upd_all us (memdisk s) x) \<and>
    (\<forall>k (t :: 'x logst_scheme). cache_boot t \<longrightarrow> disksize t = disksize s \<longrightarrow> memdisk t = crash_disk s s' k \<longrightarrow>
       log_outstanding t = 0 \<longrightarrow> \<not> log_committing t \<longrightarrow>
       (\<exists>t'. kthen binit (initlog 1) t = (Val (), t') \<and> log_idle t' start \<and>
         ((\<forall>x. x \<notin> log_area start \<longrightarrow> memdisk t' x = memdisk s x) \<or>
          (\<forall>x. x \<notin> log_area start \<longrightarrow> memdisk t' x = upd_all us (memdisk s) x))))"
proof -
  let ?v = "upd_all us (memdisk s)"
  obtain s' bns where run: "kthen begin_op (kthen (update_blocks us) end_op) s = (Val (), s')" and idle': "log_idle s' start"
    and hd: "homes_ok start bns" and st: "set bns = fst ` set us" and szb: "\<forall>b \<in> set bns. unat b < disksize s"
    and dw: "dwrites s' = dwrites s @ trans_writes start (memdisk s start) bns ?v"
    and md: "memdisk s' = apply_writes (trans_writes start (memdisk s start) bns ?v) (memdisk s)"
    using wp_transaction [OF assms, where E = "\<lambda>_ _. False"] unfolding wp_returns by auto
  have h0: "disk_hdr (memdisk s start) []" and sb: "sb_log_ok (memdisk s) start (disksize s)" using assms(1) by (auto simp: log_idle_def)
  have v: "\<forall>x. x \<notin> log_area start \<longrightarrow> x \<notin> unat ` set bns \<longrightarrow> memdisk s x = ?v x"
    using upd_all_other [of _ us "memdisk s"] st by simp
  note W = trans_writes_disk [where D = "memdisk s", OF hd h0 v]
  have one: "1 \<notin> log_area start" "?v 1 = memdisk s 1" using sb upd_all_other [OF assms(3)] by (simp_all add: sb_log_ok_def)
  have "\<exists>t'. kthen binit (initlog 1) t = (Val (), t') \<and> log_idle t' start \<and>
      ((\<forall>x. x \<notin> log_area start \<longrightarrow> memdisk t' x = memdisk s x) \<or> (\<forall>x. x \<notin> log_area start \<longrightarrow> memdisk t' x = ?v x))"
    if t: "cache_boot t" "disksize t = disksize s" "memdisk t = crash_disk s s' k" "log_outstanding t = 0" "\<not> log_committing t"
    for k and t :: "'x logst_scheme"
  proof -
    let ?T = "take k (trans_writes start (memdisk s start) bns ?v)"
    have mt: "memdisk t = apply_writes ?T (memdisk s)" using t(3) by (simp add: crash_disk_def dw)
    obtain bns' where h': "disk_hdr (memdisk t start) bns'" and b': "bns' = [] \<or> bns' = bns" using W(3) mt by auto
    have hd': "homes_ok start bns'" "\<forall>b \<in> set bns'. unat b < disksize s" using b' hd szb by (auto simp: homes_ok_def)
    have rec: "recover_disk enc_hdr dec_hdr start (memdisk t) x = (if k \<le> length bns then memdisk s x else ?v x)"
      if "x \<notin> log_area start" for x using W(4) [OF that] mt by simp
    have "1 \<notin> fst ` set ?T"
      using trans_writes_fst [OF hd, of "memdisk s start" ?v] one(1) assms(3) st by (auto dest!: in_set_takeD)
    then have t1: "memdisk t 1 = memdisk s 1" using mt apply_writes_other by metis
    have "wp (kthen binit (initlog 1)) (\<lambda>_ t'. log_idle t' start \<and>
       memdisk t' = recover_disk enc_hdr dec_hdr start (memdisk t)) (\<lambda>_ _. False) t"
      unfolding wp_simps
    proof (rule wp_mono [OF binit_establishes [OF t(1)]], goal_cases)
      case (1 u t2)
      have f: "bframe t t2" using 1 by simp
      have d2: "disksize t2 = disksize s" "memdisk t2 = memdisk t" using 1 bframe_keeps(1) [OF f] t(2) by simp_all
      have sb2: "sb_log_ok (memdisk t2) start (disksize t2)" using sb t1 d2 by (simp add: sb_log_ok_def)
      show ?case
      proof (rule wp_initlog [where bns = bns', OF _ _ _ sb2 _ hd'(1)], goal_cases)
        case (6 t')
        have "disk_hdr (memdisk t' start) []"
          using 6(2) disk_hdr_enc [of "[]"] by (simp add: recover_disk_def Let_def)
        moreover have "memdisk t' 1 = memdisk s 1" using 6(2) rec [OF one(1)] one(2) d2(2) by simp
        moreover have "disksize t' = disksize s" using 6(9) d2(1) by simp
        ultimately show ?case
          using 6 d2 t(4,5) bframe_log(3,4) [OF f] sb by (simp add: log_idle_def sb_log_ok_def)
      qed (use 1 h' hd'(2) d2 in simp_all)
    qed simp
    then obtain t' where t': "kthen binit (initlog 1) t = (Val (), t')" "log_idle t' start"
      "memdisk t' = recover_disk enc_hdr dec_hdr start (memdisk t)" unfolding wp_returns by auto
    show ?thesis
    proof (intro exI conjI, rule t'(1), rule t'(2))
      show "(\<forall>x. x \<notin> log_area start \<longrightarrow> memdisk t' x = memdisk s x) \<or> (\<forall>x. x \<notin> log_area start \<longrightarrow> memdisk t' x = ?v x)"
        using rec t'(3) by (cases "k \<le> length bns") auto
    qed
  qed
  then show ?thesis using run idle' W(1) md by auto
qed

text \<open>A disk with an empty log at block 2 and the boot state that leads to it.\<close>

definition log_ex :: logst where
  "log_ex = bst.extend (boot_ex\<lparr>memdisk := \<lambda>n i. if n = 1 \<and> i = 12 then 30 else if n = 1 \<and> i = 16 then 2 else 0\<rparr>)
     \<lparr>log_start = 0, log_size = 0, log_outstanding = 0, log_committing = False, log_dev = 0, lh_n = 0, lh_block = \<lambda>_. 0\<rparr>"

lemma log_ex_simps:
  "cache_boot log_ex" "disksize log_ex = 1000" "log_outstanding log_ex = 0" "\<not> log_committing log_ex"
  "disk_hdr (memdisk log_ex 2) []" "sb_log_ok (memdisk log_ex) 2 1000"
proof -
  have z: "get32 (\<lambda>i. 0) j = 0" for j by (simp add: get32_def)
  show "cache_boot log_ex" "disksize log_ex = 1000" "log_outstanding log_ex = 0" "\<not> log_committing log_ex"
    using boot_ex_simps(1) boot_ex_simps(3)
    by (simp_all add: log_ex_def bst.defs cache_boot_def quiet_def can_take_def curproc_def)
  show "disk_hdr (memdisk log_ex 2) []" by (simp add: log_ex_def bst.defs disk_hdr_def dec_hdr_def z)
  show "sb_log_ok (memdisk log_ex) 2 1000"
    by (simp add: log_ex_def bst.defs sb_log_ok_def sb_of_def get32_def log_area_def param_defs)
qed

lemma log_ex_idle: "\<exists>s. kthen binit (initlog 1) log_ex = (Val (), s) \<and> log_idle s 2 \<and> disksize s = 1000"
proof -
  have h: "homes_ok 2 []" by (simp add: homes_ok_def)
  have "wp (kthen binit (initlog 1)) (\<lambda>_ t. log_idle t 2 \<and> disksize t = 1000) (\<lambda>_ _. False) log_ex"
    unfolding wp_simps
  proof (rule wp_mono [OF binit_establishes [OF log_ex_simps(1)]], goal_cases)
    case (1 u s)
    have f: "bframe log_ex s" and m: "memdisk s = memdisk log_ex" using 1 by simp_all
    have d: "disksize s = 1000" using bframe_keeps(1) [OF f] log_ex_simps(2) by simp
    have sb: "sb_log_ok (memdisk s) 2 (disksize s)" using log_ex_simps(6) m d by simp
    show ?case
    proof (rule wp_initlog [where bns = "[]", OF _ _ _ sb _ h], goal_cases)
      case (6 t)
      have "dec_hdr (memdisk s 2) = []" using log_ex_simps(5) m by (simp add: disk_hdr_def)
      then have r: "recover_disk enc_hdr dec_hdr 2 (memdisk s) x = memdisk s x" if "x \<noteq> 2" for x
        using that by (intro hdr.recover_empty) simp_all
      have "disk_hdr (memdisk t 2) []" using 6(2) disk_hdr_enc [of "[]"] by (simp add: recover_disk_def Let_def)
      then show ?case
        using 6 r [of 1] d sb log_ex_simps(3,4) bframe_log(3,4) [OF f] by (simp add: log_idle_def sb_log_ok_def)
    qed (use 1 log_ex_simps(5) m in simp_all)
  qed simp
  then show ?thesis unfolding wp_returns by auto
qed

theorem transaction_crash_atomic_witness:
  "\<exists>(s :: logst) s'. log_idle s 2 \<and>
     kthen begin_op (kthen (update_blocks [(700, \<lambda>d. d(0 := 1)), (701, \<lambda>d. d(3 := 7))]) end_op) s = (Val (), s') \<and>
     memdisk s' 700 0 = 1 \<and> memdisk s' 701 3 = 7"
proof -
  obtain s :: logst where s: "log_idle s 2" "disksize s = 1000" using log_ex_idle by blast
  let ?us = "[(700, \<lambda>d. d(0 := 1)), (701, \<lambda>d. d(3 := 7))] :: (u32 \<times> (block \<Rightarrow> block)) list"
  have ok: "updates_ok 2 (disksize s) [] ?us" using s(2) by (simp add: updates_ok_def log_area_def param_defs card_insert_if)
  have one: "1 \<notin> unat ` fst ` set ?us" by simp
  obtain s' where "kthen begin_op (kthen (update_blocks ?us) end_op) s = (Val (), s')"
    and "\<And>x. x \<notin> log_area 2 \<Longrightarrow> memdisk s' x = upd_all ?us (memdisk s) x"
    using transaction_crash_atomic [OF s(1) ok one] by blast
  then show ?thesis
    using s(1) by (intro exI [of _ s] exI [of _ s']) (simp add: log_area_def upd_all_simps param_defs)
qed

section \<open>The capacity of the log\<close>



end
