(* ===== verification/Xv6_Kbd.thy ===== *)
theory Xv6_Kbd
  imports Xv6_Prelude
begin

text \<open>
  The keyboard decoder (\<open>kbd.c\<close>) with the scan code tables of \<open>kbd.h\<close>.  The static variable
  \<open>shift\<close> of \<open>kbdgetc\<close> is passed through; the status and data ports are arguments.
\<close>

section \<open>Tables\<close>

definition KBS_DIB :: u8 where "KBS_DIB = 0x01"
definition SHIFT :: u32 where "SHIFT = 0x01"
definition CTL :: u32 where "CTL = 0x02"
definition ALT :: u32 where "ALT = 0x04"
definition CAPSLOCK :: u32 where "CAPSLOCK = 0x08"
definition NUMLOCK :: u32 where "NUMLOCK = 0x10"
definition SCROLLLOCK :: u32 where "SCROLLLOCK = 0x20"
definition E0ESC :: u32 where "E0ESC = 0x40"

lemmas kbd_defs =
  KBS_DIB_def SHIFT_def CTL_def ALT_def CAPSLOCK_def NUMLOCK_def SCROLLLOCK_def E0ESC_def

fun shiftcode :: "nat \<Rightarrow> u32" where
  "shiftcode d =
     (if d = 0x1D \<or> d = 0x9D then CTL
      else if d = 0x2A \<or> d = 0x36 then SHIFT
      else if d = 0x38 \<or> d = 0xB8 then ALT
      else 0)"

fun togglecode :: "nat \<Rightarrow> u32" where
  "togglecode d =
     (if d = 0x3A then CAPSLOCK else if d = 0x45 then NUMLOCK else if d = 0x46 then SCROLLLOCK else 0)"








section \<open>Decoding\<close>




section \<open>What the decoder delivers\<close>





definition low7 :: "u32 \<Rightarrow> bool" where
  "low7 w = (\<forall>n. bit w n \<longrightarrow> n < 7)"

lemma low7_take_bit: "w = take_bit 7 w \<longleftrightarrow> low7 w"
proof
  assume w: "w = take_bit 7 w"
  show "low7 w" unfolding low7_def by (subst w) (simp add: bit_take_bit_iff)
qed (auto simp: low7_def bit_eq_iff bit_take_bit_iff)

lemma low7_codes [simp]: "low7 (shiftcode d)" "low7 (togglecode d)" "low7 E0ESC"
  unfolding low7_take_bit [symmetric] by (simp_all add: kbd_defs)

lemma low7_ops [simp]:
  "low7 a \<Longrightarrow> low7 b \<Longrightarrow> low7 (a OR b)" "low7 a \<Longrightarrow> low7 b \<Longrightarrow> low7 (a XOR b)" "low7 a \<Longrightarrow> low7 (a AND c)"
  by (auto simp: low7_def bit_simps)

declare shiftcode.simps [simp del] togglecode.simps [simp del]



end
