(* ===== verification/Xv6_Ring.thy ===== *)
theory Xv6_Ring
  imports Xv6_Prelude
begin

text \<open>
  Circular buffers with free-running 32-bit indices, the data structure of the console input and
  of the pipes.  An index is reduced only when it is used; since the size divides \<open>2^32\<close>, this stays
  right when the index wraps around.  The locale gives the contents as a list and the effect of
  adding at one end and taking from the other.
\<close>

definition ring_ix :: "nat \<Rightarrow> u32 \<Rightarrow> nat" where
  "ring_ix N i = unat (i mod of_nat N)"

definition ringbuf :: "nat \<Rightarrow> (nat \<Rightarrow> 'a) \<Rightarrow> u32 \<Rightarrow> nat \<Rightarrow> 'a list" where
  "ringbuf N buf i n = map (\<lambda>k. buf (ring_ix N (i + of_nat k))) [0..<n]"

locale ring_buffer =
  fixes N :: nat
  assumes size_pos: "0 < N" and size_dvd: "N dvd 2 ^ 32" and size_small: "N < 2 ^ 32"
begin

lemma ix_add: "ring_ix N (i + of_nat k) = (unat i + k) mod N"
proof -
  have N: "unat (of_nat N :: u32) = N" using size_small by (simp add: unat_of_nat)
  have "unat (i + of_nat k) = (unat i + k) mod 2 ^ 32" by (simp add: unat_word_ariths unat_of_nat mod_simps)
  then have "ring_ix N (i + of_nat k) = (unat i + k) mod 2 ^ 32 mod N" by (simp add: ring_ix_def unat_mod_distrib N)
  then show ?thesis by (simp only: mod_mod_cancel [OF size_dvd])
qed

lemma ix_distinct:
  assumes "j < k" and "k - j < N"
  shows "ring_ix N (i + of_nat j) \<noteq> ring_ix N (i + of_nat k)"
proof
  assume "ring_ix N (i + of_nat j) = ring_ix N (i + of_nat k)"
  then have "N dvd (unat i + k) - (unat i + j)"
    using mod_eq_dvd_iff_nat [of "unat i + j" "unat i + k" N] assms(1) by (simp add: ix_add)
  then have "N dvd k - j" by simp
  then show False using assms dvd_imp_le [of N "k - j"] by simp
qed

lemma idx_eq:
  assumes "a \<le> N" and "b \<le> N"
  shows "i + of_nat a = (i :: u32) + of_nat b \<longleftrightarrow> a = b"
proof -
  have "(of_nat a :: u32) = of_nat b \<longleftrightarrow> a = b"
    using assms size_small by (simp add: word_unat_eq_iff unat_of_nat)
  then show ?thesis by simp
qed

lemma ringbuf_length: "length (ringbuf N buf i n) = n"
  by (simp add: ringbuf_def)

lemma ring_snoc: "ringbuf N buf i (Suc n) = ringbuf N buf i n @ [buf (ring_ix N (i + of_nat n))]"
  by (simp add: ringbuf_def)

lemma ring_put_frame:
  assumes "n \<le> k" and "k < N"
  shows "ringbuf N (buf(ring_ix N (i + of_nat k) := x)) i n = ringbuf N buf i n"
  unfolding ringbuf_def
proof (rule map_cong [OF refl])
  fix j assume "j \<in> set [0..<n]"
  then have "j < k" "k - j < N" using assms by auto
  from ix_distinct [OF this, of i]
  show "(buf(ring_ix N (i + of_nat k) := x)) (ring_ix N (i + of_nat j)) = buf (ring_ix N (i + of_nat j))" by simp
qed

lemma ring_push:
  "n < N \<Longrightarrow> ringbuf N (buf(ring_ix N (i + of_nat n) := x)) i (Suc n) = ringbuf N buf i n @ [x]"
  by (simp add: ring_snoc ring_put_frame)

lemma ring_pop: "ringbuf N buf i (Suc n) = buf (ring_ix N i) # ringbuf N buf (i + 1) n"
proof -
  have "[0..<Suc n] = 0 # map Suc [0..<n]" by (simp only: map_Suc_upt upt_conv_Cons zero_less_Suc)
  then show ?thesis by (simp add: ringbuf_def o_def add.assoc)
qed

lemma ring_append: "ringbuf N buf i (a + b) = ringbuf N buf i a @ ringbuf N buf (i + of_nat a) b"
  by (induction b) (simp_all add: ring_snoc add.assoc ringbuf_def)

end

end
