(* ===== verification/Xv6_Inode.thy ===== *)
theory Xv6_Inode
  imports Xv6_Console
begin

text \<open>
  The block allocator and the inode layer of \<open>fs.c\<close>, down to \<open>bmap\<close> and \<open>itrunc\<close>, with the on-disk
  structures of \<open>fs.h\<close> and \<open>struct inode\<close> of \<open>file.h\<close>.  An inode in memory is named by its index in
  \<open>icache.inode\<close>, so the null tests on inode pointers of \<open>ilock\<close> and \<open>iunlock\<close> hold by type; its
  sleep lock is \<open>L_inode i\<close>.  A dinode is read from and written to the bytes of its block.
\<close>

section \<open>State\<close>

definition NDIRECT :: nat where "NDIRECT = 12"
definition NINDIRECT :: nat where "NINDIRECT = BSIZE div 4"
definition MAXFILE :: nat where "MAXFILE = NDIRECT + NINDIRECT"
definition ROOTINO :: u32 where "ROOTINO = 1"
definition DINODE_SIZE :: nat where "DINODE_SIZE = 64"
definition IPB :: nat where "IPB = BSIZE div DINODE_SIZE"
definition BPB :: nat where "BPB = BSIZE * 8"
definition I_VALID :: u32 where "I_VALID = 0x2"
definition T_DIR :: u16 where "T_DIR = 1"
definition T_FILE :: u16 where "T_FILE = 2"
definition T_DEV :: u16 where "T_DEV = 3"

lemmas fs_defs =
  NDIRECT_def NINDIRECT_def MAXFILE_def ROOTINO_def DINODE_SIZE_def IPB_def BPB_def BSIZE_def
  I_VALID_def T_DIR_def T_FILE_def T_DEV_def

record inode =
  i_dev :: u32
  i_inum :: u32
  i_ref :: int
  i_flags :: u32
  i_type :: u16
  i_major :: u16
  i_minor :: u16
  i_nlink :: u16
  i_size :: u32
  i_addrs :: "nat \<Rightarrow> u32"

text \<open>
  The entries of \<open>devsw\<close> are function pointers; the only functions ever stored there are those of the
  console, so an entry tells whether it is set.
\<close>

datatype devfn = Consoleread | Consolewrite

record icst = consst +
  sb :: superblock
  icache :: "nat \<Rightarrow> inode"
  devsw_read :: "nat \<Rightarrow> devfn option"
  devsw_write :: "nat \<Rightarrow> devfn option"

definition upd_inode :: "nat \<Rightarrow> (inode \<Rightarrow> inode) \<Rightarrow> 'x icst_scheme \<Rightarrow> 'x icst_scheme" where
  "upd_inode ip f s = s\<lparr>icache := (icache s)(ip := f (icache s ip))\<rparr>"

section \<open>On-disk layout\<close>

definition IBLOCK :: "u32 \<Rightarrow> superblock \<Rightarrow> u32" where
  "IBLOCK i q = i div of_nat IPB + sb_inodestart q"

definition BBLOCK :: "u32 \<Rightarrow> superblock \<Rightarrow> u32" where
  "BBLOCK b q = b div of_nat BPB + sb_bmapstart q"

definition get16 :: "block \<Rightarrow> nat \<Rightarrow> u16" where
  "get16 d i = ucast (d i) OR push_bit 8 (ucast (d (i + 1)))"

definition put16 :: "block \<Rightarrow> nat \<Rightarrow> u16 \<Rightarrow> block" where
  "put16 d i w = d(i := ucast w, i + 1 := ucast (drop_bit 8 w))"

text \<open>The offset of dinode \<open>inum\<close> in its block, and the offsets of the fields in a dinode.\<close>

definition dinode_off :: "u32 \<Rightarrow> nat" where
  "dinode_off inum = DINODE_SIZE * (unat inum mod IPB)"

definition dinode_type :: "block \<Rightarrow> u32 \<Rightarrow> u16" where
  "dinode_type d inum = get16 d (dinode_off inum)"

definition load_dinode :: "block \<Rightarrow> nat \<Rightarrow> inode \<Rightarrow> inode" where
  "load_dinode d o' ip = ip\<lparr>i_type := get16 d o', i_major := get16 d (o' + 2), i_minor := get16 d (o' + 4),
     i_nlink := get16 d (o' + 6), i_size := get32 d (o' + 8), i_addrs := (\<lambda>i. if i \<le> NDIRECT then get32 d (o' + 12 + 4 * i) else i_addrs ip i)\<rparr>"

definition put_addrs :: "(nat \<Rightarrow> u32) \<Rightarrow> nat \<Rightarrow> block \<Rightarrow> block" where
  "put_addrs a o' d = fold (\<lambda>i d. put32 d (o' + 4 * i) (a i)) [0..<NDIRECT + 1] d"

definition store_dinode :: "inode \<Rightarrow> nat \<Rightarrow> block \<Rightarrow> block" where
  "store_dinode ip o' d =
     put_addrs (i_addrs ip) (o' + 12)
      (put32 (put16 (put16 (put16 (put16 d o' (i_type ip)) (o' + 2) (i_major ip)) (o' + 4) (i_minor ip))
        (o' + 6) (i_nlink ip)) (o' + 8) (i_size ip))"

definition zero_bytes :: "nat \<Rightarrow> nat \<Rightarrow> block \<Rightarrow> block" where
  "zero_bytes o' n d i = (if o' \<le> i \<and> i < o' + n then 0 else d i)"

section \<open>Blocks\<close>

definition bzero :: "u32 \<Rightarrow> u32 \<Rightarrow> ('x logst_scheme, unit) K" where
  "bzero dev bno =
     kbind (bread dev bno) (\<lambda>bp.
     kthen (edit_data bp (zero_bytes 0 BSIZE))
     (kthen (log_write bp)
     (brelse bp)))"

definition bmask :: "nat \<Rightarrow> u8" where
  "bmask bi = push_bit (bi mod 8) 1"

definition bfree_bit :: "block \<Rightarrow> nat \<Rightarrow> bool" where
  "bfree_bit d bi = (d (bi div 8) AND bmask bi = 0)"

text \<open>The two loops of \<open>balloc\<close>: over the blocks of the bitmap, and over the bits of one.\<close>

fun balloc_loop :: "u32 \<Rightarrow> nat list \<Rightarrow> ('x icst_scheme, u32) K" where
  "balloc_loop dev [] = kpanic ''balloc: out of blocks''"
| "balloc_loop dev (b # bs) =
     kbind (kget sb) (\<lambda>sb.
     kbind (bread dev (BBLOCK (of_nat b) sb)) (\<lambda>bp.
     kbind (kget (\<lambda>s. find (bfree_bit (b_data (bufs s bp))) [0..<min BPB (unat (sb_size sb) - b)])) (\<lambda>r.
     case r of
       Some bi \<Rightarrow>
         kthen (edit_data bp (\<lambda>d. d(bi div 8 := d (bi div 8) OR bmask bi)))
         (kthen (log_write bp)
         (kthen (brelse bp)
         (kthen (bzero dev (of_nat (b + bi)))
         (kret (of_nat (b + bi))))))
     | None \<Rightarrow> kthen (brelse bp) (balloc_loop dev bs))))"

definition balloc :: "u32 \<Rightarrow> ('x icst_scheme, u32) K" where
  "balloc dev =
     kbind (kget (\<lambda>s. unat (sb_size (sb s)))) (\<lambda>n.
     balloc_loop dev (map (\<lambda>k. k * BPB) [0..<(n + BPB - 1) div BPB]))"

definition bfree :: "u32 \<Rightarrow> u32 \<Rightarrow> ('x icst_scheme, unit) K" where
  "bfree dev b =
     kbind (readsb dev) (\<lambda>sb'.
     kthen (kmod (\<lambda>s. s\<lparr>sb := sb'\<rparr>))
     (kbind (kget sb) (\<lambda>sb.
     kbind (bread dev (BBLOCK b sb)) (\<lambda>bp.
     let bi = unat b mod BPB in
     kbind (kget (\<lambda>s. bfree_bit (b_data (bufs s bp)) bi)) (\<lambda>free.
     if free then kpanic ''freeing free block''
     else
     kthen (edit_data bp (\<lambda>d. d(bi div 8 := d (bi div 8) AND NOT (bmask bi))))
     (kthen (log_write bp)
     (brelse bp)))))))"

section \<open>The inode cache\<close>

definition iinit :: "u32 \<Rightarrow> ('x icst_scheme, unit) K" where
  "iinit dev =
     kthen (initlock L_icache)
     (kthen (kfor [0..<NINODE] (\<lambda>i. initsleeplock (L_inode i)))
     (kbind (readsb dev) (\<lambda>sb'.
     kthen (kmod (\<lambda>s. s\<lparr>sb := sb'\<rparr>))
     (cprintf (''sb: size %d nblocks %d ninodes %d nlog %d logstart %d inodestart %d bmap start %d'' @ [CHR 0x0A])
       [Cint (sb_size sb'), Cint (sb_nblocks sb'), Cint (sb_ninodes sb'), Cint (sb_nlog sb'),
        Cint (sb_logstart sb'), Cint (sb_inodestart sb'), Cint (sb_bmapstart sb')]))))"

text \<open>
  The search of \<open>iget\<close> goes on after the first empty slot: the inode may be cached further on.
\<close>

definition iget_scan :: "u32 \<Rightarrow> u32 \<Rightarrow> (nat \<Rightarrow> inode) \<Rightarrow> nat option \<times> nat option" where
  "iget_scan dev inum c =
     (find (\<lambda>i. i_ref (c i) > 0 \<and> i_dev (c i) = dev \<and> i_inum (c i) = inum) [0..<NINODE],
      find (\<lambda>i. i_ref (c i) = 0) [0..<NINODE])"

definition iget_body :: "u32 \<Rightarrow> u32 \<Rightarrow> ('x icst_scheme, nat) K" where
  "iget_body dev inum =
     kbind (kget (\<lambda>s. iget_scan dev inum (icache s))) (\<lambda>(hit, empty).
     case hit of
       Some ip \<Rightarrow> kthen (kmod (upd_inode ip (\<lambda>q. q\<lparr>i_ref := i_ref q + 1\<rparr>))) (kret ip)
     | None \<Rightarrow>
        (case empty of
           None \<Rightarrow> kpanic ''iget: no inodes''
         | Some ip \<Rightarrow>
             kthen (kmod (upd_inode ip (\<lambda>q. q\<lparr>i_dev := dev, i_inum := inum, i_ref := 1, i_flags := 0\<rparr>)))
             (kret ip)))"

definition iget :: "u32 \<Rightarrow> u32 \<Rightarrow> ('x icst_scheme, nat) K" where
  "iget dev inum = with_lock L_icache (iget_body dev inum)"

definition idup :: "nat \<Rightarrow> ('x icst_scheme, nat) K" where
  "idup ip =
     with_lock L_icache
      (kthen (kmod (upd_inode ip (\<lambda>q. q\<lparr>i_ref := i_ref q + 1\<rparr>))) (kret ip))"

fun ialloc_loop :: "u32 \<Rightarrow> u16 \<Rightarrow> nat list \<Rightarrow> ('x icst_scheme, nat) K" where
  "ialloc_loop dev type [] = kpanic ''ialloc: no inodes''"
| "ialloc_loop dev type (inum # inums) =
     kbind (kget sb) (\<lambda>sb.
     kbind (bread dev (IBLOCK (of_nat inum) sb)) (\<lambda>bp.
     kbind (kget (\<lambda>s. dinode_type (b_data (bufs s bp)) (of_nat inum))) (\<lambda>t.
     if t = 0 then
       kthen (edit_data bp (\<lambda>d. put16 (zero_bytes (dinode_off (of_nat inum)) DINODE_SIZE d) (dinode_off (of_nat inum)) type))
       (kthen (log_write bp)
       (kthen (brelse bp)
       (iget dev (of_nat inum))))
     else kthen (brelse bp) (ialloc_loop dev type inums))))"

definition ialloc :: "u32 \<Rightarrow> u16 \<Rightarrow> ('x icst_scheme, nat) K" where
  "ialloc dev type = kbind (kget (\<lambda>s. unat (sb_ninodes (sb s)))) (\<lambda>n. ialloc_loop dev type [1..<n])"

definition iupdate :: "nat \<Rightarrow> ('x icst_scheme, unit) K" where
  "iupdate ip =
     kbind (kget sb) (\<lambda>sb.
     kbind (kget (\<lambda>s. icache s ip)) (\<lambda>q.
     kbind (bread (i_dev q) (IBLOCK (i_inum q) sb)) (\<lambda>bp.
     kthen (edit_data bp (store_dinode q (dinode_off (i_inum q))))
     (kthen (log_write bp)
     (brelse bp)))))"

definition ilock_load :: "nat \<Rightarrow> ('x icst_scheme, unit) K" where
  "ilock_load ip =
     kbind (kget (\<lambda>s. i_flags (icache s ip) AND I_VALID = 0)) (\<lambda>load.
     kwhen load
      (kbind (kget sb) (\<lambda>sb.
       kbind (kget (\<lambda>s. icache s ip)) (\<lambda>q.
       kbind (bread (i_dev q) (IBLOCK (i_inum q) sb)) (\<lambda>bp.
       kthen (kmod (\<lambda>s. upd_inode ip (load_dinode (b_data (bufs s bp)) (dinode_off (i_inum q))) s))
       (kthen (brelse bp)
       (kthen (kmod (upd_inode ip (\<lambda>q. q\<lparr>i_flags := i_flags q OR I_VALID\<rparr>)))
       (kbind (kget (\<lambda>s. i_type (icache s ip))) (\<lambda>t.
       kwhen (t = 0) (kpanic ''ilock: no type''))))))))))"

definition ilock :: "nat \<Rightarrow> ('x icst_scheme, unit) K" where
  "ilock ip =
     kbind (kget (\<lambda>s. i_ref (icache s ip))) (\<lambda>ref.
     if ref < 1 then kpanic ''ilock''
     else kthen (acquiresleep (L_inode ip)) (ilock_load ip))"

text \<open>What follows a sleep in \<open>acquiresleep\<close>.\<close>

definition ilock_resume :: "nat \<Rightarrow> ('x icst_scheme, unit) K" where
  "ilock_resume ip = kthen (acquiresleep_resume (L_inode ip)) (ilock_load ip)"

definition iunlock :: "nat \<Rightarrow> ('x icst_scheme, unit) K" where
  "iunlock ip =
     kbind (holdingsleep (L_inode ip)) (\<lambda>h.
     kbind (kget (\<lambda>s. i_ref (icache s ip))) (\<lambda>ref.
     if \<not> h \<or> ref < 1 then kpanic ''iunlock''
     else releasesleep (L_inode ip)))"

section \<open>Inode content\<close>

definition addr_of :: "nat \<Rightarrow> nat \<Rightarrow> 'x icst_scheme \<Rightarrow> u32" where
  "addr_of ip i s = i_addrs (icache s ip) i"

definition set_addr :: "nat \<Rightarrow> nat \<Rightarrow> u32 \<Rightarrow> ('x icst_scheme, unit) K" where
  "set_addr ip i a = kmod (upd_inode ip (\<lambda>q. q\<lparr>i_addrs := (i_addrs q)(i := a)\<rparr>))"

text \<open>\<open>if((addr = ip->addrs[i]) == 0) ip->addrs[i] = addr = balloc(ip->dev);\<close>\<close>

definition bmap_addr :: "nat \<Rightarrow> nat \<Rightarrow> ('x icst_scheme, u32) K" where
  "bmap_addr ip i =
     kbind (kget (addr_of ip i)) (\<lambda>addr.
     if addr = 0 then
       kbind (kget (\<lambda>s. i_dev (icache s ip))) (\<lambda>dev.
       kbind (balloc dev) (\<lambda>addr. kthen (set_addr ip i addr) (kret addr)))
     else kret addr)"

text \<open>From the reading of the indirect block on.\<close>

definition bmap_indirect :: "u32 \<Rightarrow> u32 \<Rightarrow> nat \<Rightarrow> ('x icst_scheme, u32) K" where
  "bmap_indirect dev addr bn =
     kbind (bread dev addr) (\<lambda>bp.
     kbind (kget (\<lambda>s. get32 (b_data (bufs s bp)) (4 * bn))) (\<lambda>addr.
     kbind (if addr = 0 then
              kbind (balloc dev) (\<lambda>addr.
              kthen (edit_data bp (\<lambda>d. put32 d (4 * bn) addr))
              (kthen (log_write bp)
              (kret addr)))
            else kret addr) (\<lambda>addr.
     kthen (brelse bp) (kret addr))))"

definition bmap :: "nat \<Rightarrow> u32 \<Rightarrow> ('x icst_scheme, u32) K" where
  "bmap ip bn =
     (if unat bn < NDIRECT then bmap_addr ip (unat bn)
      else
      let bn = unat bn - NDIRECT in
      if bn < NINDIRECT then
        kbind (bmap_addr ip NDIRECT) (\<lambda>addr.
        kbind (kget (\<lambda>s. i_dev (icache s ip))) (\<lambda>dev.
        bmap_indirect dev addr bn))
      else kpanic ''bmap: out of range'')"

definition itrunc :: "nat \<Rightarrow> ('x icst_scheme, unit) K" where
  "itrunc ip =
     kbind (kget (\<lambda>s. i_dev (icache s ip))) (\<lambda>dev.
     kthen (kfor [0..<NDIRECT] (\<lambda>i.
       kbind (kget (addr_of ip i)) (\<lambda>a.
       kwhen (a \<noteq> 0) (kthen (bfree dev a) (set_addr ip i 0)))))
     (kbind (kget (addr_of ip NDIRECT)) (\<lambda>ind.
     kthen (kwhen (ind \<noteq> 0)
       (kbind (bread dev ind) (\<lambda>bp.
        kthen (kfor [0..<NINDIRECT] (\<lambda>j.
          kbind (kget (\<lambda>s. get32 (b_data (bufs s bp)) (4 * j))) (\<lambda>a.
          kwhen (a \<noteq> 0) (bfree dev a))))
        (kthen (brelse bp)
        (kthen (bfree dev ind)
        (set_addr ip NDIRECT 0))))))
     (kthen (kmod (upd_inode ip (\<lambda>q. q\<lparr>i_size := 0\<rparr>)))
     (iupdate ip)))))"

text \<open>
  \<open>iput\<close> in its two critical sections; between them the last reference to an unlinked inode is
  freed without the lock.
\<close>

definition iput :: "nat \<Rightarrow> ('x icst_scheme, unit) K" where
  "iput ip =
     kthen (acquire L_icache)
     (kbind (kget (\<lambda>s. let q = icache s ip in i_ref q = 1 \<and> i_flags q AND I_VALID \<noteq> 0 \<and> i_nlink q = 0)) (\<lambda>last.
     kthen (kwhen last
       (kthen (release L_icache)
       (kthen (itrunc ip)
       (kthen (kmod (upd_inode ip (\<lambda>q. q\<lparr>i_type := 0\<rparr>)))
       (kthen (iupdate ip)
       (kthen (acquire L_icache)
       (kmod (upd_inode ip (\<lambda>q. q\<lparr>i_flags := 0\<rparr>)))))))))
     (kthen (kmod (upd_inode ip (\<lambda>q. q\<lparr>i_ref := i_ref q - 1\<rparr>)))
     (release L_icache))))"

definition iunlockput :: "nat \<Rightarrow> ('x icst_scheme, unit) K" where
  "iunlockput ip = kthen (iunlock ip) (iput ip)"

end
