(* ===== verification/Xv6_Fs.thy ===== *)
theory Xv6_Fs
  imports Xv6_Inode
begin

text \<open>
  File contents, directories and path names: the rest of \<open>fs.c\<close>, and the device side of the console
  (\<open>consoleread\<close>, \<open>consolewrite\<close>, \<open>consoleinit\<close>), which \<open>readi\<close> and \<open>writei\<close> reach through \<open>devsw\<close>.
  Reads return the bytes they copy and writes take them, so that the caller decides whether they
  live in user or in kernel memory.  A C string is the list of its bytes before the NUL.
\<close>

section \<open>The console device\<close>

definition consoleread_end :: "nat \<Rightarrow> u8 list \<Rightarrow> ('x icst_scheme, int \<times> u8 list) K" where
  "consoleread_end ip got =
     kthen (release L_cons) (kthen (ilock ip) (kret (int (length got), got)))"

text \<open>The loop with \<open>n\<close> bytes still wanted and \<open>got\<close> stored; it may end in a sleep.\<close>

fun consoleread_loop :: "nat \<Rightarrow> nat \<Rightarrow> u8 list \<Rightarrow> ('x icst_scheme, int \<times> u8 list) K" where
  "consoleread_loop ip 0 got = consoleread_end ip got"
| "consoleread_loop ip (Suc n) got =
     kbind (kget (\<lambda>s. input_r s = input_w s)) (\<lambda>empty.
     if empty then
       with_cur (\<lambda>p. kbind (kget (\<lambda>s. p_killed (ptable s p))) (\<lambda>killed.
       if killed then kthen (release L_cons) (kthen (ilock ip) (kret (-1, got)))
       else sleep Ch_input L_cons))
     else
     kbind (kget (\<lambda>s. input_buf s (ibuf_ix (input_r s)))) (\<lambda>c.
     kthen (kmod (\<lambda>s. s\<lparr>input_r := input_r s + 1\<rparr>))
     (if sint c = ctrl CHR ''D'' then
        kthen (kwhen (got \<noteq> []) (kmod (\<lambda>s. s\<lparr>input_r := input_r s - 1\<rparr>)))
        (consoleread_end ip got)
      else if c = 10 then consoleread_end ip (got @ [c])
      else consoleread_loop ip n (got @ [c]))))"

definition consoleread :: "nat \<Rightarrow> int \<Rightarrow> ('x icst_scheme, int \<times> u8 list) K" where
  "consoleread ip n =
     kthen (iunlock ip) (kthen (acquire L_cons) (consoleread_loop ip (nat n) []))"

definition consoleread_resume :: "nat \<Rightarrow> nat \<Rightarrow> u8 list \<Rightarrow> ('x icst_scheme, int \<times> u8 list) K" where
  "consoleread_resume ip n got = kthen (sleep_resume L_cons) (consoleread_loop ip n got)"

definition consolewrite :: "nat \<Rightarrow> u8 list \<Rightarrow> ('x icst_scheme, int) K" where
  "consolewrite ip buf =
     kthen (iunlock ip)
     (kthen (with_lock L_cons (consputs (map uint buf)))
     (kthen (ilock ip)
     (kret (int (length buf)))))"

text \<open>Without the interrupt routing to the keyboard.\<close>

definition consoleinit :: "('x icst_scheme, unit) K" where
  "consoleinit =
     kthen (initlock L_cons)
     (kmod (\<lambda>s. s\<lparr>devsw_write := (devsw_write s)(1 := Some Consolewrite),
                  devsw_read := (devsw_read s)(1 := Some Consoleread), cons_locking := True\<rparr>))"

section \<open>Inode content\<close>

record stat =
  st_type :: u16
  st_dev :: u32
  st_ino :: u32
  st_nlink :: u16
  st_size :: u32

definition stati :: "nat \<Rightarrow> ('x icst_scheme, stat) K" where
  "stati ip = kget (\<lambda>s. let q = icache s ip in
     \<lparr>st_type = i_type q, st_dev = i_dev q, st_ino = i_inum q, st_nlink = i_nlink q, st_size = i_size q\<rparr>)"

definition dev_slot :: "u16 \<Rightarrow> (nat \<Rightarrow> devfn option) \<Rightarrow> devfn option" where
  "dev_slot major tab = (if sint major < 0 \<or> sint major \<ge> int NDEV then None else tab (nat (sint major)))"

text \<open>The number of bytes that one round of the copying loops moves.\<close>

definition chunk :: "nat \<Rightarrow> u32 \<Rightarrow> nat" where
  "chunk n off = min n (BSIZE - unat off mod BSIZE)"

lemma chunk_pos: "0 < n \<Longrightarrow> 0 < chunk n off"
  by (simp add: chunk_def BSIZE_def)

definition bytes_at :: "block \<Rightarrow> nat \<Rightarrow> nat \<Rightarrow> u8 list" where
  "bytes_at d o' m = map d [o'..<o' + m]"

definition patch_bytes :: "u8 list \<Rightarrow> nat \<Rightarrow> block \<Rightarrow> block" where
  "patch_bytes bs o' d i = (if o' \<le> i \<and> i < o' + length bs then bs ! (i - o') else d i)"

text \<open>One round of the loop of \<open>readi\<close>, which copies \<open>m\<close> bytes, and the loop with \<open>n\<close> bytes still to read.\<close>

definition readi_step :: "nat \<Rightarrow> u32 \<Rightarrow> nat \<Rightarrow> ('x icst_scheme, u8 list) K" where
  "readi_step ip off m =
     kbind (kget (\<lambda>s. i_dev (icache s ip))) (\<lambda>dev.
     kbind (bmap ip (off div of_nat BSIZE)) (\<lambda>addr.
     kbind (bread dev addr) (\<lambda>bp.
     kbind (kget (\<lambda>s. bytes_at (b_data (bufs s bp)) (unat off mod BSIZE) m)) (\<lambda>bs.
     kthen (brelse bp)
     (kret bs)))))"

function readi_loop :: "nat \<Rightarrow> u32 \<Rightarrow> nat \<Rightarrow> ('x icst_scheme, u8 list) K" where
  "readi_loop ip off n =
     (if n = 0 then kret []
      else
      let m = chunk n off in
      kbind (readi_step ip off m) (\<lambda>bs.
      kbind (readi_loop ip (off + of_nat m) (n - m)) (\<lambda>rest.
      kret (bs @ rest))))"
  by pat_completeness auto
termination
  by (relation "measure (\<lambda>(ip, off, n). n)") (auto simp: chunk_pos)

declare readi_loop.simps [simp del]

definition readi :: "nat \<Rightarrow> u32 \<Rightarrow> u32 \<Rightarrow> ('x icst_scheme, int \<times> u8 list) K" where
  "readi ip off n =
     kbind (kget (\<lambda>s. icache s ip)) (\<lambda>q.
     if i_type q = T_DEV then
       kbind (kget (\<lambda>s. dev_slot (i_major q) (devsw_read s))) (\<lambda>f.
       case f of None \<Rightarrow> kret (-1, [])
       | Some Consoleread \<Rightarrow> consoleread ip (sint n)
       | Some Consolewrite \<Rightarrow> kfail Wild)
     else if off > i_size q \<or> off + n < off then kret (-1, [])
     else
     let n = (if off + n > i_size q then i_size q - off else n) in
     kbind (readi_loop ip off (unat n)) (\<lambda>bs. kret (sint n, bs)))"

definition writei_step :: "nat \<Rightarrow> u8 list \<Rightarrow> u32 \<Rightarrow> ('x icst_scheme, unit) K" where
  "writei_step ip src off =
     kbind (kget (\<lambda>s. i_dev (icache s ip))) (\<lambda>dev.
     kbind (bmap ip (off div of_nat BSIZE)) (\<lambda>addr.
     kbind (bread dev addr) (\<lambda>bp.
     kthen (edit_data bp (patch_bytes src (unat off mod BSIZE)))
     (kthen (log_write bp)
     (brelse bp)))))"

function writei_loop :: "nat \<Rightarrow> u8 list \<Rightarrow> u32 \<Rightarrow> ('x icst_scheme, unit) K" where
  "writei_loop ip src off =
     (if src = [] then kret ()
      else
      let m = chunk (length src) off in
      kthen (writei_step ip (take m src) off)
      (writei_loop ip (drop m src) (off + of_nat m)))"
  by pat_completeness auto
termination
  by (relation "measure (\<lambda>(ip, src, off). length src)") (auto simp: chunk_pos)

declare writei_loop.simps [simp del]

text \<open>\<open>src\<close> holds the \<open>n\<close> bytes to write.\<close>

definition writei :: "nat \<Rightarrow> u8 list \<Rightarrow> u32 \<Rightarrow> ('x icst_scheme, int) K" where
  "writei ip src off =
     (let n = of_nat (length src) :: u32 in
      kbind (kget (\<lambda>s. icache s ip)) (\<lambda>q.
      if i_type q = T_DEV then
        kbind (kget (\<lambda>s. dev_slot (i_major q) (devsw_write s))) (\<lambda>f.
        case f of None \<Rightarrow> kret (-1)
        | Some Consolewrite \<Rightarrow> consolewrite ip src
        | Some Consoleread \<Rightarrow> kfail Wild)
      else if off > i_size q \<or> off + n < off then kret (-1)
      else if unat (off + n) > MAXFILE * BSIZE then kret (-1)
      else
      kthen (writei_loop ip src off)
      (let off = off + n in
       kbind (kget (\<lambda>s. i_size (icache s ip))) (\<lambda>isz.
       kthen (kwhen (n > 0 \<and> off > isz)
         (kthen (kmod (upd_inode ip (\<lambda>q. q\<lparr>i_size := off\<rparr>)))
         (iupdate ip)))
       (kret (sint n))))))"

section \<open>Directories\<close>

definition DIRSIZ :: nat where "DIRSIZ = 14"

text \<open>\<open>strncmp\<close> and \<open>strncpy\<close> on strings given as lists; the end of a list is the NUL.\<close>

fun strncmp_l :: "u8 list \<Rightarrow> u8 list \<Rightarrow> nat \<Rightarrow> int" where
  "strncmp_l p q 0 = 0"
| "strncmp_l (a # p) (b # q) (Suc n) =
     (if a \<noteq> 0 \<and> a = b then strncmp_l p q n else int (unat a) - int (unat b))"
| "strncmp_l [] (b # q) (Suc n) = - int (unat b)"
| "strncmp_l (a # p) [] (Suc n) = int (unat a)"
| "strncmp_l [] [] (Suc n) = 0"

definition strncpy_l :: "u8 list \<Rightarrow> nat \<Rightarrow> u8 list" where
  "strncpy_l t n = (let k = takeWhile (\<lambda>c. c \<noteq> 0) (take n t) in k @ replicate (n - length k) 0)"

definition namecmp :: "u8 list \<Rightarrow> u8 list \<Rightarrow> int" where
  "namecmp s t = strncmp_l s t DIRSIZ"

record dirent =
  d_inum :: u16
  d_name :: "u8 list"

definition dirent_of :: "u8 list \<Rightarrow> dirent" where
  "dirent_of bs = \<lparr>d_inum = ucast (bs ! 0) OR push_bit 8 (ucast (bs ! 1)), d_name = take DIRSIZ (drop 2 bs)\<rparr>"

definition dirent_bytes :: "dirent \<Rightarrow> u8 list" where
  "dirent_bytes de = [ucast (d_inum de), ucast (drop_bit 8 (d_inum de))] @ d_name de"

definition read_dirent :: "nat \<Rightarrow> nat \<Rightarrow> ('x icst_scheme, dirent) K" where
  "read_dirent dp off =
     kbind (readi dp (of_nat off) 16) (\<lambda>(r, bs).
     if r \<noteq> 16 then kpanic ''dirlink read'' else kret (dirent_of bs))"

text \<open>The offsets that the loops over a directory of a given size visit, and where they stop.\<close>

definition dir_end :: "u32 \<Rightarrow> nat" where
  "dir_end sz = 16 * ((unat sz + 15) div 16)"

definition dir_offs :: "u32 \<Rightarrow> nat list" where
  "dir_offs sz = map (\<lambda>k. 16 * k) [0..<(unat sz + 15) div 16]"

fun dirlookup_loop :: "nat \<Rightarrow> u8 list \<Rightarrow> nat list \<Rightarrow> ('x icst_scheme, (nat \<times> nat) option) K" where
  "dirlookup_loop dp name [] = kret None"
| "dirlookup_loop dp name (off # offs) =
     kbind (read_dirent dp off) (\<lambda>de.
     if d_inum de \<noteq> 0 \<and> namecmp name (d_name de) = 0 then
       kbind (kget (\<lambda>s. i_dev (icache s dp))) (\<lambda>dev.
       kbind (iget dev (ucast (d_inum de))) (\<lambda>ip.
       kret (Some (ip, off))))
     else dirlookup_loop dp name offs)"

text \<open>The second component of the result is what \<open>poff\<close> receives.\<close>

definition dirlookup :: "nat \<Rightarrow> u8 list \<Rightarrow> ('x icst_scheme, (nat \<times> nat) option) K" where
  "dirlookup dp name =
     kbind (kget (\<lambda>s. icache s dp)) (\<lambda>q.
     if i_type q \<noteq> T_DIR then kpanic ''dirlookup not DIR''
     else dirlookup_loop dp name (dir_offs (i_size q)))"

fun dirlink_scan :: "nat \<Rightarrow> nat \<Rightarrow> nat list \<Rightarrow> ('x icst_scheme, nat) K" where
  "dirlink_scan dp fin [] = kret fin"
| "dirlink_scan dp fin (off # offs) =
     kbind (read_dirent dp off) (\<lambda>de.
     if d_inum de = 0 then kret off else dirlink_scan dp fin offs)"

definition dirlink :: "nat \<Rightarrow> u8 list \<Rightarrow> u32 \<Rightarrow> ('x icst_scheme, int) K" where
  "dirlink dp name inum =
     kbind (dirlookup dp name) (\<lambda>r.
     case r of
       Some (ip, _) \<Rightarrow> kthen (iput ip) (kret (-1))
     | None \<Rightarrow>
        kbind (kget (\<lambda>s. i_size (icache s dp))) (\<lambda>sz.
        kbind (dirlink_scan dp (dir_end sz) (dir_offs sz)) (\<lambda>off.
        kbind (writei dp (dirent_bytes \<lparr>d_inum = ucast inum, d_name = strncpy_l name DIRSIZ\<rparr>) (of_nat off)) (\<lambda>r.
        if r \<noteq> 16 then kpanic ''dirlink'' else kret 0))))"

section \<open>Paths\<close>

definition slash :: u8 where "slash = 0x2F"

text \<open>The result: the element, at most \<open>DIRSIZ\<close> bytes of it, and the path that follows.\<close>

definition skipelem :: "u8 list \<Rightarrow> (u8 list \<times> u8 list) option" where
  "skipelem path =
     (let path = dropWhile (\<lambda>c. c = slash) path in
      if path = [] then None
      else
      let s = takeWhile (\<lambda>c. c \<noteq> slash) path;
          path = dropWhile (\<lambda>c. c \<noteq> slash) path;
          name = (if length s \<ge> DIRSIZ then take DIRSIZ s else s) in
      Some (name, dropWhile (\<lambda>c. c = slash) path))"

lemma skipelem_Some:
  "skipelem path = Some (name, rest) \<Longrightarrow>
     dropWhile (\<lambda>c. c = slash) path \<noteq> [] \<and>
     rest = dropWhile (\<lambda>c. c = slash) (dropWhile (\<lambda>c. c \<noteq> slash) (dropWhile (\<lambda>c. c = slash) path))"
  by (simp add: skipelem_def Let_def split: if_splits)

lemma skipelem_shorter:
  assumes "skipelem path = Some (name, rest)"
  shows "length rest < length path"
proof -
  obtain c p where p: "dropWhile (\<lambda>c. c = slash) path = c # p"
    using skipelem_Some [OF assms] by (cases "dropWhile (\<lambda>c. c = slash) path") simp_all
  have c: "c \<noteq> slash" using hd_dropWhile [of "\<lambda>c. c = slash" path] p by simp
  have "rest = dropWhile (\<lambda>c. c = slash) (dropWhile (\<lambda>c. c \<noteq> slash) p)"
    using skipelem_Some [OF assms] p c by simp
  then have "length rest \<le> length p"
    using length_dropWhile_le [of "\<lambda>c. c = slash" "dropWhile (\<lambda>c. c \<noteq> slash) p"]
      length_dropWhile_le [of "\<lambda>c. c \<noteq> slash" p] by simp
  moreover have "length (c # p) \<le> length path" unfolding p [symmetric] by (rule length_dropWhile_le)
  ultimately show ?thesis by simp
qed

function namex_loop :: "nat \<Rightarrow> u8 list \<Rightarrow> bool \<Rightarrow> u8 list \<Rightarrow> ('x icst_scheme, (nat \<times> u8 list) option) K" where
  "namex_loop ip path nameiparent name =
     (case skipelem path of
        None \<Rightarrow> if nameiparent then kthen (iput ip) (kret None) else kret (Some (ip, name))
      | Some (name, rest) \<Rightarrow>
          kthen (ilock ip)
          (kbind (kget (\<lambda>s. i_type (icache s ip))) (\<lambda>t.
          if t \<noteq> T_DIR then kthen (iunlockput ip) (kret None)
          else if nameiparent \<and> rest = [] then kthen (iunlock ip) (kret (Some (ip, name)))
          else
          kbind (dirlookup ip name) (\<lambda>r.
          case r of
            None \<Rightarrow> kthen (iunlockput ip) (kret None)
          | Some (next, _) \<Rightarrow> kthen (iunlockput ip) (namex_loop next rest nameiparent name)))))"
  by pat_completeness auto
termination
  by (relation "measure (\<lambda>(ip, path, par, name). length path)") (auto simp: skipelem_shorter)

declare namex_loop.simps [simp del]

definition namex :: "u8 list \<Rightarrow> bool \<Rightarrow> ('x icst_scheme, (nat \<times> u8 list) option) K" where
  "namex path nameiparent =
     kbind (if path \<noteq> [] \<and> hd path = slash then iget ROOTDEV ROOTINO
            else with_cur (\<lambda>p. kbind (kget (\<lambda>s. p_cwd (ptable s p))) (\<lambda>cwd.
                   case cwd of None \<Rightarrow> kfail Wild | Some ip \<Rightarrow> idup ip))) (\<lambda>ip.
     namex_loop ip path nameiparent [])"

definition namei :: "u8 list \<Rightarrow> ('x icst_scheme, nat option) K" where
  "namei path = kbind (namex path False) (\<lambda>r. kret (map_option fst r))"

definition nameiparent :: "u8 list \<Rightarrow> ('x icst_scheme, (nat \<times> u8 list) option) K" where
  "nameiparent path = namex path True"

end
