(* ===== verification/Xv6_File.thy ===== *)
theory Xv6_File
  imports Xv6_Fs
begin

text \<open>
  Open files (\<open>file.c\<close>, \<open>file.h\<close>) and pipes (\<open>pipe.c\<close>).  A file is its index in \<open>ftable.file\<close>.  A pipe
  is named by the address of the page that \<open>kalloc\<close> gave for it; its contents are kept in the field
  \<open>pipes\<close> rather than in the bytes of that page.  Buffers of the caller are user addresses, read and
  written through the current page table.

  The functions that may sleep in the middle end in the fault \<open>Sleeps\<close>; the definitions named
  \<open>_resume\<close> are the rest of the function from the wakeup on.
\<close>

section \<open>State\<close>

definition PIPESIZE :: u32 where "PIPESIZE = 512"

datatype fdtype = FD_NONE | FD_PIPE | FD_INODE

record filest =
  f_type :: fdtype
  f_ref :: int
  f_readable :: bool
  f_writable :: bool
  f_pipe :: nat
  f_ip :: nat
  f_off :: u32

record pipe =
  pi_data :: "nat \<Rightarrow> u8"
  pi_nread :: u32
  pi_nwrite :: u32
  pi_readopen :: bool
  pi_writeopen :: bool

record ftst = icst +
  ftable :: "nat \<Rightarrow> filest"
  pipes :: "nat \<Rightarrow> pipe"

definition upd_file :: "nat \<Rightarrow> (filest \<Rightarrow> filest) \<Rightarrow> 'x ftst_scheme \<Rightarrow> 'x ftst_scheme" where
  "upd_file f g s = s\<lparr>ftable := (ftable s)(f := g (ftable s f))\<rparr>"

definition upd_pipe :: "nat \<Rightarrow> (pipe \<Rightarrow> pipe) \<Rightarrow> 'x ftst_scheme \<Rightarrow> 'x ftst_scheme" where
  "upd_pipe p g s = s\<lparr>pipes := (pipes s)(p := g (pipes s p))\<rparr>"

section \<open>Pipes\<close>

definition pipe_ix :: "u32 \<Rightarrow> nat" where
  "pipe_ix i = unat (i mod PIPESIZE)"

definition pipeclose_body :: "nat \<Rightarrow> bool \<Rightarrow> ('x ftst_scheme, bool) K" where
  "pipeclose_body p writable =
     kthen (if writable then
              kthen (kmod (upd_pipe p (\<lambda>q. q\<lparr>pi_writeopen := False\<rparr>))) (wakeup (Ch_nread p))
            else
              kthen (kmod (upd_pipe p (\<lambda>q. q\<lparr>pi_readopen := False\<rparr>))) (wakeup (Ch_nwrite p)))
     (kget (\<lambda>s. \<not> pi_readopen (pipes s p) \<and> \<not> pi_writeopen (pipes s p)))"

definition pipeclose :: "nat \<Rightarrow> bool \<Rightarrow> ('x ftst_scheme, unit) K" where
  "pipeclose p writable =
     kbind (with_lock (L_pipe p) (pipeclose_body p writable)) (\<lambda>fin.
     kwhen fin (kfree (of_nat p)))"

definition cur_killed :: "('x ptst_scheme, bool) K" where
  "cur_killed = with_cur (\<lambda>p. kget (\<lambda>s. p_killed (ptable s p)))"

text \<open>The loop of \<open>pipewrite\<close> over the bytes still to write; \<open>n\<close> is the total.\<close>

fun pipewrite_loop :: "nat \<Rightarrow> u8 list \<Rightarrow> nat \<Rightarrow> ('x ftst_scheme, int) K" where
  "pipewrite_loop p [] n = kthen (wakeup (Ch_nread p)) (kthen (release (L_pipe p)) (kret (int n)))"
| "pipewrite_loop p (b # bs) n =
     kbind (kget (\<lambda>s. pipes s p)) (\<lambda>q.
     if pi_nwrite q = pi_nread q + PIPESIZE then
       kbind cur_killed (\<lambda>killed.
       if \<not> pi_readopen q \<or> killed then kthen (release (L_pipe p)) (kret (-1))
       else kthen (wakeup (Ch_nread p)) (sleep (Ch_nwrite p) (L_pipe p)))
     else
     kthen (kmod (upd_pipe p (\<lambda>q. q\<lparr>pi_data := (pi_data q)(pipe_ix (pi_nwrite q) := b),
                                    pi_nwrite := pi_nwrite q + 1\<rparr>)))
     (pipewrite_loop p bs n))"

definition pipewrite :: "nat \<Rightarrow> u8 list \<Rightarrow> ('x ftst_scheme, int) K" where
  "pipewrite p addr = kthen (acquire (L_pipe p)) (pipewrite_loop p addr (length addr))"

definition pipewrite_resume :: "nat \<Rightarrow> u8 list \<Rightarrow> nat \<Rightarrow> ('x ftst_scheme, int) K" where
  "pipewrite_resume p rest n = kthen (sleep_resume (L_pipe p)) (pipewrite_loop p rest n)"

fun piperead_copy :: "nat \<Rightarrow> nat \<Rightarrow> ('x ftst_scheme, u8 list) K" where
  "piperead_copy p 0 = kret []"
| "piperead_copy p (Suc n) =
     kbind (kget (\<lambda>s. pipes s p)) (\<lambda>q.
     if pi_nread q = pi_nwrite q then kret []
     else
     kthen (kmod (upd_pipe p (\<lambda>q. q\<lparr>pi_nread := pi_nread q + 1\<rparr>)))
     (kbind (piperead_copy p n) (\<lambda>bs.
     kret (pi_data q (pipe_ix (pi_nread q)) # bs))))"

definition piperead_body :: "nat \<Rightarrow> int \<Rightarrow> ('x ftst_scheme, int \<times> u8 list) K" where
  "piperead_body p n =
     kbind (kget (\<lambda>s. pi_nread (pipes s p) = pi_nwrite (pipes s p) \<and> pi_writeopen (pipes s p))) (\<lambda>empty.
     if empty then
       kbind cur_killed (\<lambda>killed.
       if killed then kthen (release (L_pipe p)) (kret (-1, []))
       else sleep (Ch_nread p) (L_pipe p))
     else
     kbind (piperead_copy p (nat n)) (\<lambda>bs.
     kthen (wakeup (Ch_nwrite p))
     (kthen (release (L_pipe p))
     (kret (int (length bs), bs)))))"

definition piperead :: "nat \<Rightarrow> int \<Rightarrow> ('x ftst_scheme, int \<times> u8 list) K" where
  "piperead p n = kthen (acquire (L_pipe p)) (piperead_body p n)"

definition piperead_resume :: "nat \<Rightarrow> int \<Rightarrow> ('x ftst_scheme, int \<times> u8 list) K" where
  "piperead_resume p n = kthen (sleep_resume (L_pipe p)) (piperead_body p n)"

section \<open>Files\<close>

definition fileinit :: "('x ftst_scheme, unit) K" where
  "fileinit = initlock L_ftable"

definition filealloc_body :: "('x ftst_scheme, nat option) K" where
  "filealloc_body =
     kbind (kget (\<lambda>s. find (\<lambda>f. f_ref (ftable s f) = 0) [0..<NFILE])) (\<lambda>r.
     case r of
       None \<Rightarrow> kret None
     | Some f \<Rightarrow> kthen (kmod (upd_file f (\<lambda>q. q\<lparr>f_ref := 1\<rparr>))) (kret (Some f)))"

definition filealloc :: "('x ftst_scheme, nat option) K" where
  "filealloc = with_lock L_ftable filealloc_body"

definition filedup_body :: "nat \<Rightarrow> ('x ftst_scheme, nat) K" where
  "filedup_body f =
     kbind (kget (\<lambda>s. f_ref (ftable s f))) (\<lambda>ref.
     if ref < 1 then kpanic ''filedup''
     else kthen (kmod (upd_file f (\<lambda>q. q\<lparr>f_ref := f_ref q + 1\<rparr>))) (kret f))"

definition filedup :: "nat \<Rightarrow> ('x ftst_scheme, nat) K" where
  "filedup f = with_lock L_ftable (filedup_body f)"

text \<open>The part under the lock; the result is the copy \<open>ff\<close> when the last reference went.\<close>

definition fileclose_body :: "nat \<Rightarrow> ('x ftst_scheme, filest option) K" where
  "fileclose_body f =
     kbind (kget (\<lambda>s. f_ref (ftable s f))) (\<lambda>ref.
     if ref < 1 then kpanic ''fileclose''
     else
     kthen (kmod (upd_file f (\<lambda>q. q\<lparr>f_ref := f_ref q - 1\<rparr>)))
     (kbind (kget (\<lambda>s. ftable s f)) (\<lambda>ff.
     if f_ref ff > 0 then kret None
     else kthen (kmod (upd_file f (\<lambda>q. q\<lparr>f_ref := 0, f_type := FD_NONE\<rparr>))) (kret (Some ff)))))"

definition fileclose :: "nat \<Rightarrow> ('x ftst_scheme, unit) K" where
  "fileclose f =
     kbind (with_lock L_ftable (fileclose_body f)) (\<lambda>r.
     case r of
       None \<Rightarrow> kret ()
     | Some ff \<Rightarrow>
        (case f_type ff of
           FD_PIPE \<Rightarrow> pipeclose (f_pipe ff) (f_writable ff)
         | FD_INODE \<Rightarrow> kthen begin_op (kthen (iput (f_ip ff)) end_op)
         | FD_NONE \<Rightarrow> kret ()))"

text \<open>\<open>filestat\<close> returns what \<open>st\<close> receives, or nothing for -1.\<close>

definition filestat :: "nat \<Rightarrow> ('x ftst_scheme, stat option) K" where
  "filestat f =
     kbind (kget (\<lambda>s. ftable s f)) (\<lambda>q.
     if f_type q = FD_INODE then
       kthen (ilock (f_ip q))
       (kbind (stati (f_ip q)) (\<lambda>st.
       kthen (iunlock (f_ip q))
       (kret (Some st))))
     else kret None)"

definition fileread :: "nat \<Rightarrow> u32 \<Rightarrow> int \<Rightarrow> ('x ftst_scheme, int) K" where
  "fileread f addr n =
     kbind (kget (\<lambda>s. ftable s f)) (\<lambda>q.
     if \<not> f_readable q then kret (-1)
     else case f_type q of
       FD_PIPE \<Rightarrow>
         kbind (piperead (f_pipe q) n) (\<lambda>(r, bs). kthen (user_put addr bs) (kret r))
     | FD_INODE \<Rightarrow>
         kthen (ilock (f_ip q))
         (kbind (kget (\<lambda>s. f_off (ftable s f))) (\<lambda>off.
         kbind (readi (f_ip q) off (of_int n)) (\<lambda>(r, bs).
         kthen (user_put addr bs)
         (kthen (kwhen (r > 0) (kmod (upd_file f (\<lambda>q. q\<lparr>f_off := f_off q + of_int r\<rparr>))))
         (kthen (iunlock (f_ip q))
         (kret r))))))
     | FD_NONE \<Rightarrow> kpanic ''fileread'')"

definition filewrite_max :: nat where
  "filewrite_max = ((LOGSIZE - 1 - 1 - 2) div 2) * 512"

lemma filewrite_max_pos: "0 < filewrite_max"
  by (simp add: filewrite_max_def param_defs)

definition filewrite_chunk :: "nat \<Rightarrow> u32 \<Rightarrow> nat \<Rightarrow> ('x ftst_scheme, int) K" where
  "filewrite_chunk f addr n1 =
     kthen begin_op
     (kbind (kget (\<lambda>s. f_ip (ftable s f))) (\<lambda>ip.
     kthen (ilock ip)
     (kbind (user_get addr n1) (\<lambda>src.
     kbind (kget (\<lambda>s. f_off (ftable s f))) (\<lambda>off.
     kbind (writei ip src off) (\<lambda>r.
     kthen (kwhen (r > 0) (kmod (upd_file f (\<lambda>q. q\<lparr>f_off := f_off q + of_int r\<rparr>))))
     (kthen (iunlock ip)
     (kthen end_op
     (kret r)))))))))"

text \<open>The loop over the chunks; \<open>left\<close> is \<open>n - i\<close> and the result tells whether \<open>i\<close> reached \<open>n\<close>.\<close>

function filewrite_loop :: "nat \<Rightarrow> u32 \<Rightarrow> nat \<Rightarrow> ('x ftst_scheme, bool) K" where
  "filewrite_loop f addr left =
     (if left = 0 then kret True
      else
      let n1 = min left filewrite_max in
      kbind (filewrite_chunk f addr n1) (\<lambda>r.
      if r < 0 then kret False
      else if r \<noteq> int n1 then kpanic ''short filewrite''
      else filewrite_loop f (addr + of_nat n1) (left - n1)))"
  by pat_completeness auto
termination
  by (relation "measure (\<lambda>(f, addr, left). left)") (auto simp: filewrite_max_pos)

declare filewrite_loop.simps [simp del]

definition filewrite :: "nat \<Rightarrow> u32 \<Rightarrow> int \<Rightarrow> ('x ftst_scheme, int) K" where
  "filewrite f addr n =
     kbind (kget (\<lambda>s. ftable s f)) (\<lambda>q.
     if \<not> f_writable q then kret (-1)
     else case f_type q of
       FD_PIPE \<Rightarrow> kbind (user_get addr (nat n)) (\<lambda>src. pipewrite (f_pipe q) src)
     | FD_INODE \<Rightarrow>
         kbind (filewrite_loop f addr (nat n)) (\<lambda>all. kret (if all \<and> n \<ge> 0 then n else -1))
     | FD_NONE \<Rightarrow> kpanic ''filewrite'')"

text \<open>\<open>pipealloc\<close>; the label \<open>bad\<close> is reached with what has been allocated so far.\<close>

definition close_opt :: "nat option \<Rightarrow> ('x ftst_scheme, unit) K" where
  "close_opt r = (case r of None \<Rightarrow> kret () | Some f \<Rightarrow> fileclose f)"

definition pipealloc_bad :: "nat option \<Rightarrow> nat option \<Rightarrow> ('x ftst_scheme, (nat \<times> nat) option) K" where
  "pipealloc_bad f0 f1 = kthen (close_opt f0) (kthen (close_opt f1) (kret None))"

definition pipealloc :: "('x ftst_scheme, (nat \<times> nat) option) K" where
  "pipealloc =
     kbind filealloc (\<lambda>r0.
     case r0 of None \<Rightarrow> pipealloc_bad None None
     | Some f0 \<Rightarrow>
     kbind filealloc (\<lambda>r1.
     case r1 of None \<Rightarrow> pipealloc_bad (Some f0) None
     | Some f1 \<Rightarrow>
     kbind kalloc (\<lambda>a.
     if a = 0 then pipealloc_bad (Some f0) (Some f1)
     else
     let p = unat a in
     kthen (kmod (upd_pipe p (\<lambda>q. q\<lparr>pi_readopen := True, pi_writeopen := True, pi_nwrite := 0, pi_nread := 0\<rparr>)))
     (kthen (initlock (L_pipe p))
     (kthen (kmod (upd_file f0 (\<lambda>q. q\<lparr>f_type := FD_PIPE, f_readable := True, f_writable := False, f_pipe := p\<rparr>)))
     (kthen (kmod (upd_file f1 (\<lambda>q. q\<lparr>f_type := FD_PIPE, f_readable := False, f_writable := True, f_pipe := p\<rparr>)))
     (kret (Some (f0, f1)))))))))"

section \<open>Pipes are bounded queues\<close>

interpretation pring: ring_buffer 512
  by unfold_locales (simp_all add: dvd_def)

lemma pipe_ix_ring: "pipe_ix = ring_ix 512"
  by (simp add: pipe_ix_def ring_ix_def PIPESIZE_def fun_eq_iff)

text \<open>The bytes in a pipe, oldest first; the two counters run freely and wrap around.\<close>

definition pipe_holds :: "u8 list \<Rightarrow> pipe \<Rightarrow> bool" where
  "pipe_holds xs q =
     (length xs \<le> 512 \<and> pi_nwrite q = pi_nread q + of_nat (length xs) \<and>
      ringbuf 512 (pi_data q) (pi_nread q) (length xs) = xs)"

definition pipe_push :: "u8 \<Rightarrow> pipe \<Rightarrow> pipe" where
  "pipe_push b q = q\<lparr>pi_data := (pi_data q)(pipe_ix (pi_nwrite q) := b), pi_nwrite := pi_nwrite q + 1\<rparr>"

lemma pipe_full: "pipe_holds xs q \<Longrightarrow> pi_nwrite q = pi_nread q + PIPESIZE \<longleftrightarrow> length xs = 512"
  using pring.idx_eq [of "length xs" 512 "pi_nread q"] by (simp add: pipe_holds_def PIPESIZE_def)

lemma pipe_empty: "pipe_holds xs q \<Longrightarrow> pi_nread q = pi_nwrite q \<longleftrightarrow> xs = []"
  using pring.idx_eq [of 0 "length xs" "pi_nread q"] by (simp add: pipe_holds_def)

lemma pipe_holds_push: "pipe_holds xs q \<Longrightarrow> length xs < 512 \<Longrightarrow> pipe_holds (xs @ [b]) (pipe_push b q)"
  using pring.ring_push [of "length xs" "pi_data q" "pi_nread q" b]
  by (simp add: pipe_holds_def pipe_push_def pipe_ix_ring add.assoc)

lemma pipe_holds_pop:
  assumes "pipe_holds (x # xs) q"
  shows "pi_data q (pipe_ix (pi_nread q)) = x" and "pipe_holds xs (q\<lparr>pi_nread := pi_nread q + 1\<rparr>)"
  using assms pring.ring_pop [of "pi_data q" "pi_nread q" "length xs"]
  by (simp_all add: pipe_holds_def pipe_ix_ring add.assoc)

lemma upd_pipe_simps [simp]:
  "pipes (upd_pipe p f s) p = f (pipes s p)" "curproc (upd_pipe p f s) = curproc s" "ptable (upd_pipe p f s) = ptable s"
  "locks (upd_pipe p f s) = locks s" "cpus (upd_pipe p f s) = cpus s" "me (upd_pipe p f s) = me s"
  by (simp_all add: upd_pipe_def curproc_def)

lemma pipewrite_stores:
  assumes "pipe_holds xs (pipes s p)" and "length xs + length bs \<le> 512"
  shows "pipewrite_loop p (bs @ cs) n s = pipewrite_loop p cs n (upd_pipe p (fold pipe_push bs) s) \<and>
    pipe_holds (xs @ bs) (fold pipe_push bs (pipes s p))"
  using assms
proof (induction bs arbitrary: xs s)
  case Nil
  then show ?case by (simp add: upd_pipe_def id_def)
next
  case (Cons b bs)
  let ?s = "upd_pipe p (pipe_push b) s"
  have h: "pipe_holds (xs @ [b]) (pipes ?s p)"
    using pipe_holds_push [OF Cons.prems(1)] Cons.prems(2) by simp
  have "\<not> pi_nwrite (pipes s p) = pi_nread (pipes s p) + PIPESIZE"
    using pipe_full [OF Cons.prems(1)] Cons.prems(2) by simp
  then have "pipewrite_loop p (b # bs @ cs) n s = pipewrite_loop p (bs @ cs) n ?s"
    by (simp add: pipe_push_def [abs_def])
  moreover have "upd_pipe p (fold pipe_push bs) ?s = upd_pipe p (fold pipe_push (b # bs)) s"
    by (simp add: upd_pipe_def)
  ultimately show ?case using Cons.IH [OF h] Cons.prems(2) by (simp add: o_def)
qed

lemma piperead_copies:
  assumes "pipe_holds xs (pipes s p)"
  shows "\<exists>g. piperead_copy p n s = (Val (take n xs), upd_pipe p g s) \<and> pipe_holds (drop n xs) (g (pipes s p))"
  using assms
proof (induction n arbitrary: xs s)
  case 0
  then show ?case by (intro exI [of _ id]) (simp add: kret_def upd_pipe_def)
next
  case (Suc n)
  show ?case
  proof (cases xs)
    case Nil
    then have "pi_nread (pipes s p) = pi_nwrite (pipes s p)" using pipe_empty [OF Suc.prems] by simp
    then show ?thesis using Nil Suc.prems by (intro exI [of _ id]) (simp add: kret_def upd_pipe_def)
  next
    case (Cons x ys)
    let ?f = "\<lambda>q. q\<lparr>pi_nread := pi_nread q + 1\<rparr>"
    let ?s = "upd_pipe p ?f s"
    note pop = pipe_holds_pop [OF Suc.prems [unfolded Cons]]
    have ne: "pi_nread (pipes s p) \<noteq> pi_nwrite (pipes s p)" using pipe_empty [OF Suc.prems] Cons by simp
    have "pipe_holds ys (pipes ?s p)" using pop(2) by simp
    from Suc.IH [OF this] obtain g where g: "piperead_copy p n ?s = (Val (take n ys), upd_pipe p g ?s)"
      "pipe_holds (drop n ys) (g (pipes ?s p))" by blast
    have "piperead_copy p (Suc n) s = (Val (x # take n ys), upd_pipe p g ?s)"
      using ne g(1) pop(1) by (simp add: kbind_def kmod_def kget_def kret_def)
    moreover have "upd_pipe p g ?s = upd_pipe p (g \<circ> ?f) s" by (simp add: upd_pipe_def)
    ultimately show ?thesis using g(2) Cons by (intro exI [of _ "g \<circ> ?f"]) (simp add: o_def)
  qed
qed

lemma grab_map_procs: "map_procs A g (grab lk s) = grab lk (map_procs A g s)"
  by (simp add: grab_def map_procs_def cong: if_cong)

lemma grab_upd_pipe:
  "upd_pipe p f (grab lk s) = grab lk (upd_pipe p f s)"
  "pipes (grab lk s) = pipes s" "pipes (map_procs A g s) = pipes s"
  by (simp_all add: upd_pipe_def grab_def map_procs_def cong: if_cong)

lemma quiet_pipe [simp]: "quiet (upd_pipe p f s) = quiet s"
  by (simp add: quiet_def can_take_def)

lemma wakeup_grab:
  assumes "quiet s" and "lk \<noteq> L_ptable"
  shows "wakeup ch (grab lk s) = (Val (), grab lk (map_procs {0..<NPROC} (woken ch) s))"
proof -
  have "can_take L_ptable (grab lk s)" using can_take_grab [OF quiet_take quiet_take] assms by blast
  then show ?thesis by (simp add: wakeup_eq grab_map_procs)
qed

lemma release_grab: "quiet s \<Longrightarrow> release lk (grab lk s) = (Val (), s)"
  using release_ungrab [OF in_section_grab] ungrab_grab quiet_take by metis

lemma cur_killed_eq: "curproc s = Some c \<Longrightarrow> cur_killed s = (Val (p_killed (ptable s c)), s)"
  by (simp add: cur_killed_def with_cur_def kget_def)

lemma pipewrite_fits:
  assumes q: "quiet s" and h: "pipe_holds xs (pipes s p)" and "length xs + length bs \<le> 512"
  shows "\<exists>t. pipewrite p bs s = (Val (int (length bs)), t) \<and> pipe_holds (xs @ bs) (pipes t p) \<and> quiet t"
proof -
  let ?s = "upd_pipe p (fold pipe_push bs) s"
  let ?t = "map_procs {0..<NPROC} (woken (Ch_nread p)) ?s"
  have st: "pipewrite_loop p bs (length bs) (grab (L_pipe p) s) = pipewrite_loop p [] (length bs) (grab (L_pipe p) ?s)"
    and h': "pipe_holds (xs @ bs) (fold pipe_push bs (pipes s p))"
    using pipewrite_stores [of xs "grab (L_pipe p) s" p bs "[]" "length bs"] h assms(3) by (simp_all add: grab_upd_pipe)
  have "pipewrite p bs s = (Val (int (length bs)), ?t)"
    using st acquire_grab [OF quiet_take [OF q]] q
    by (simp add: pipewrite_def kbind_def wakeup_grab release_grab kret_def)
  then show ?thesis using h' q by (simp add: grab_upd_pipe)
qed

lemma pipewrite_blocks:
  assumes q: "quiet s" and h: "pipe_holds xs (pipes s p)" and big: "length xs + length bs > 512"
    and open': "pi_readopen (pipes s p)" and c: "curproc s = Some c" "\<not> p_killed (ptable s c)" "ncli (cpus s (me s)) = 0"
  shows "\<exists>t. pipewrite p bs s = (Fault (Sleeps (Ch_nwrite p)), t) \<and> pipe_holds (xs @ take (512 - length xs) bs) (pipes t p)"
proof -
  let ?k = "512 - length xs"
  let ?L = "L_pipe p"
  let ?s = "upd_pipe p (fold pipe_push (take ?k bs)) s"
  let ?t = "map_procs {0..<NPROC} (woken (Ch_nread p)) ?s"
  have len: "length xs \<le> 512" using h by (simp add: pipe_holds_def)
  have st: "pipewrite_loop p (take ?k bs @ drop ?k bs) (length bs) (grab ?L s) = pipewrite_loop p (drop ?k bs) (length bs) (grab ?L ?s)"
    and h': "pipe_holds (xs @ take ?k bs) (fold pipe_push (take ?k bs) (pipes s p))"
    using pipewrite_stores [of xs "grab ?L s" p "take ?k bs" "drop ?k bs" "length bs"] h len by (simp_all add: grab_upd_pipe)
  obtain b ds where d: "drop ?k bs = b # ds" using big len by (cases "drop ?k bs") auto
  have "length (xs @ take ?k bs) = 512" using big len by simp
  then have full: "pi_nwrite (pipes ?s p) = pi_nread (pipes ?s p) + PIPESIZE" using pipe_full [OF h'] by simp
  have ro: "pi_readopen (fold pipe_push ys q) = pi_readopen q" for ys q
    by (induction ys arbitrary: q) (simp_all add: pipe_push_def)
  have loop: "pipewrite_loop p (drop ?k bs) (length bs) (grab ?L ?s) = sleep (Ch_nwrite p) ?L (grab ?L ?t)"
    using full open' c(1,2) q
    by (simp add: d grab_upd_pipe(2) ro kbind_def kget_def cur_killed_eq wakeup_grab)
  have t: "quiet ?t" "curproc ?t = Some c" "ncli (cpus ?t (me ?t)) = 0"
    using q c by (simp, simp_all add: map_procs_def curproc_def upd_pipe_def)
  have "kthen (acquire ?L) (sleep (Ch_nwrite p) ?L) ?t = (Fault (Sleeps (Ch_nwrite p)),
      suspended c (upd_proc c (\<lambda>q. q\<lparr>p_chan := Some (Ch_nwrite p), p_state := SLEEPING\<rparr>) (grab L_ptable ?t)))"
    using quiet_take [OF t(1)] t(2,3) by (intro sleep_eq) simp_all
  then have "sleep (Ch_nwrite p) ?L (grab ?L ?t) = (Fault (Sleeps (Ch_nwrite p)),
      suspended c (upd_proc c (\<lambda>q. q\<lparr>p_chan := Some (Ch_nwrite p), p_state := SLEEPING\<rparr>) (grab L_ptable ?t)))"
    using acquire_grab [OF quiet_take [OF t(1)]] by (simp add: kbind_def)
  then have "pipewrite p bs s = (Fault (Sleeps (Ch_nwrite p)),
      suspended c (upd_proc c (\<lambda>q. q\<lparr>p_chan := Some (Ch_nwrite p), p_state := SLEEPING\<rparr>) (grab L_ptable ?t)))"
    using st loop acquire_grab [OF quiet_take [OF q]] by (simp add: pipewrite_def kbind_def)
  then show ?thesis using h' by (simp add: suspended_def upd_proc_def grab_upd_pipe)
qed

lemma piperead_takes:
  assumes q: "quiet s" and h: "pipe_holds xs (pipes s p)" and "xs \<noteq> [] \<or> \<not> pi_writeopen (pipes s p)"
  shows "\<exists>t. piperead p n s = (Val (int (min (nat n) (length xs)), take (nat n) xs), t) \<and>
    pipe_holds (drop (nat n) xs) (pipes t p) \<and> quiet t"
proof -
  let ?L = "L_pipe p"
  obtain g where g: "piperead_copy p (nat n) (grab ?L s) = (Val (take (nat n) xs), upd_pipe p g (grab ?L s))"
    "pipe_holds (drop (nat n) xs) (g (pipes s p))"
    using piperead_copies [of xs "grab ?L s" p "nat n"] h by (auto simp: grab_upd_pipe)
  let ?t = "map_procs {0..<NPROC} (woken (Ch_nwrite p)) (upd_pipe p g s)"
  have "\<not> (pi_nread (pipes s p) = pi_nwrite (pipes s p) \<and> pi_writeopen (pipes s p))"
    using pipe_empty [OF h] assms(3) by simp
  then have "piperead p n s = (Val (int (length (take (nat n) xs)), take (nat n) xs), ?t)"
    using g(1) acquire_grab [OF quiet_take [OF q]] q
    by (auto simp: piperead_def piperead_body_def kbind_def kget_def grab_upd_pipe wakeup_grab release_grab kret_def)
  then show ?thesis using g(2) q by (simp add: grab_upd_pipe min.commute)
qed

text \<open>
  C30: A pipe is a first-in first-out queue of at most 512 bytes, whatever the values of its wrapping
  counters: a write appends all its bytes or, when they do not fit, fills the pipe and sleeps; a
  read takes the oldest bytes.
\<close>

theorem pipe_is_bounded_queue:
  assumes "quiet s" and "pipe_holds xs (pipes s p)"
  shows "(length xs + length bs \<le> 512 \<longrightarrow>
      (\<exists>t. pipewrite p bs s = (Val (int (length bs)), t) \<and> pipe_holds (xs @ bs) (pipes t p)))
    \<and> (length xs + length bs > 512 \<and> pi_readopen (pipes s p) \<and> ncli (cpus s (me s)) = 0 \<and>
       (\<forall>c. curproc s = Some c \<longrightarrow> \<not> p_killed (ptable s c)) \<longrightarrow>
      (\<exists>t. pipewrite p bs s = (Fault (Sleeps (Ch_nwrite p)), t) \<and>
         pipe_holds (xs @ take (512 - length xs) bs) (pipes t p)))
    \<and> (xs \<noteq> [] \<or> \<not> pi_writeopen (pipes s p) \<longrightarrow>
      (\<exists>t. piperead p n s = (Val (int (min (nat n) (length xs)), take (nat n) xs), t) \<and>
         pipe_holds (drop (nat n) xs) (pipes t p)))"
proof -
  obtain c where c: "curproc s = Some c" using assms(1) by (auto simp: quiet_def)
  show ?thesis
    using pipewrite_fits [OF assms, of bs] pipewrite_blocks [OF assms, of bs c] piperead_takes [OF assms, of n] c by blast
qed

definition fs_ex :: icst where
  "fs_ex = consst.extend (cons_ex 0)
     \<lparr>sb = sb_of (memdisk log_ex 1), icache = (\<lambda>_. \<lparr>i_dev = 0, i_inum = 0, i_ref = 0, i_flags = 0, i_type = 0,
        i_major = 0, i_minor = 0, i_nlink = 0, i_size = 0, i_addrs = (\<lambda>_. 0)\<rparr>),
      devsw_read = (\<lambda>_. None), devsw_write = (\<lambda>_. None)\<rparr>"

definition file_ex :: "u32 \<Rightarrow> ftst" where
  "file_ex n = icst.extend fs_ex
     \<lparr>ftable = (\<lambda>_. \<lparr>f_type = FD_NONE, f_ref = 0, f_readable = False, f_writable = False, f_pipe = 0, f_ip = 0, f_off = 0\<rparr>),
      pipes = (\<lambda>_. \<lparr>pi_data = (\<lambda>_. 0), pi_nread = n, pi_nwrite = n, pi_readopen = True, pi_writeopen = True\<rparr>)\<rparr>"

lemma file_ex_simps:
  "quiet (file_ex n)" "pipe_holds [] (pipes (file_ex n) p)" "pi_readopen (pipes (file_ex n) p)"
  "ncli (cpus (file_ex n) (me (file_ex n))) = 0" "curproc (file_ex n) = Some c \<Longrightarrow> \<not> p_killed (ptable (file_ex n) c)"
proof -
  have "quiet log_ex" using log_ex_simps(1) by (simp add: cache_boot_def)
  then show "quiet (file_ex n)"
    by (simp add: quiet_def can_take_def curproc_def file_ex_def fs_ex_def cons_ex_def icst.defs consst.defs logst.defs
        log_ex_def bst.defs)
qed (simp_all add: file_ex_def fs_ex_def cons_ex_def icst.defs consst.defs logst.defs log_ex_def bst.defs boot_ex_def
    ptst.defs pt_ex_def proc0_def curproc_def pipe_holds_def ringbuf_def split: if_splits)

text \<open>The counters start one below the wrap-around, with one reader and one writer.\<close>

theorem pipe_is_bounded_queue_witness:
  "(\<exists>t. pipewrite 7 [1, 2, 3] (file_ex (-1)) = (Val 3, t) \<and> pipe_holds [1, 2, 3] (pipes t 7)) \<and>
   (\<exists>t. pipewrite 7 (replicate 600 1) (file_ex (-1)) = (Fault (Sleeps (Ch_nwrite 7)), t) \<and>
     pipe_holds (replicate 512 1) (pipes t 7))"
  using pipe_is_bounded_queue [OF file_ex_simps(1,2), where p = 7 and bs = "[1, 2, 3]" and n = "-1"]
    pipe_is_bounded_queue [OF file_ex_simps(1,2), where p = 7 and bs = "replicate 600 1" and n = "-1"]
  by (simp add: file_ex_simps)

end
