(* ===== verification/Xv6_Lifecycle.thy ===== *)
theory Xv6_Lifecycle
  imports Xv6_File Xv6_Signal
begin

text \<open>
  Creation and end of processes: \<open>userinit\<close>, \<open>fork\<close>, \<open>exit\<close> and \<open>forkret\<close> of \<open>proc.c\<close>, which need the
  file layer.  \<open>ticks\<close> of \<open>trap.c\<close> and the static variable \<open>first\<close> of \<open>forkret\<close> join the state here.
\<close>

record tkst = ftst +
  ticks :: u32
  forkret_first :: bool

text \<open>What \<open>safestrcpy\<close> leaves in a buffer of \<open>n\<close> bytes, up to the NUL.\<close>

definition safestr :: "nat \<Rightarrow> u8 list \<Rightarrow> u8 list" where
  "safestr n bs = takeWhile (\<lambda>c. c \<noteq> 0) (take (n - 1) bs)"

definition SEG_UCODE :: u16 where "SEG_UCODE = 4"
definition SEG_UDATA :: u16 where "SEG_UDATA = 5"
definition FL_IF :: u32 where "FL_IF = 0x200"

definition initcode_tf :: trapframe where
  "initcode_tf = tf0\<lparr>tf_cs := push_bit 3 SEG_UCODE OR DPL_USER, tf_ds := push_bit 3 SEG_UDATA OR DPL_USER,
     tf_es := push_bit 3 SEG_UDATA OR DPL_USER, tf_ss := push_bit 3 SEG_UDATA OR DPL_USER,
     tf_eflags := FL_IF, tf_esp := PGSIZE, tf_eip := 0\<rparr>"

text \<open>
  \<open>start\<close> and \<open>sz\<close> are the linker symbols of the embedded first program.  \<open>p\<close> is used without a test
  for null.
\<close>

definition userinit :: "u32 \<Rightarrow> u32 \<Rightarrow> ('x icst_scheme, unit) K" where
  "userinit start sz =
     kbind allocproc (\<lambda>r.
     kthen (kmod (\<lambda>s. s\<lparr>initproc := r\<rparr>))
     (case r of None \<Rightarrow> kfail (Kfault 0)
      | Some p \<Rightarrow>
        kbind setupkvm (\<lambda>pgdir.
        kthen (kmod (upd_proc p (\<lambda>q. q\<lparr>p_pgdir := pgdir\<rparr>)))
        (if pgdir = 0 then kpanic ''userinit: out of memory?''
         else
         kthen (inituvm pgdir start sz)
         (kthen (kmod (upd_proc p (\<lambda>q. q\<lparr>p_sz := PGSIZE, p_tf := initcode_tf,
            p_name := safestr 16 (map of_char ''initcode'')\<rparr>)))
         (kbind (namei [slash]) (\<lambda>ip.
         kthen (kmod (upd_proc p (\<lambda>q. q\<lparr>p_cwd := ip, p_pending := 0\<rparr>)))
         (kthen (kfor [0..<NUMSIG] (\<lambda>sig. kmod (upd_proc p (\<lambda>q. q\<lparr>p_handlers := (p_handlers q)(sig := 0)\<rparr>))))
         (set_runnable p))))))))) "

definition fork_files :: "nat \<Rightarrow> nat \<Rightarrow> ('x ftst_scheme, unit) K" where
  "fork_files p np =
     kfor [0..<NOFILE] (\<lambda>i.
       kbind (kget (\<lambda>s. p_ofile (ptable s p) i)) (\<lambda>r.
       case r of None \<Rightarrow> kret ()
       | Some f \<Rightarrow>
           kbind (filedup f) (\<lambda>f'.
           kmod (upd_proc np (\<lambda>q. q\<lparr>p_ofile := (p_ofile q)(i := Some f')\<rparr>)))))"

definition fork_cwd :: "nat \<Rightarrow> nat \<Rightarrow> ('x ftst_scheme, unit) K" where
  "fork_cwd p np =
     kbind (kget (\<lambda>s. p_cwd (ptable s p))) (\<lambda>cwd.
     case cwd of None \<Rightarrow> kfail Wild
     | Some d \<Rightarrow> kbind (idup d) (\<lambda>d'. kmod (upd_proc np (\<lambda>q. q\<lparr>p_cwd := Some d'\<rparr>))))"

definition fork_handlers :: "nat \<Rightarrow> nat \<Rightarrow> ('x ftst_scheme, unit) K" where
  "fork_handlers p np =
     kfor [0..<NUMSIG] (\<lambda>sig. kmod (\<lambda>s. upd_proc np
       (\<lambda>q. q\<lparr>p_handlers := (p_handlers q)(sig := p_handlers (ptable s p) sig)\<rparr>) s))"

definition fork :: "('x ftst_scheme, int) K" where
  "fork =
     kbind allocproc (\<lambda>r.
     case r of None \<Rightarrow> kret (-1)
     | Some np \<Rightarrow>
     with_cur (\<lambda>p.
     kbind (kget (\<lambda>s. ptable s p)) (\<lambda>q.
     kbind (copyuvm (p_pgdir q) (p_sz q)) (\<lambda>pgdir.
     kthen (kmod (upd_proc np (\<lambda>n. n\<lparr>p_pgdir := pgdir\<rparr>)))
     (if pgdir = 0 then
        kbind (kget (\<lambda>s. p_kstack (ptable s np))) (\<lambda>k.
        kthen (kfree k)
        (kthen (kmod (upd_proc np (\<lambda>n. n\<lparr>p_kstack := 0, p_state := UNUSED\<rparr>)))
        (kret (-1))))
      else
      kthen (kmod (upd_proc np (\<lambda>n. n\<lparr>p_sz := p_sz q, p_parent := Some p, p_tf := (p_tf q)\<lparr>tf_eax := 0\<rparr>\<rparr>)))
      (kthen (fork_files p np)
      (kthen (fork_cwd p np)
      (kthen (kmod (upd_proc np (\<lambda>n. n\<lparr>p_name := safestr 16 (p_name q)\<rparr>)))
      (kbind (kget (\<lambda>s. p_pid (ptable s np))) (\<lambda>pid.
      kthen (fork_handlers p np)
      (kthen (set_runnable np)
      (kret (sint pid)))))))))))))"

definition exit_files :: "nat \<Rightarrow> ('x ftst_scheme, unit) K" where
  "exit_files p =
     kfor [0..<NOFILE] (\<lambda>fd.
       kbind (kget (\<lambda>s. p_ofile (ptable s p) fd)) (\<lambda>r.
       case r of None \<Rightarrow> kret ()
       | Some f \<Rightarrow>
           kthen (fileclose f)
           (kmod (upd_proc p (\<lambda>q. q\<lparr>p_ofile := (p_ofile q)(fd := None)\<rparr>)))))"

definition exit_cwd :: "nat \<Rightarrow> ('x ftst_scheme, unit) K" where
  "exit_cwd p =
     kthen begin_op
     (kbind (kget (\<lambda>s. p_cwd (ptable s p))) (\<lambda>cwd.
     kthen (case cwd of None \<Rightarrow> kfail Wild | Some d \<Rightarrow> iput d)
     (kthen end_op
     (kmod (upd_proc p (\<lambda>q. q\<lparr>p_cwd := None\<rparr>))))))"

text \<open>\<open>wakeup1(0)\<close> wakes nobody: no process sleeps on the null channel.\<close>

definition wake_proc :: "nat option \<Rightarrow> ('x ptst_scheme, unit) K" where
  "wake_proc r = (case r of None \<Rightarrow> kret () | Some i \<Rightarrow> wakeup1 (Ch_proc i))"

definition exit_children :: "nat \<Rightarrow> ('x ptst_scheme, unit) K" where
  "exit_children p =
     kfor [0..<NPROC] (\<lambda>i.
       kbind (kget (\<lambda>s. ptable s i)) (\<lambda>q.
       kwhen (p_parent q = Some p)
        (kbind (kget initproc) (\<lambda>init.
         kthen (kmod (upd_proc i (\<lambda>q. q\<lparr>p_parent := init\<rparr>)))
         (kwhen (p_state q = ZOMBIE) (wake_proc init))))))"

definition exit :: "('x ftst_scheme, 'a) K" where
  "exit =
     with_cur (\<lambda>p.
     kbind (kget (\<lambda>s. initproc s = Some p)) (\<lambda>isinit.
     if isinit then kpanic ''init exiting''
     else
     kthen (exit_files p)
     (kthen (exit_cwd p)
     (kthen (acquire L_ptable)
     (kbind (kget (\<lambda>s. p_parent (ptable s p))) (\<lambda>parent.
     kthen (wake_proc parent)
     (kthen (exit_children p)
     exit_sched)))))))"

definition forkret :: "('x tkst_scheme, unit) K" where
  "forkret =
     kthen (release L_ptable)
     (kbind (kget forkret_first) (\<lambda>first.
     kwhen first
      (kthen (kmod (\<lambda>s. s\<lparr>forkret_first := False\<rparr>))
      (kthen (iinit ROOTDEV)
      (initlog ROOTDEV)))))"

end
