(* ===== verification/Xv6_Exec.thy ===== *)
theory Xv6_Exec
  imports Xv6_Lifecycle
begin

text \<open>
  Loading a program: \<open>exec\<close> (\<open>exec.c\<close>) with the ELF structures (\<open>elf.h\<close>) and \<open>loaduvm\<close> of \<open>vm.c\<close>.  The
  argument strings are given by their bytes, so \<open>copyout\<close> appears here in a form that takes the bytes
  its pointer refers to.
\<close>

section \<open>ELF\<close>

definition ELF_MAGIC :: u32 where "ELF_MAGIC = 0x464C457F"
definition ELF_PROG_LOAD :: u32 where "ELF_PROG_LOAD = 1"

record elfhdr =
  elf_magic :: u32
  elf_entry :: u32
  elf_phoff :: u32
  elf_phnum :: u16

definition elfhdr_of :: "u8 list \<Rightarrow> elfhdr" where
  "elfhdr_of b = \<lparr>elf_magic = word32_at b 0, elf_entry = word32_at b 24, elf_phoff = word32_at b 28,
     elf_phnum = word16_at b 44\<rparr>"

record proghdr =
  ph_type :: u32
  ph_off :: u32
  ph_vaddr :: u32
  ph_filesz :: u32
  ph_memsz :: u32

definition proghdr_of :: "u8 list \<Rightarrow> proghdr" where
  "proghdr_of b = \<lparr>ph_type = word32_at b 0, ph_off = word32_at b 4, ph_vaddr = word32_at b 8,
     ph_filesz = word32_at b 16, ph_memsz = word32_at b 20\<rparr>"

section \<open>Copying into an address space\<close>

fun put_mem :: "memory \<Rightarrow> u32 \<Rightarrow> u8 list \<Rightarrow> memory" where
  "put_mem m a [] = m"
| "put_mem m a (b # bs) = put_mem (m(a := b)) (a + 1) bs"

fun loaduvm_loop :: "nat list \<Rightarrow> u32 \<Rightarrow> u32 \<Rightarrow> nat \<Rightarrow> u32 \<Rightarrow> u32 \<Rightarrow> ('x icst_scheme, int) K" where
  "loaduvm_loop [] pgdir addr ip offset sz = kret 0"
| "loaduvm_loop (k # ks) pgdir addr ip offset sz =
     (let i = of_nat k * PGSIZE in
      kbind (walkpgdir pgdir (addr + i) False) (\<lambda>pte.
      if pte = 0 then kpanic ''loaduvm: address should exist''
      else
      kbind (kget (\<lambda>s. PTE_ADDR (load32 (mem s) pte))) (\<lambda>pa.
      let n = (if sz - i < PGSIZE then sz - i else PGSIZE) in
      kbind (readi ip (offset + i) n) (\<lambda>(r, bs).
      kthen (kmod (\<lambda>s. s\<lparr>mem := put_mem (mem s) (P2V pa) bs\<rparr>))
      (if r \<noteq> sint n then kret (-1)
       else loaduvm_loop ks pgdir addr ip offset sz)))))"

definition loaduvm :: "u32 \<Rightarrow> u32 \<Rightarrow> nat \<Rightarrow> u32 \<Rightarrow> u32 \<Rightarrow> ('x icst_scheme, int) K" where
  "loaduvm pgdir addr ip offset sz =
     (if addr mod PGSIZE \<noteq> 0 then kpanic ''loaduvm: addr must be page aligned''
      else loaduvm_loop [0..<(unat sz + 4095) div 4096] pgdir addr ip offset sz)"

text \<open>Each round copies at least one byte.\<close>

fun copyout_bytes_loop :: "nat \<Rightarrow> u32 \<Rightarrow> u32 \<Rightarrow> u8 list \<Rightarrow> ('x kmemst_scheme, int) K" where
  "copyout_bytes_loop 0 pgdir va bs = kfail Diverges"
| "copyout_bytes_loop (Suc k) pgdir va bs =
     (if bs \<noteq> [] then
        let va0 = PGROUNDDOWN va in
        kbind (uva2ka pgdir va0) (\<lambda>pa0.
        if pa0 = 0 then kret (-1)
        else
        let n = min (unat (PGSIZE - (va - va0))) (length bs) in
        kthen (kmod (\<lambda>s. s\<lparr>mem := put_mem (mem s) (pa0 + (va - va0)) (take n bs)\<rparr>))
        (copyout_bytes_loop k pgdir (va0 + PGSIZE) (drop n bs)))
      else kret 0)"

definition copyout_bytes :: "u32 \<Rightarrow> u32 \<Rightarrow> u8 list \<Rightarrow> ('x kmemst_scheme, int) K" where
  "copyout_bytes pgdir va bs = copyout_bytes_loop (length bs + 1) pgdir va bs"

section \<open>exec\<close>

text \<open>
  The loop over the program headers; the result is the size reached, or nothing for \<open>goto bad\<close>.
\<close>

fun exec_load :: "u32 list \<Rightarrow> nat \<Rightarrow> u32 \<Rightarrow> u32 \<Rightarrow> ('x icst_scheme, u32 option) K" where
  "exec_load [] ip pgdir sz = kret (Some sz)"
| "exec_load (off # offs) ip pgdir sz =
     kbind (readi ip off 32) (\<lambda>(r, bs).
     if r \<noteq> 32 then kret None
     else
     let ph = proghdr_of bs in
     if ph_type ph \<noteq> ELF_PROG_LOAD then exec_load offs ip pgdir sz
     else if ph_memsz ph < ph_filesz ph then kret None
     else if ph_vaddr ph + ph_memsz ph < ph_vaddr ph then kret None
     else
     kbind (allocuvm pgdir sz (ph_vaddr ph + ph_memsz ph)) (\<lambda>sz.
     if sz = 0 then kret None
     else if ph_vaddr ph mod PGSIZE \<noteq> 0 then kret None
     else
     kbind (loaduvm pgdir (ph_vaddr ph) ip (ph_off ph) (ph_filesz ph)) (\<lambda>r.
     if r < 0 then kret None else exec_load offs ip pgdir sz)))"

text \<open>The loop over \<open>argv\<close>; it returns the stack pointer and the pointers it stored in \<open>ustack\<close>.\<close>

fun exec_push :: "u32 \<Rightarrow> nat \<Rightarrow> u32 \<Rightarrow> u8 list list \<Rightarrow> ('x kmemst_scheme, (u32 \<times> u32 list) option) K" where
  "exec_push pgdir argc sp [] = kret (Some (sp, []))"
| "exec_push pgdir argc sp (arg # argv) =
     (if argc \<ge> MAXARG then kret None
      else
      let sp = (sp - (of_nat (length arg) + 1)) AND NOT 3 in
      kbind (copyout_bytes pgdir sp (arg @ [0])) (\<lambda>r.
      if r < 0 then kret None
      else
      kbind (exec_push pgdir (argc + 1) sp argv) (\<lambda>rest.
      kret (case rest of None \<Rightarrow> None | Some (sp', ps) \<Rightarrow> Some (sp', sp # ps)))))"

definition ustack :: "u32 \<Rightarrow> u32 list \<Rightarrow> u32 list" where
  "ustack sp ps = [0xFFFFFFFF, of_nat (length ps), sp - (of_nat (length ps) + 1) * 4] @ ps @ [0]"

definition last_elem :: "u8 list \<Rightarrow> u8 list" where
  "last_elem path = rev (takeWhile (\<lambda>c. c \<noteq> slash) (rev path))"

text \<open>The label \<open>bad\<close> before and after the inode has been given back.\<close>

definition exec_bad :: "u32 \<Rightarrow> ('x kmemst_scheme, int) K" where
  "exec_bad pgdir = kthen (kwhen (pgdir \<noteq> 0) (freevm pgdir)) (kret (-1))"

definition exec_bad_ip :: "u32 \<Rightarrow> nat \<Rightarrow> ('x icst_scheme, int) K" where
  "exec_bad_ip pgdir ip =
     kthen (kwhen (pgdir \<noteq> 0) (freevm pgdir)) (kthen (iunlockput ip) (kthen end_op (kret (-1))))"

definition exec_commit :: "u8 list \<Rightarrow> u32 \<Rightarrow> u32 \<Rightarrow> u32 \<Rightarrow> u32 \<Rightarrow> ('x ptst_scheme, int) K" where
  "exec_commit path pgdir sz entry sp =
     with_cur (\<lambda>p.
     kthen (kmod (upd_proc p (\<lambda>q. q\<lparr>p_name := safestr 16 (last_elem path)\<rparr>)))
     (kbind (kget (\<lambda>s. p_pgdir (ptable s p))) (\<lambda>oldpgdir.
     kthen (kmod (upd_proc p (\<lambda>q. q\<lparr>p_pgdir := pgdir, p_sz := sz,
        p_tf := (p_tf q)\<lparr>tf_eip := entry, tf_esp := sp\<rparr>\<rparr>)))
     (kthen (switchuvm_proc p)
     (kthen (freevm oldpgdir)
     (kret 0))))))"

definition exec_stack :: "u8 list \<Rightarrow> u8 list list \<Rightarrow> u32 \<Rightarrow> u32 \<Rightarrow> u32 \<Rightarrow> ('x ptst_scheme, int) K" where
  "exec_stack path argv pgdir sz entry =
     (let sz = PGROUNDUP sz in
      kbind (allocuvm pgdir sz (sz + 2 * PGSIZE)) (\<lambda>sz.
      if sz = 0 then exec_bad pgdir
      else
      kthen (clearpteu pgdir (sz - 2 * PGSIZE))
      (kbind (exec_push pgdir 0 sz argv) (\<lambda>r.
      case r of None \<Rightarrow> exec_bad pgdir
      | Some (sp, ps) \<Rightarrow>
          let st = ustack sp ps;
              sp = sp - (3 + of_nat (length ps) + 1) * 4 in
          kbind (copyout_bytes pgdir sp (concat (map bytes32 st))) (\<lambda>r.
          if r < 0 then exec_bad pgdir
          else exec_commit path pgdir sz entry sp)))))"

definition exec :: "u8 list \<Rightarrow> u8 list list \<Rightarrow> ('x icst_scheme, int) K" where
  "exec path argv =
     kthen begin_op
     (kbind (namei path) (\<lambda>r.
     case r of None \<Rightarrow> kthen end_op (kret (-1))
     | Some ip \<Rightarrow>
     kthen (ilock ip)
     (kbind (readi ip 0 52) (\<lambda>(r, bs).
     if r \<noteq> 52 then exec_bad_ip 0 ip
     else
     let elf = elfhdr_of bs in
     if elf_magic elf \<noteq> ELF_MAGIC then exec_bad_ip 0 ip
     else
     kbind setupkvm (\<lambda>pgdir.
     if pgdir = 0 then exec_bad_ip 0 ip
     else
     kbind (exec_load (map (\<lambda>i. elf_phoff elf + 32 * of_nat i) [0..<unat (elf_phnum elf)]) ip pgdir 0) (\<lambda>r.
     case r of None \<Rightarrow> exec_bad_ip pgdir ip
     | Some sz \<Rightarrow>
         kthen (iunlockput ip)
         (kthen end_op
         (exec_stack path argv pgdir sz (elf_entry elf)))))))))"

end
