(* ===== verification/Xv6_Sysfile.thy ===== *)
theory Xv6_Sysfile
  imports Xv6_Exec
begin

text \<open>
  The fetching of system call arguments (first half of \<open>syscall.c\<close>) and the file system calls
  (\<open>sysfile.c\<close>).  A fetch gives nothing where the C function returns -1.  A string argument is given
  by its bytes.
\<close>

section \<open>Arguments\<close>

definition fetchint :: "u32 \<Rightarrow> ('x ptst_scheme, u32 option) K" where
  "fetchint addr =
     with_cur (\<lambda>p. kbind (kget (\<lambda>s. p_sz (ptable s p))) (\<lambda>sz.
     if addr \<ge> sz \<or> addr + 4 > sz then kret None
     else kbind (user_get addr 4) (\<lambda>bs. kret (Some (word32_at bs 0)))))"

text \<open>The loop of \<open>fetchstr\<close> with \<open>n\<close> bytes left before \<open>ep\<close>.\<close>

fun fetchstr_loop :: "nat \<Rightarrow> u32 \<Rightarrow> ('x ptst_scheme, u8 list option) K" where
  "fetchstr_loop 0 a = kret None"
| "fetchstr_loop (Suc n) a =
     kbind (user_get a 1) (\<lambda>bs.
     if hd bs = 0 then kret (Some [])
     else kbind (fetchstr_loop n (a + 1)) (\<lambda>r. kret (map_option ((#) (hd bs)) r)))"

definition fetchstr :: "u32 \<Rightarrow> ('x ptst_scheme, u8 list option) K" where
  "fetchstr addr =
     with_cur (\<lambda>p. kbind (kget (\<lambda>s. p_sz (ptable s p))) (\<lambda>sz.
     if addr \<ge> sz then kret None
     else fetchstr_loop (unat sz - unat addr) addr))"

definition argint :: "nat \<Rightarrow> ('x ptst_scheme, u32 option) K" where
  "argint n =
     with_cur (\<lambda>p. kbind (kget (\<lambda>s. tf_esp (p_tf (ptable s p)))) (\<lambda>esp.
     fetchint (esp + 4 + 4 * of_nat n)))"

definition argptr :: "nat \<Rightarrow> int \<Rightarrow> ('x ptst_scheme, u32 option) K" where
  "argptr n size' =
     kbind (argint n) (\<lambda>r.
     case r of None \<Rightarrow> kret None
     | Some i \<Rightarrow>
        with_cur (\<lambda>p. kbind (kget (\<lambda>s. p_sz (ptable s p))) (\<lambda>sz.
        kret (if size' < 0 \<or> i \<ge> sz \<or> i + of_int size' > sz then None else Some i))))"

definition argstr :: "nat \<Rightarrow> ('x ptst_scheme, u8 list option) K" where
  "argstr n =
     kbind (argint n) (\<lambda>r. case r of None \<Rightarrow> kret None | Some addr \<Rightarrow> fetchstr addr)"

text \<open>\<open>if (fetch < 0) return -1;\<close>\<close>

definition with_arg :: "('s, 'a option) K \<Rightarrow> ('a \<Rightarrow> ('s, int) K) \<Rightarrow> ('s, int) K" where
  "with_arg m f = kbind m (\<lambda>r. case r of None \<Rightarrow> kret (-1) | Some x \<Rightarrow> f x)"

section \<open>File descriptors\<close>

definition argfd :: "nat \<Rightarrow> ('x ptst_scheme, (nat \<times> nat) option) K" where
  "argfd n =
     kbind (argint n) (\<lambda>r.
     case r of None \<Rightarrow> kret None
     | Some fd \<Rightarrow>
        if sint fd < 0 \<or> sint fd \<ge> int NOFILE then kret None
        else
        with_cur (\<lambda>p. kbind (kget (\<lambda>s. p_ofile (ptable s p) (nat (sint fd)))) (\<lambda>f.
        kret (map_option (\<lambda>f. (nat (sint fd), f)) f))))"

definition fdalloc :: "nat \<Rightarrow> ('x ptst_scheme, int) K" where
  "fdalloc f =
     with_cur (\<lambda>p. kbind (kget (\<lambda>s. find (\<lambda>fd. p_ofile (ptable s p) fd = None) [0..<NOFILE])) (\<lambda>r.
     case r of
       None \<Rightarrow> kret (-1)
     | Some fd \<Rightarrow>
         kthen (kmod (upd_proc p (\<lambda>q. q\<lparr>p_ofile := (p_ofile q)(fd := Some f)\<rparr>)))
         (kret (int fd))))"

definition clear_fd :: "nat \<Rightarrow> ('x ptst_scheme, unit) K" where
  "clear_fd fd = with_cur (\<lambda>p. kmod (upd_proc p (\<lambda>q. q\<lparr>p_ofile := (p_ofile q)(fd := None)\<rparr>)))"

definition sys_dup :: "('x ftst_scheme, int) K" where
  "sys_dup =
     with_arg (argfd 0) (\<lambda>(_, f).
     kbind (fdalloc f) (\<lambda>fd.
     if fd < 0 then kret (-1)
     else kthen (filedup f) (kret fd)))"

definition sys_read :: "('x ftst_scheme, int) K" where
  "sys_read =
     with_arg (argfd 0) (\<lambda>(_, f).
     with_arg (argint 2) (\<lambda>n.
     with_arg (argptr 1 (sint n)) (\<lambda>p.
     fileread f p (sint n))))"

definition sys_write :: "('x ftst_scheme, int) K" where
  "sys_write =
     with_arg (argfd 0) (\<lambda>(_, f).
     with_arg (argint 2) (\<lambda>n.
     with_arg (argptr 1 (sint n)) (\<lambda>p.
     filewrite f p (sint n))))"

definition sys_close :: "('x ftst_scheme, int) K" where
  "sys_close =
     with_arg (argfd 0) (\<lambda>(fd, f).
     kthen (clear_fd fd)
     (kthen (fileclose f)
     (kret 0)))"

text \<open>The stores of \<open>stati\<close> into the user's \<open>struct stat\<close>; its padding is left alone.\<close>

definition put_stat :: "u32 \<Rightarrow> stat \<Rightarrow> ('x vmst_scheme, unit) K" where
  "put_stat a st =
     kthen (user_put (a + 4) (bytes32 (st_dev st)))
     (kthen (user_put (a + 8) (bytes32 (st_ino st)))
     (kthen (user_put a (bytes16 (st_type st)))
     (kthen (user_put (a + 12) (bytes16 (st_nlink st)))
     (user_put (a + 16) (bytes32 (st_size st))))))"

definition sys_fstat :: "('x ftst_scheme, int) K" where
  "sys_fstat =
     with_arg (argfd 0) (\<lambda>(_, f).
     with_arg (argptr 1 20) (\<lambda>a.
     with_arg (filestat f) (\<lambda>st.
     kthen (put_stat a st) (kret 0))))"

section \<open>Links\<close>

definition add_nlink :: "nat \<Rightarrow> u16 \<Rightarrow> ('x icst_scheme, unit) K" where
  "add_nlink ip d = kthen (kmod (upd_inode ip (\<lambda>q. q\<lparr>i_nlink := i_nlink q + d\<rparr>))) (iupdate ip)"

definition op_fail :: "('x logst_scheme, int) K" where
  "op_fail = kthen end_op (kret (-1))"

definition sys_link_bad :: "nat \<Rightarrow> ('x icst_scheme, int) K" where
  "sys_link_bad ip =
     kthen (ilock ip)
     (kthen (add_nlink ip (-1))
     (kthen (iunlockput ip)
     op_fail))"

definition sys_link :: "('x icst_scheme, int) K" where
  "sys_link =
     with_arg (argstr 0) (\<lambda>old.
     with_arg (argstr 1) (\<lambda>new.
     kthen begin_op
     (kbind (namei old) (\<lambda>r.
     case r of None \<Rightarrow> op_fail
     | Some ip \<Rightarrow>
     kthen (ilock ip)
     (kbind (kget (\<lambda>s. i_type (icache s ip))) (\<lambda>t.
     if t = T_DIR then kthen (iunlockput ip) op_fail
     else
     kthen (add_nlink ip 1)
     (kthen (iunlock ip)
     (kbind (nameiparent new) (\<lambda>r.
     case r of None \<Rightarrow> sys_link_bad ip
     | Some (dp, name) \<Rightarrow>
     kthen (ilock dp)
     (kbind (kget (\<lambda>s. i_dev (icache s dp) \<noteq> i_dev (icache s ip))) (\<lambda>xdev.
     kbind (if xdev then kret (-1)
            else kbind (kget (\<lambda>s. i_inum (icache s ip))) (dirlink dp name)) (\<lambda>r.
     if r < 0 then kthen (iunlockput dp) (sys_link_bad ip)
     else
     kthen (iunlockput dp)
     (kthen (iput ip)
     (kthen end_op
     (kret 0)))))))))))))))"

fun isdirempty_loop :: "nat \<Rightarrow> nat list \<Rightarrow> ('x icst_scheme, bool) K" where
  "isdirempty_loop dp [] = kret True"
| "isdirempty_loop dp (off # offs) =
     kbind (readi dp (of_nat off) 16) (\<lambda>(r, bs).
     if r \<noteq> 16 then kpanic ''isdirempty: readi''
     else if d_inum (dirent_of bs) \<noteq> 0 then kret False
     else isdirempty_loop dp offs)"

definition isdirempty :: "nat \<Rightarrow> ('x icst_scheme, bool) K" where
  "isdirempty dp =
     kbind (kget (\<lambda>s. i_size (icache s dp))) (\<lambda>sz. isdirempty_loop dp (drop 2 (dir_offs sz)))"

definition sys_unlink_bad :: "nat \<Rightarrow> ('x icst_scheme, int) K" where
  "sys_unlink_bad dp = kthen (iunlockput dp) op_fail"

definition dot :: "u8 list" where "dot = [0x2E]"
definition dotdot :: "u8 list" where "dotdot = [0x2E, 0x2E]"

text \<open>From the locked directory \<open>dp\<close> and the locked inode \<open>ip\<close> of its entry at \<open>off\<close> on.\<close>

definition sys_unlink_entry :: "nat \<Rightarrow> nat \<Rightarrow> nat \<Rightarrow> ('x icst_scheme, int) K" where
  "sys_unlink_entry dp ip off =
     kbind (writei dp (replicate 16 0) (of_nat off)) (\<lambda>r.
     if r \<noteq> 16 then kpanic ''unlink: writei''
     else
     kbind (kget (\<lambda>s. i_type (icache s ip))) (\<lambda>t.
     kthen (kwhen (t = T_DIR) (add_nlink dp (-1)))
     (kthen (iunlockput dp)
     (kthen (add_nlink ip (-1))
     (kthen (iunlockput ip)
     (kthen end_op
     (kret 0)))))))"

definition sys_unlink :: "('x icst_scheme, int) K" where
  "sys_unlink =
     with_arg (argstr 0) (\<lambda>path.
     kthen begin_op
     (kbind (nameiparent path) (\<lambda>r.
     case r of None \<Rightarrow> op_fail
     | Some (dp, name) \<Rightarrow>
     kthen (ilock dp)
     (if namecmp name dot = 0 \<or> namecmp name dotdot = 0 then sys_unlink_bad dp
      else
      kbind (dirlookup dp name) (\<lambda>r.
      case r of None \<Rightarrow> sys_unlink_bad dp
      | Some (ip, off) \<Rightarrow>
      kthen (ilock ip)
      (kbind (kget (\<lambda>s. icache s ip)) (\<lambda>q.
      if sint (i_nlink q) < 1 then kpanic ''unlink: nlink < 1''
      else
      kbind (if i_type q = T_DIR then isdirempty ip else kret True) (\<lambda>empty.
      if \<not> empty then kthen (iunlockput ip) (sys_unlink_bad dp)
      else sys_unlink_entry dp ip off))))))))"

definition create_dots :: "nat \<Rightarrow> nat \<Rightarrow> ('x icst_scheme, unit) K" where
  "create_dots ip dp =
     kthen (add_nlink dp 1)
     (kbind (kget (\<lambda>s. i_inum (icache s ip))) (\<lambda>inum.
     kbind (dirlink ip dot inum) (\<lambda>r.
     if r < 0 then kpanic ''create dots''
     else
     kbind (kget (\<lambda>s. i_inum (icache s dp))) (\<lambda>pinum.
     kbind (dirlink ip dotdot pinum) (\<lambda>r.
     kwhen (r < 0) (kpanic ''create dots''))))))"

definition create :: "u8 list \<Rightarrow> u16 \<Rightarrow> u16 \<Rightarrow> u16 \<Rightarrow> ('x icst_scheme, nat option) K" where
  "create path type major minor =
     kbind (nameiparent path) (\<lambda>r.
     case r of None \<Rightarrow> kret None
     | Some (dp, name) \<Rightarrow>
     kthen (ilock dp)
     (kbind (dirlookup dp name) (\<lambda>r.
     case r of
       Some (ip, _) \<Rightarrow>
         kthen (iunlockput dp)
         (kthen (ilock ip)
         (kbind (kget (\<lambda>s. i_type (icache s ip))) (\<lambda>t.
         if type = T_FILE \<and> t = T_FILE then kret (Some ip)
         else kthen (iunlockput ip) (kret None))))
     | None \<Rightarrow>
         kbind (kget (\<lambda>s. i_dev (icache s dp))) (\<lambda>dev.
         kbind (ialloc dev type) (\<lambda>ip.
         kthen (ilock ip)
         (kthen (kmod (upd_inode ip (\<lambda>q. q\<lparr>i_major := major, i_minor := minor, i_nlink := 1\<rparr>)))
         (kthen (iupdate ip)
         (kthen (kwhen (type = T_DIR) (create_dots ip dp))
         (kbind (kget (\<lambda>s. i_inum (icache s ip))) (\<lambda>inum.
         kbind (dirlink dp name inum) (\<lambda>r.
         if r < 0 then kpanic ''create: dirlink''
         else
         kthen (iunlockput dp)
         (kret (Some ip)))))))))))))"

definition O_WRONLY :: u32 where "O_WRONLY = 0x001"
definition O_RDWR :: u32 where "O_RDWR = 0x002"
definition O_CREATE :: u32 where "O_CREATE = 0x200"

text \<open>The locked inode that \<open>sys_open\<close> opens.\<close>

definition open_inode :: "u8 list \<Rightarrow> u32 \<Rightarrow> ('x icst_scheme, nat option) K" where
  "open_inode path omode =
     (if omode AND O_CREATE \<noteq> 0 then create path T_FILE 0 0
      else
      kbind (namei path) (\<lambda>r.
      case r of None \<Rightarrow> kret None
      | Some ip \<Rightarrow>
      kthen (ilock ip)
      (kbind (kget (\<lambda>s. i_type (icache s ip))) (\<lambda>t.
      if t = T_DIR \<and> omode \<noteq> 0 then kthen (iunlockput ip) (kret None)
      else kret (Some ip)))))"

definition sys_open_file :: "nat \<Rightarrow> u32 \<Rightarrow> ('x ftst_scheme, int) K" where
  "sys_open_file ip omode =
     kbind filealloc (\<lambda>r.
     case r of None \<Rightarrow> kthen (iunlockput ip) op_fail
     | Some f \<Rightarrow>
     kbind (fdalloc f) (\<lambda>fd.
     if fd < 0 then kthen (fileclose f) (kthen (iunlockput ip) op_fail)
     else
     kthen (iunlock ip)
     (kthen end_op
     (kthen (kmod (upd_file f (\<lambda>q. q\<lparr>f_type := FD_INODE, f_ip := ip, f_off := 0,
        f_readable := (omode AND O_WRONLY = 0), f_writable := (omode AND O_WRONLY \<noteq> 0 \<or> omode AND O_RDWR \<noteq> 0)\<rparr>)))
     (kret fd)))))"

definition sys_open :: "('x ftst_scheme, int) K" where
  "sys_open =
     with_arg (argstr 0) (\<lambda>path.
     with_arg (argint 1) (\<lambda>omode.
     kthen begin_op
     (kbind (open_inode path omode) (\<lambda>r.
     case r of None \<Rightarrow> op_fail
     | Some ip \<Rightarrow> sys_open_file ip omode))))"

text \<open>The end of \<open>sys_mkdir\<close> and \<open>sys_mknod\<close>.\<close>

definition created :: "nat option \<Rightarrow> ('x icst_scheme, int) K" where
  "created r = (case r of None \<Rightarrow> op_fail | Some ip \<Rightarrow> kthen (iunlockput ip) (kthen end_op (kret 0)))"

definition sys_mkdir :: "('x icst_scheme, int) K" where
  "sys_mkdir =
     kthen begin_op
     (kbind (argstr 0) (\<lambda>r.
     case r of None \<Rightarrow> op_fail
     | Some path \<Rightarrow> kbind (create path T_DIR 0 0) created))"

definition sys_mknod :: "('x icst_scheme, int) K" where
  "sys_mknod =
     kthen begin_op
     (kbind (argstr 0) (\<lambda>r. case r of None \<Rightarrow> op_fail | Some path \<Rightarrow>
     kbind (argint 1) (\<lambda>r. case r of None \<Rightarrow> op_fail | Some major \<Rightarrow>
     kbind (argint 2) (\<lambda>r. case r of None \<Rightarrow> op_fail | Some minor \<Rightarrow>
     kbind (create path T_DEV (ucast major) (ucast minor)) created))))"

definition sys_chdir :: "('x icst_scheme, int) K" where
  "sys_chdir =
     kthen begin_op
     (kbind (argstr 0) (\<lambda>r.
     case r of None \<Rightarrow> op_fail
     | Some path \<Rightarrow>
     kbind (namei path) (\<lambda>r.
     case r of None \<Rightarrow> op_fail
     | Some ip \<Rightarrow>
     kthen (ilock ip)
     (kbind (kget (\<lambda>s. i_type (icache s ip))) (\<lambda>t.
     if t \<noteq> T_DIR then kthen (iunlockput ip) op_fail
     else
     kthen (iunlock ip)
     (with_cur (\<lambda>p.
      kbind (kget (\<lambda>s. p_cwd (ptable s p))) (\<lambda>cwd.
      kthen (case cwd of None \<Rightarrow> kfail Wild | Some d \<Rightarrow> iput d)
      (kthen end_op
      (kthen (kmod (upd_proc p (\<lambda>q. q\<lparr>p_cwd := Some ip\<rparr>)))
      (kret 0)))))))))))"

section \<open>exec and pipe\<close>

fun sys_exec_args :: "u32 \<Rightarrow> nat list \<Rightarrow> ('x ptst_scheme, u8 list list option) K" where
  "sys_exec_args uargv [] = kret None"
| "sys_exec_args uargv (i # is) =
     kbind (fetchint (uargv + 4 * of_nat i)) (\<lambda>r.
     case r of None \<Rightarrow> kret None
     | Some uarg \<Rightarrow>
        if uarg = 0 then kret (Some [])
        else
        kbind (fetchstr uarg) (\<lambda>r.
        case r of None \<Rightarrow> kret None
        | Some arg \<Rightarrow> kbind (sys_exec_args uargv is) (\<lambda>rest. kret (map_option ((#) arg) rest))))"

definition sys_exec :: "('x icst_scheme, int) K" where
  "sys_exec =
     with_arg (argstr 0) (\<lambda>path.
     with_arg (argint 1) (\<lambda>uargv.
     with_arg (sys_exec_args uargv [0..<MAXARG]) (\<lambda>argv.
     exec path argv)))"

definition sys_pipe :: "('x ftst_scheme, int) K" where
  "sys_pipe =
     with_arg (argptr 0 8) (\<lambda>fd.
     with_arg pipealloc (\<lambda>(rf, wf).
     kbind (fdalloc rf) (\<lambda>fd0.
     if fd0 < 0 then kthen (fileclose rf) (kthen (fileclose wf) (kret (-1)))
     else
     kbind (fdalloc wf) (\<lambda>fd1.
     if fd1 < 0 then kthen (clear_fd (nat fd0)) (kthen (fileclose rf) (kthen (fileclose wf) (kret (-1))))
     else
     kthen (user_put fd (bytes32 (of_int fd0)))
     (kthen (user_put (fd + 4) (bytes32 (of_int fd1)))
     (kret 0))))))"

end
