(* ===== verification/Xv6_Trap.thy ===== *)
theory Xv6_Trap
  imports Xv6_Sysfile
begin

text \<open>
  System calls on processes (\<open>sysproc.c\<close>), the dispatch table of \<open>syscall.c\<close> and \<open>trap\<close> (\<open>trap.c\<close>).
  What the devices deliver to the interrupt handlers is collected in a record of inputs.  The
  acknowledgement of interrupts (\<open>lapiceoi\<close>) changes nothing the model sees.
\<close>

section \<open>sysproc.c\<close>

definition sys_fork :: "('x ftst_scheme, int) K" where
  "sys_fork = fork"

definition sys_exit :: "('x ftst_scheme, int) K" where
  "sys_exit = kthen (exit :: ('x ftst_scheme, unit) K) (kret 0)"

definition sys_wait :: "('x ptst_scheme, int) K" where
  "sys_wait = wait"

definition sys_kill :: "('x ptst_scheme, int) K" where
  "sys_kill = with_arg (argint 0) kill"

definition sys_getpid :: "('x ptst_scheme, int) K" where
  "sys_getpid = with_cur (\<lambda>p. kget (\<lambda>s. sint (p_pid (ptable s p))))"

definition sys_sbrk :: "('x ptst_scheme, int) K" where
  "sys_sbrk =
     with_arg (argint 0) (\<lambda>n.
     with_cur (\<lambda>p. kbind (kget (\<lambda>s. p_sz (ptable s p))) (\<lambda>addr.
     kbind (growproc (sint n)) (\<lambda>r.
     kret (if r < 0 then -1 else sint addr)))))"

text \<open>The comparison is unsigned: the \<open>int\<close> \<open>n\<close> is converted to \<open>uint\<close>.\<close>

definition sys_sleep_loop :: "u32 \<Rightarrow> u32 \<Rightarrow> ('x tkst_scheme, int) K" where
  "sys_sleep_loop ticks0 n =
     kbind (kget ticks) (\<lambda>t.
     if t - ticks0 < n then
       kbind cur_killed (\<lambda>killed.
       if killed then kthen (release L_ticks) (kret (-1))
       else sleep Ch_ticks L_ticks)
     else kthen (release L_ticks) (kret 0))"

definition sys_sleep :: "('x tkst_scheme, int) K" where
  "sys_sleep =
     with_arg (argint 0) (\<lambda>n.
     kthen (acquire L_ticks)
     (kbind (kget ticks) (\<lambda>ticks0.
     sys_sleep_loop ticks0 n)))"

definition sys_sleep_resume :: "u32 \<Rightarrow> u32 \<Rightarrow> ('x tkst_scheme, int) K" where
  "sys_sleep_resume ticks0 n = kthen (sleep_resume L_ticks) (sys_sleep_loop ticks0 n)"

definition sys_uptime :: "('x tkst_scheme, int) K" where
  "sys_uptime = with_lock L_ticks (kget (\<lambda>s. sint (ticks s)))"

definition sys_signal :: "('x ptst_scheme, int) K" where
  "sys_signal =
     with_arg (argint 0) (\<lambda>signum.
     with_arg (argptr 1 4) (\<lambda>handler.
     if sint signum < 0 \<or> sint signum \<ge> int NUMSIG then kret (-1)
     else kbind (signal (sint signum) handler) (\<lambda>old. kret (sint old))))"

definition sys_sigsend :: "('x ptst_scheme, int) K" where
  "sys_sigsend =
     with_arg (argint 0) (\<lambda>pid.
     with_arg (argint 1) (\<lambda>signum.
     if sint signum < 0 \<or> sint signum \<ge> int NUMSIG then kret (-1)
     else sigsend pid (sint signum)))"

definition sys_sigreturn :: "('x ptst_scheme, int) K" where
  "sys_sigreturn = sigreturn"

definition sys_alarm :: "('x ptst_scheme, int) K" where
  "sys_alarm = with_arg (argint 0) (\<lambda>tm. alarm (sint tm))"

section \<open>Dispatch\<close>

definition syscalls :: "('x tkst_scheme, int) K list" where
  "syscalls =
     [sys_fork, sys_exit, sys_wait, sys_pipe, sys_read, sys_kill, sys_exec, sys_fstat, sys_chdir, sys_dup,
      sys_getpid, sys_sbrk, sys_sleep, sys_uptime, sys_open, sys_write, sys_mknod, sys_unlink, sys_link,
      sys_mkdir, sys_close, sys_signal, sys_sigsend, sys_sigreturn, sys_alarm]"

definition set_eax :: "int \<Rightarrow> ('x ptst_scheme, unit) K" where
  "set_eax r = with_cur (\<lambda>p. kmod (upd_proc p (\<lambda>q. q\<lparr>p_tf := (p_tf q)\<lparr>tf_eax := of_int r\<rparr>\<rparr>)))"

text \<open>Entry 0 of the table is empty.\<close>

definition syscall :: "('x tkst_scheme, unit) K" where
  "syscall =
     with_cur (\<lambda>p.
     kbind (kget (\<lambda>s. ptable s p)) (\<lambda>q.
     let num = sint (tf_eax (p_tf q)) in
     if num > 0 \<and> num < int (length (syscalls :: ('x tkst_scheme, int) K list)) + 1 then
       kbind (syscalls ! nat (num - 1)) set_eax
     else
       kthen (cprintf (''%d %s: unknown sys call %d'' @ [CHR 0x0A])
         [Cint (p_pid q), Cstr (Some (p_name q)), Cint (tf_eax (p_tf q))])
       (set_eax (-1))))"

section \<open>Traps\<close>

definition T_SYSCALL :: u32 where "T_SYSCALL = 64"
definition T_IRQ0 :: u32 where "T_IRQ0 = 32"
definition IRQ_TIMER :: u32 where "IRQ_TIMER = 0"
definition IRQ_KBD :: u32 where "IRQ_KBD = 1"
definition IRQ_COM1 :: u32 where "IRQ_COM1 = 4"
definition IRQ_IDE :: u32 where "IRQ_IDE = 14"
definition IRQ_SPURIOUS :: u32 where "IRQ_SPURIOUS = 31"

lemmas trap_defs =
  T_SYSCALL_def T_IRQ0_def IRQ_TIMER_def IRQ_KBD_def IRQ_COM1_def IRQ_IDE_def IRQ_SPURIOUS_def

text \<open>\<open>tvinit\<close> without the interrupt descriptor table, which is hardware format.\<close>

definition tvinit :: "('x tkst_scheme, unit) K" where
  "tvinit = initlock L_ticks"

record trap_in =
  in_kbd :: "int list"             \<comment> \<open>what \<open>kbdgetc\<close> returns\<close>
  in_uart :: "int list"            \<comment> \<open>what \<open>uartgetc\<close> returns\<close>
  in_pcs :: "nat \<Rightarrow> u32 list"       \<comment> \<open>call stacks, for \<open>procdump\<close>\<close>
  in_cr2 :: u32

definition timer_tick :: "('x tkst_scheme, unit) K" where
  "timer_tick =
     with_lock L_ticks
      (kthen (kmod (\<lambda>s. s\<lparr>ticks := ticks s + 1\<rparr>))
      (kthen updateAlarms
      (wakeup Ch_ticks)))"

text \<open>\<open>if(proc && proc->killed && (tf->cs&3) == DPL_USER) exit();\<close>\<close>

definition exit_if_killed :: "trapframe \<Rightarrow> ('x ftst_scheme, unit) K" where
  "exit_if_killed tf =
     kbind (kget (\<lambda>s. case curproc s of None \<Rightarrow> False | Some p \<Rightarrow> p_killed (ptable s p) \<and> tf_cs tf AND 3 = DPL_USER)) (\<lambda>k.
     kwhen k exit)"

definition trap_unexpected :: "trap_in \<Rightarrow> trapframe \<Rightarrow> ('x consst_scheme, unit) K" where
  "trap_unexpected inp tf =
     kbind (kget (\<lambda>s. (curproc s, me s))) (\<lambda>(c, cpu).
     case c of
       Some p \<Rightarrow>
         if tf_cs tf AND 3 \<noteq> 0 then
           kbind (kget (\<lambda>s. ptable s p)) (\<lambda>q.
           kthen (cprintf (''pid %d %s: trap %d err %d on cpu %d eip 0x%x addr 0x%x--kill proc'' @ [CHR 0x0A])
             [Cint (p_pid q), Cstr (Some (p_name q)), Cint (tf_trapno tf), Cint (tf_err tf), Cint (of_nat cpu),
              Cint (tf_eip tf), Cint (in_cr2 inp)])
           (kmod (upd_proc p (\<lambda>q. q\<lparr>p_killed := True\<rparr>))))
         else
           kthen (cprintf (''unexpected trap %d from cpu %d eip %x (cr2=0x%x)'' @ [CHR 0x0A])
             [Cint (tf_trapno tf), Cint (of_nat cpu), Cint (tf_eip tf), Cint (in_cr2 inp)])
           (kpanic ''trap'')
     | None \<Rightarrow>
         kthen (cprintf (''unexpected trap %d from cpu %d eip %x (cr2=0x%x)'' @ [CHR 0x0A])
           [Cint (tf_trapno tf), Cint (of_nat cpu), Cint (tf_eip tf), Cint (in_cr2 inp)])
         (kpanic ''trap''))"

text \<open>The memory disk needs no interrupt (\<open>memide.c\<close>).\<close>

definition ideintr :: "('x tkst_scheme, unit) K" where
  "ideintr = kret ()"

definition trap_dispatch :: "trap_in \<Rightarrow> trapframe \<Rightarrow> ('x tkst_scheme, unit) K" where
  "trap_dispatch inp tf =
     (let n = tf_trapno tf in
      if n = T_IRQ0 + IRQ_TIMER then kbind (kget me) (\<lambda>cpu. kwhen (cpu = 0) timer_tick)
      else if n = T_IRQ0 + IRQ_IDE then ideintr
      else if n = T_IRQ0 + IRQ_IDE + 1 then kret ()
      else if n = T_IRQ0 + IRQ_KBD then kbdintr (in_pcs inp) (in_kbd inp)
      else if n = T_IRQ0 + IRQ_COM1 then uartintr (in_pcs inp) (in_uart inp)
      else if n = T_IRQ0 + 7 \<or> n = T_IRQ0 + IRQ_SPURIOUS then
        kbind (kget me) (\<lambda>cpu.
        cprintf (''cpu%d: spurious interrupt at %x:%x'' @ [CHR 0x0A])
          [Cint (of_nat cpu), Cint (ucast (tf_cs tf)), Cint (tf_eip tf)])
      else trap_unexpected inp tf)"

definition trap :: "trap_in \<Rightarrow> trapframe \<Rightarrow> ('x tkst_scheme, unit) K" where
  "trap inp tf =
     (if tf_trapno tf = T_SYSCALL then
        kbind cur_killed (\<lambda>k.
        kthen (kwhen k exit)
        (kthen (with_cur (\<lambda>p. kmod (upd_proc p (\<lambda>q. q\<lparr>p_tf := tf\<rparr>))))
        (kthen syscall
        (kbind cur_killed (\<lambda>k.
        kwhen k exit)))))
      else
      kthen (trap_dispatch inp tf)
      (kthen (exit_if_killed tf)
      (kbind (kget (\<lambda>s. case curproc s of None \<Rightarrow> False | Some p \<Rightarrow>
         p_state (ptable s p) = RUNNING \<and> tf_trapno tf = T_IRQ0 + IRQ_TIMER)) (\<lambda>y.
      kthen (kwhen y yield)
      (exit_if_killed tf)))))"

text \<open>What follows when a process that \<open>trap\<close> made yield runs again.\<close>

definition trap_resume :: "trapframe \<Rightarrow> ('x tkst_scheme, unit) K" where
  "trap_resume tf = kthen yield_resume (exit_if_killed tf)"

end
