(* ===== verification/Xv6_Content.thy ===== *)
theory Xv6_Content
  imports Xv6_Fs
begin

text \<open>
  What files contain.  The view of the disk through the buffer cache gives every allocated file its
  bytes, through the direct and the indirect block addresses.  \<open>readi\<close> returns these bytes, and
  \<open>writei\<close> inside a transaction changes exactly the bytes it is given.
\<close>

section \<open>The content of a file\<close>

type_synonym disk = "nat \<Rightarrow> block"

definition blk_addr :: "disk \<Rightarrow> inode \<Rightarrow> nat \<Rightarrow> u32" where
  "blk_addr D q bn = (if bn < NDIRECT then i_addrs q bn else get32 (D (unat (i_addrs q NDIRECT))) (4 * (bn - NDIRECT)))"

definition file_byte :: "disk \<Rightarrow> inode \<Rightarrow> nat \<Rightarrow> u8" where
  "file_byte D q off = D (unat (blk_addr D q (off div BSIZE))) (off mod BSIZE)"

text \<open>Block \<open>bn\<close> of the file, and the indirect block if it is needed, are allocated blocks of the disk.\<close>

definition blk_ok :: "nat \<Rightarrow> disk \<Rightarrow> inode \<Rightarrow> nat \<Rightarrow> bool" where
  "blk_ok dsz D q bn =
     (bn < MAXFILE \<and> blk_addr D q bn \<noteq> 0 \<and> unat (blk_addr D q bn) < dsz \<and>
      (NDIRECT \<le> bn \<longrightarrow> i_addrs q NDIRECT \<noteq> 0 \<and> unat (i_addrs q NDIRECT) < dsz))"

lemma view_clean_at:
  assumes "cache_ok s" and "n \<notin> ah (ablk_of s)" and "n \<notin> adt (ablk_of s)"
  shows "av (ablk_of s) n = ad (ablk_of s) n"
proof (cases "cached s n")
  case (Some i)
  then have i: "i < NBUF" "valid (bufs s i)" "unat (b_blockno (bufs s i)) = n" using cached_SomeD by blast+
  then have "\<not> held s i" "\<not> dirty (bufs s i)" using assms(2,3) by (auto simp: ablk_of_def bnos_def)
  then show ?thesis
    using i buf_okD(6) [OF cache_okD(3) [OF assms(1) i(1)] i(2)] Some by (simp add: ablk_of_def)
qed (simp add: ablk_of_def)

text \<open>The inode layer sees through the frames of the layers below.\<close>

lemma bframe_fs:
  assumes "bframe s t"
  shows "icache t = icache s" and "sb t = sb s" and "devsw_read t = devsw_read s" and "devsw_write t = devsw_write s"
proof -
  obtain pt sl bf md dw where "t = s\<lparr>ptable := pt, slocks := sl, bufs := bf, memdisk := md, dwrites := dw\<rparr>"
    using assms unfolding bframe_def by blast
  then show "icache t = icache s" "sb t = sb s" "devsw_read t = devsw_read s" "devsw_write t = devsw_write s" by simp_all
qed

lemma lframe_fs:
  assumes "lframe s t"
  shows "icache t = icache s" and "sb t = sb s"
proof -
  obtain n bl where b: "bframe (s\<lparr>lh_n := n, lh_block := bl\<rparr>) t" using assms unfolding lframe_def by blast
  show "icache t = icache s" "sb t = sb s" using bframe_fs [OF b] by simp_all
qed

text \<open>Nothing is held, and there is a buffer to spare.\<close>

definition can_read :: "'x bst_scheme \<Rightarrow> bool" where
  "can_read s = (cache_ok s \<and> ah (ablk_of s) = {} \<and> card (adt (ablk_of s)) < NBUF)"

definition same_view :: "'x bst_scheme \<Rightarrow> 'x bst_scheme \<Rightarrow> bool" where
  "same_view s t = (bframe s t \<and> ablk_of t = ablk_of s \<and> cache_ok t)"

lemma same_view_trans: "same_view s t \<Longrightarrow> same_view t u \<Longrightarrow> same_view s u"
  using bframe_trans by (auto simp: same_view_def)

lemma same_view_read: "can_read s \<Longrightarrow> same_view s t \<Longrightarrow> can_read t"
  by (simp add: can_read_def same_view_def)

text \<open>Reading one block, in the form in which the code does it.\<close>

lemma wp_peek:
  assumes "can_read s" and "unat bn < disksize s"
    and "\<And>b t. cache_ok t \<Longrightarrow> bframe s t \<Longrightarrow> b_data (bufs t b) = av (ablk_of s) (unat bn) \<Longrightarrow>
      (\<And>Q. (\<And>u. same_view s u \<Longrightarrow> Q () u) \<Longrightarrow> wp (brelse b) Q E t) \<Longrightarrow> R b t"
  shows "wp (bread 1 bn) R E s"
proof (rule bc.wp_rd, goal_cases)
  case (5 b t)
  have ah: "ah (ablk_of s) = {}" and ok: "cache_ok s" using assms(1) by (simp_all add: can_read_def)
  have hb: "has_buf t b (unat bn)" using 5(4) by simp
  have a: "ablk_of t = (ablk_of s)\<lparr>ah := {unat bn}\<rparr>" using 5(3) ah by simp
  have d: "b_data (bufs t b) = av (ablk_of s) (unat bn)" using bc.dat_view [OF 5(1) hb] a by simp
  show ?case
  proof (rule assms(3) [OF 5(1,2) d])
    fix Q :: "unit \<Rightarrow> 'a bst_scheme \<Rightarrow> bool"
    assume Q: "\<And>u. same_view s u \<Longrightarrow> Q () u"
    show "wp (brelse b) Q E t"
    proof (rule bc.wp_rel [OF 5(1) hb], goal_cases)
      case 1 show ?case using view_clean_at [OF ok, of "unat bn"] ah a by auto
    next
      case (2 u)
      have "ablk_of u = ablk_of s" using 2(3) a ah by simp
      then show ?case using Q 2(1) bframe_trans [OF 5(2) 2(2)] by (simp add: same_view_def)
    qed
  qed
qed (use assms in \<open>simp_all add: can_read_def\<close>)

lemma wp_bmap_found:
  assumes r: "can_read s" and q: "icache s ip = q" "i_dev q = 1" and b: "blk_ok (disksize s) (av (ablk_of s)) q (unat bn)"
    and Q: "\<And>t. same_view s t \<Longrightarrow> Q (blk_addr (av (ablk_of s)) q (unat bn)) t"
  shows "wp (bmap ip bn) Q E s"
proof -
  have refl: "same_view s s" using r bframe_refl by (simp add: same_view_def can_read_def)
  show ?thesis
  proof (cases "unat bn < NDIRECT")
    case True
    then show ?thesis
      using Q [OF refl] b q by (simp add: bmap_def bmap_addr_def addr_of_def wp_simps blk_ok_def blk_addr_def)
  next
    case False
    let ?n = "unat bn - NDIRECT" and ?ind = "i_addrs q NDIRECT"
    have n: "?n < NINDIRECT" "?ind \<noteq> 0" "unat ?ind < disksize s" "get32 (av (ablk_of s) (unat ?ind)) (4 * ?n) \<noteq> 0"
      using False b by (auto simp: blk_ok_def MAXFILE_def blk_addr_def)
    have "wp (bmap_indirect 1 ?ind ?n) Q E s"
      unfolding bmap_indirect_def wp_bind
    proof (rule wp_peek [OF r n(3)])
      fix bp t
      assume t: "b_data (bufs t bp) = av (ablk_of s) (unat ?ind)"
        and rel: "\<And>Q. (\<And>u. same_view s u \<Longrightarrow> Q () u) \<Longrightarrow> wp (brelse bp) Q E t"
      show "wp (kget (\<lambda>s. get32 (b_data (bufs s bp)) (4 * ?n))) (\<lambda>addr.
          wp (if addr = 0 then kbind (balloc 1) (\<lambda>addr. kthen (edit_data bp (\<lambda>d. put32 d (4 * ?n) addr)) (kthen (log_write bp) (kret addr)))
              else kret addr) (\<lambda>addr. wp (brelse bp) (\<lambda>_. wp (kret addr) Q E) E) E) E t"
        using n(4) False by (simp add: wp_simps t) (rule rel, use Q False in \<open>simp add: wp_simps blk_addr_def\<close>)
    qed
    then show ?thesis
      using False n(1,2) q by (simp add: bmap_def bmap_addr_def addr_of_def wp_simps Let_def)
  qed
qed

section \<open>Reading\<close>

definition range_ok :: "nat \<Rightarrow> disk \<Rightarrow> inode \<Rightarrow> nat \<Rightarrow> nat \<Rightarrow> bool" where
  "range_ok dsz D q lo n = (\<forall>i. lo \<le> i \<and> i < lo + n \<longrightarrow> blk_ok dsz D q (i div BSIZE))"

lemma chunk_le: "chunk n off \<le> n" "unat off mod BSIZE + chunk n off \<le> BSIZE"
proof -
  have "unat off mod BSIZE < BSIZE" by (simp add: BSIZE_def)
  then show "chunk n off \<le> n" "unat off mod BSIZE + chunk n off \<le> BSIZE" by (simp_all add: chunk_def)
qed

lemma div_mod_within:
  fixes x j k :: nat
  assumes "x mod k + j < k"
  shows "(x + j) div k = x div k" and "(x + j) mod k = x mod k + j"
proof -
  have k: "k \<noteq> 0" using assms by auto
  have e: "x + j = (x mod k + j) + k * (x div k)" by simp
  have "((x mod k + j) + k * (x div k)) div k = x div k" using assms k by (subst div_mult_self2) simp_all
  then show "(x + j) div k = x div k" by (simp only: e [symmetric])
  have "((x mod k + j) + k * (x div k)) mod k = x mod k + j" using assms by (subst mod_mult_self2) simp
  then show "(x + j) mod k = x mod k + j" by (simp only: e [symmetric])
qed

lemma chunk_divmod:
  assumes "j < chunk n off"
  shows "(unat off + j) div BSIZE = unat off div BSIZE" and "(unat off + j) mod BSIZE = unat off mod BSIZE + j"
proof -
  have l: "unat off mod BSIZE + j < BSIZE" using assms chunk_le(2) [of off n] by simp
  then show "(unat off + j) div BSIZE = unat off div BSIZE" "(unat off + j) mod BSIZE = unat off mod BSIZE + j"
    by (rule div_mod_within)+
qed

lemma slice_bytes:
  "bytes_at (D (unat (blk_addr D q (unat off div BSIZE)))) (unat off mod BSIZE) (chunk n off) =
     map (file_byte D q) [unat off..<unat off + chunk n off]"
proof (rule nth_equalityI)
  fix j assume "j < length (bytes_at (D (unat (blk_addr D q (unat off div BSIZE)))) (unat off mod BSIZE) (chunk n off))"
  then have j: "j < chunk n off" by (simp add: bytes_at_def)
  then show "bytes_at (D (unat (blk_addr D q (unat off div BSIZE)))) (unat off mod BSIZE) (chunk n off) ! j =
      map (file_byte D q) [unat off..<unat off + chunk n off] ! j"
    using chunk_divmod [OF j] by (simp add: bytes_at_def file_byte_def)
qed (simp add: bytes_at_def)

lemma off_div: "unat (off div of_nat BSIZE :: u32) = unat off div BSIZE"
  by (simp add: BSIZE_def unat_div_distrib)

lemma wp_readi_step:
  assumes r: "can_read s" and q: "icache s ip = q" "i_dev q = 1"
    and b: "blk_ok (disksize s) (av (ablk_of s)) q (unat off div BSIZE)"
    and Q: "\<And>t. same_view s t \<Longrightarrow>
      Q (bytes_at (av (ablk_of s) (unat (blk_addr (av (ablk_of s)) q (unat off div BSIZE)))) (unat off mod BSIZE) m) t"
  shows "wp (readi_step ip off m) Q E s"
proof -
  let ?a = "blk_addr (av (ablk_of s)) q (unat off div BSIZE)"
  let ?rest = "\<lambda>addr. kbind (bread 1 addr) (\<lambda>bp.
     kbind (kget (\<lambda>s. bytes_at (b_data (bufs s bp)) (unat off mod BSIZE) m)) (\<lambda>bs. kthen (brelse bp) (kret bs)))"
  have "wp (bmap ip (off div of_nat BSIZE)) (\<lambda>addr. wp (?rest addr) Q E) E s"
  proof (rule wp_bmap_found [OF r q], unfold off_div, rule b)
    fix t :: "'a icst_scheme"
    assume t: "same_view s t"
    have v: "can_read t" "disksize t = disksize s" "ablk_of t = ablk_of s"
      using same_view_read [OF r t] t bframe_keeps(1) by (auto simp: same_view_def)
    have a: "unat ?a < disksize t" using b v(2) by (simp add: blk_ok_def)
    show "wp (?rest ?a) Q E t"
      unfolding wp_simps
      by (rule wp_peek [OF v(1) a]) (use Q same_view_trans [OF t] v(3) in \<open>simp add: wp_simps\<close>)
  qed
  then show ?thesis by (simp add: readi_step_def wp_simps q)
qed

lemma wp_readi_loop:
  assumes "can_read s" and "icache s ip = q" and "i_dev q = 1" and "range_ok (disksize s) (av (ablk_of s)) q (unat off) n"
    and "unat off + n < 2 ^ 32"
    and "\<And>t. same_view s t \<Longrightarrow> Q (map (file_byte (av (ablk_of s)) q) [unat off..<unat off + n]) t"
  shows "wp (readi_loop ip off n) Q E s"
  using assms
proof (induction ip off n arbitrary: s Q rule: readi_loop.induct)
  case (1 ip off n)
  let ?D = "av (ablk_of s)" and ?m = "chunk n off"
  show ?case
  proof (cases "n = 0")
    case True
    have "same_view s s" using 1(2) bframe_refl by (simp add: same_view_def can_read_def)
    then show ?thesis using 1(7) [of s] True by (simp add: readi_loop.simps wp_simps)
  next
    case False
    have bo: "blk_ok (disksize s) ?D q (unat off div BSIZE)" using 1(5) False by (auto simp: range_ok_def)
    have m: "?m \<le> n" by (rule chunk_le(1))
    then have u: "unat (off + of_nat ?m) = unat off + ?m" using 1(6) by (intro unat_add_nowrap) simp
    have "wp (readi_step ip off ?m) (\<lambda>bs. wp (kbind (readi_loop ip (off + of_nat ?m) (n - ?m)) (\<lambda>rest. kret (bs @ rest))) Q E) E s"
    proof (rule wp_readi_step [OF 1(2,3,4) bo], unfold slice_bytes wp_bind)
      fix t :: "'a icst_scheme"
      assume t: "same_view s t"
      have v: "ablk_of t = ablk_of s" "disksize t = disksize s" "icache t = icache s"
        using t bframe_keeps(1) bframe_fs(1) by (auto simp: same_view_def)
      show "wp (readi_loop ip (off + of_nat ?m) (n - ?m))
          (\<lambda>rest. wp (kret (map (file_byte ?D q) [unat off..<unat off + ?m] @ rest)) Q E) E t"
      proof (rule 1(1) [OF False refl same_view_read [OF 1(2) t]], goal_cases)
        case (5 u)
        have "[unat off..<unat off + n] = [unat off..<unat off + ?m] @ [unat off + ?m..<unat off + n]"
          using m upt_add_eq_append [of "unat off" "unat off + ?m" "n - ?m"] by simp
        then show ?case using 1(7) [OF same_view_trans [OF t 5]] u m v(1) by (simp add: wp_simps)
      qed (use 1 m u v in \<open>auto simp: range_ok_def\<close>)
    qed
    then show ?thesis unfolding readi_loop.simps [of ip off n] Let_def using False by (simp add: wp_bind)
  qed
qed

lemma readi_content:
  assumes r: "can_read s" and q: "icache s ip = q" "i_dev q = 1" "i_type q \<noteq> T_DEV"
    and off: "off \<le> i_size q" "unat off + unat n < 2 ^ 32" "unat (i_size q) \<le> MAXFILE * BSIZE"
    and k: "k = min (unat n) (unat (i_size q) - unat off)"
    and ok: "range_ok (disksize s) (av (ablk_of s)) q (unat off) k"
  shows "\<exists>t. readi ip off n s = (Val (int k, map (file_byte (av (ablk_of s)) q) [unat off..<unat off + k]), t) \<and> same_view s t"
proof -
  let ?n = "if off + n > i_size q then i_size q - off else n"
  have sum: "unat (off + n) = unat off + unat n" using unat_add_nowrap [of off "unat n"] off(2) by simp
  have le: "unat off \<le> unat (i_size q)" using off(1) by (simp add: word_le_nat_alt)
  have un: "unat ?n = k"
    using le sum k off(1) by (auto simp: word_less_nat_alt unat_sub not_less)
  have kb: "k < 2 ^ 31" using k off(3) by (simp add: fs_defs)
  have "uint ?n = int k" using arg_cong [OF un, of int] by simp
  then have sn: "sint ?n = int k" using kb by (simp only: sint_cases) simp
  have "\<not> (off > i_size q \<or> off + n < off)" using le sum by (auto simp: word_less_nat_alt not_less)
  then have e: "readi ip off n s = kbind (readi_loop ip off (unat ?n)) (\<lambda>bs. kret (sint ?n, bs)) s"
    using q by (simp add: readi_def Let_def)
  have "wp (readi_loop ip off k) (\<lambda>bs t. bs = map (file_byte (av (ablk_of s)) q) [unat off..<unat off + k] \<and> same_view s t) (\<lambda>_ _. False) s"
    by (rule wp_readi_loop [OF r q(1,2) ok]) (use k off(2) in simp_all)
  then show ?thesis unfolding e un sn wp_returns by (auto simp: kbind_def kret_def)
qed

section \<open>Writing\<close>

lemma in_trans_read:
  assumes "in_trans s start bns" shows "can_read s"
  using assms by (auto simp: in_trans_def can_read_def log_trans_def log_area_ok_def)

lemma in_trans_view:
  assumes "in_trans s start bns" and "same_view s t"
  shows "in_trans t start bns" and "room_for t n = room_for s n" and "disksize t = disksize s"
proof -
  have f: "bframe s t" and a: "ablk_of t = ablk_of s" and ok: "cache_ok t" using assms(2) by (simp_all add: same_view_def)
  note l = bframe_log [OF f] bframe_keeps(1) [OF f]
  show "in_trans t start bns" using assms(1) ok by (auto simp: in_trans_def log_trans_def log_area_ok_def a l)
  show "room_for t n = room_for s n" "disksize t = disksize s" by (simp_all add: room_for_def l)
qed

lemma wp_writei_step:
  assumes tr: "in_trans s start bns" and q: "icache s ip = q" "i_dev q = 1"
    and b: "blk_ok (disksize s) (av (ablk_of s)) q (unat off div BSIZE)"
    and a: "a = blk_addr (av (ablk_of s)) q (unat off div BSIZE)" "unat a \<notin> log_area start"
    and room: "room_for s (length bns)"
    and Q: "\<And>t. in_trans t start (log_absorb a bns) \<Longrightarrow> lframe s t \<Longrightarrow>
      av (ablk_of t) = (av (ablk_of s))(unat a := patch_bytes src (unat off mod BSIZE) (av (ablk_of s) (unat a))) \<Longrightarrow> Q () t"
  shows "wp (writei_step ip src off) Q E s"
proof -
  let ?rest = "\<lambda>addr. update_block (addr, patch_bytes src (unat off mod BSIZE))"
  have "wp (bmap ip (off div of_nat BSIZE)) (\<lambda>addr. wp (?rest addr) Q E) E s"
  proof (rule wp_bmap_found [OF in_trans_read [OF tr] q], unfold off_div a(1) [symmetric], rule b)
    fix t :: "'a icst_scheme"
    assume t: "same_view s t"
    note v = in_trans_view [OF tr t]
    have at: "ablk_of t = ablk_of s" and ft: "lframe s t" using t lframe_bframe by (auto simp: same_view_def)
    show "wp (?rest a) Q E t"
    proof (rule wp_update_block [OF v(1)], goal_cases)
      case (4 u)
      show ?case using 4 at lframe_trans [OF ft] by (intro Q) simp_all
    qed (use a(2) b room v in \<open>simp_all add: blk_ok_def a(1) [symmetric]\<close>)
  qed
  then show ?thesis by (simp add: writei_step_def wp_simps q update_block_def)
qed

text \<open>A file whose first \<open>n\<close> blocks are allocated, distinct, and apart from its indirect block and the log.\<close>

definition file_wf :: "nat \<Rightarrow> nat \<Rightarrow> disk \<Rightarrow> inode \<Rightarrow> nat \<Rightarrow> bool" where
  "file_wf start dsz D q n =
     (n \<le> MAXFILE \<and> inj_on (blk_addr D q) {..<n} \<and>
      (\<forall>bn < n. blk_ok dsz D q bn \<and> unat (blk_addr D q bn) \<notin> log_area start \<and>
         (NDIRECT < n \<longrightarrow> blk_addr D q bn \<noteq> i_addrs q NDIRECT)))"

definition data_blocks :: "disk \<Rightarrow> inode \<Rightarrow> nat \<Rightarrow> nat set" where
  "data_blocks D q n = (\<lambda>bn. unat (blk_addr D q bn)) ` {..<n}"

lemma file_wf_upd:
  assumes wf: "file_wf start dsz D q n" and bn: "bn < n" and D': "D' = D(unat (blk_addr D q bn) := d)"
  shows "b < n \<Longrightarrow> blk_addr D' q b = blk_addr D q b" and "file_wf start dsz D' q n"
    and "data_blocks D' q n = data_blocks D q n"
proof -
  have same: "blk_addr D' q b = blk_addr D q b" if "b < n" for b
  proof (cases "b < NDIRECT")
    case False
    then have "blk_addr D q bn \<noteq> i_addrs q NDIRECT" using wf bn that by (simp add: file_wf_def)
    then show ?thesis by (simp add: blk_addr_def D' word_unat_eq_iff)
  qed (simp add: blk_addr_def)
  then show "b < n \<Longrightarrow> blk_addr D' q b = blk_addr D q b" .
  have "inj_on (blk_addr D' q) {..<n} = inj_on (blk_addr D q) {..<n}" by (rule inj_on_cong) (simp add: same)
  then show "file_wf start dsz D' q n" using wf same by (simp add: file_wf_def blk_ok_def)
  show "data_blocks D' q n = data_blocks D q n" using same by (auto simp: data_blocks_def)
qed

lemma file_byte_upd:
  assumes wf: "file_wf start dsz D q n" and lo: "lo div BSIZE < n" and len: "lo mod BSIZE + length src \<le> BSIZE"
    and D': "D' = D(unat a := patch_bytes src (lo mod BSIZE) (D (unat a)))" and a: "a = blk_addr D q (lo div BSIZE)"
    and i: "i div BSIZE < n"
  shows "file_byte D' q i = (if lo \<le> i \<and> i < lo + length src then src ! (i - lo) else file_byte D q i)"
proof -
  have same: "blk_addr D' q (i div BSIZE) = blk_addr D q (i div BSIZE)"
    by (rule file_wf_upd(1) [OF wf lo _ i]) (simp add: D' a)
  have fb: "file_byte D' q i = D' (unat (blk_addr D q (i div BSIZE))) (i mod BSIZE)" by (simp only: file_byte_def same)
  have e: "i = i div BSIZE * BSIZE + i mod BSIZE" "lo = lo div BSIZE * BSIZE + lo mod BSIZE" by simp_all
  show ?thesis
  proof (cases "i div BSIZE = lo div BSIZE")
    case True
    have r: "lo \<le> i \<and> i < lo + length src \<longleftrightarrow> lo mod BSIZE \<le> i mod BSIZE \<and> i mod BSIZE < lo mod BSIZE + length src"
      "lo mod BSIZE \<le> i mod BSIZE \<Longrightarrow> i - lo = i mod BSIZE - lo mod BSIZE"
      using e True by (metis add_le_cancel_left add_less_cancel_left group_cancel.add1, metis add_diff_cancel_left)
    have "file_byte D' q i = patch_bytes src (lo mod BSIZE) (D (unat a)) (i mod BSIZE)"
      unfolding fb by (simp add: D' a True)
    then show ?thesis using r True by (auto simp: patch_bytes_def file_byte_def a)
  next
    case False
    have "blk_addr D q (i div BSIZE) \<noteq> a"
      using wf False lo i unfolding a file_wf_def by (auto dest: inj_onD)
    then have "file_byte D' q i = file_byte D q i" unfolding fb by (simp add: D' file_byte_def word_unat_eq_iff)
    moreover have "\<not> (lo \<le> i \<and> i < lo + length src)"
    proof
      assume h: "lo \<le> i \<and> i < lo + length src"
      then have "lo mod BSIZE + (i - lo) < BSIZE" using len by linarith
      from div_mod_within(1) [OF this] h show False using False by simp
    qed
    ultimately show ?thesis by auto
  qed
qed

definition rounds :: "nat \<Rightarrow> nat \<Rightarrow> nat" where
  "rounds off n = (if n = 0 then 0 else (off mod BSIZE + n + (BSIZE - 1)) div BSIZE)"

lemma rounds_step:
  assumes "0 < n" and "unat off + n < 2 ^ 32"
  shows "rounds (unat off) n = Suc (rounds (unat off + chunk n off) (n - chunk n off))"
proof (cases "chunk n off = n")
  case True
  then have "unat off mod BSIZE + n \<le> BSIZE" using chunk_le(2) [of off n] by simp
  then have "(unat off mod BSIZE + n + (BSIZE - 1)) div BSIZE = 1"
    using assms(1) by (intro div_nat_eqI) (simp_all add: BSIZE_def)
  then show ?thesis using True assms(1) by (simp add: rounds_def)
next
  case False
  then have m: "chunk n off = BSIZE - unat off mod BSIZE" "chunk n off < n" by (auto simp: chunk_def min_def)
  have o: "unat off mod BSIZE < BSIZE" by (simp add: BSIZE_def)
  have "unat off + chunk n off = BSIZE * Suc (unat off div BSIZE)"
    using m(1) o mult_div_mod_eq [of BSIZE "unat off"] unfolding mult_Suc_right by linarith
  then have z: "(unat off + chunk n off) mod BSIZE = 0" by simp
  have "unat off mod BSIZE + n + (BSIZE - 1) = (n - chunk n off + (BSIZE - 1)) + BSIZE"
    using m o by simp
  then have "(unat off mod BSIZE + n + (BSIZE - 1)) div BSIZE = Suc ((n - chunk n off + (BSIZE - 1)) div BSIZE)"
    using o by (simp only:) (simp add: BSIZE_def)
  then show ?thesis using z m(2) by (simp add: rounds_def)
qed

definition written :: "nat \<Rightarrow> u8 list \<Rightarrow> disk \<Rightarrow> disk \<Rightarrow> inode \<Rightarrow> nat \<Rightarrow> bool" where
  "written lo src D D' q n =
     ((\<forall>i. i div BSIZE < n \<longrightarrow> file_byte D' q i = (if lo \<le> i \<and> i < lo + length src then src ! (i - lo) else file_byte D q i)) \<and>
      (\<forall>x. x \<notin> data_blocks D q n \<longrightarrow> D' x = D x) \<and> data_blocks D' q n = data_blocks D q n)"

lemma written_step:
  assumes 1: "written lo (take m src) D D1 q n" and 2: "written (lo + m) (drop m src) D1 D2 q n"
    and m: "m \<le> length src"
  shows "written lo src D D2 q n"
  unfolding written_def
proof (intro conjI allI impI)
  fix i assume i: "i div BSIZE < n"
  have "file_byte D2 q i = (if lo + m \<le> i \<and> i < lo + length src then src ! (i - lo) else file_byte D1 q i)"
    using 2 i m by (auto simp: written_def)
  moreover have "file_byte D1 q i = (if lo \<le> i \<and> i < lo + m then src ! (i - lo) else file_byte D q i)"
    using 1 i m by (auto simp: written_def)
  ultimately show "file_byte D2 q i = (if lo \<le> i \<and> i < lo + length src then src ! (i - lo) else file_byte D q i)"
    using m by auto
next
  fix x assume "x \<notin> data_blocks D q n"
  then show "D2 x = D x" using 1 2 by (simp add: written_def)
next
  show "data_blocks D2 q n = data_blocks D q n" using 1 2 by (simp add: written_def)
qed

lemma log_absorb_length: "length (log_absorb a bns) \<le> Suc (length bns)"
  by (simp add: log_absorb_def)

lemma wp_writei_loop:
  assumes "in_trans s start bns" and "icache s ip = q" and "i_dev q = 1"
    and "file_wf start (disksize s) (av (ablk_of s)) q n" and "unat off + length src \<le> n * BSIZE" and "n * BSIZE < 2 ^ 32"
    and "room_for s (length bns + rounds (unat off) (length src))"
    and "\<And>t bns'. in_trans t start bns' \<Longrightarrow> lframe s t \<Longrightarrow> length bns' \<le> length bns + rounds (unat off) (length src) \<Longrightarrow>
      file_wf start (disksize s) (av (ablk_of t)) q n \<Longrightarrow> written (unat off) src (av (ablk_of s)) (av (ablk_of t)) q n \<Longrightarrow> Q () t"
  shows "wp (writei_loop ip src off) Q E s"
  using assms
proof (induction ip src off arbitrary: s bns Q rule: writei_loop.induct)
  case (1 ip src off)
  let ?D = "av (ablk_of s)" and ?m = "chunk (length src) off"
  show ?case
  proof (cases "src = []")
    case True
    have "lframe s s" by (rule lframe_bframe [OF bframe_refl])
    moreover have "written (unat off) src ?D ?D q n" using True by (auto simp: written_def)
    ultimately have "Q () s" using 1(9) [OF 1(2)] 1(5) by simp
    then show ?thesis using True by (simp add: writei_loop.simps wp_simps)
  next
    case False
    define a where "a = blk_addr ?D q (unat off div BSIZE)"
    have m: "?m \<le> length src" "0 < ?m" "unat off mod BSIZE + ?m \<le> BSIZE"
      using chunk_le(1) [of "length src" off] chunk_le(2) [of off "length src"] chunk_pos [of "length src" off] False by simp_all
    have u: "unat (off + of_nat ?m) = unat off + ?m" using m(1) 1(6,7) by (intro unat_add_nowrap) simp
    have r: "rounds (unat off) (length src) = Suc (rounds (unat off + ?m) (length src - ?m))"
      using rounds_step [of "length src" off] False 1(6,7) by simp
    have bn: "unat off div BSIZE < n" using 1(6) m(1,2) by (simp add: div_less_iff_less_mult BSIZE_def)
    have bo: "blk_ok (disksize s) ?D q (unat off div BSIZE)" "unat a \<notin> log_area start"
      using 1(5) bn by (simp_all add: file_wf_def a_def)
    have "wp (writei_step ip (take ?m src) off) (\<lambda>_. wp (writei_loop ip (drop ?m src) (off + of_nat ?m)) Q E) E s"
    proof (rule wp_writei_step [OF 1(2,3,4) bo(1) a_def bo(2)])
      show "room_for s (length bns)" using 1(8) r by (auto simp: room_for_def)
      fix t :: "'a icst_scheme"
      assume t: "in_trans t start (log_absorb a bns)" "lframe s t"
        and D: "av (ablk_of t) = ?D(unat a := patch_bytes (take ?m src) (unat off mod BSIZE) (?D (unat a)))"
      note k = lframe_fs(1) [OF t(2)] lframe_keeps [OF t(2)]
      note up = file_wf_upd [OF 1(5) bn D [unfolded a_def]]
      have w1: "written (unat off) (take ?m src) ?D (av (ablk_of t)) q n"
        unfolding written_def
      proof (intro conjI allI impI)
        fix i assume "i div BSIZE < n"
        from file_byte_upd [OF 1(5) bn _ D a_def this]
        show "file_byte (av (ablk_of t)) q i =
            (if unat off \<le> i \<and> i < unat off + length (take ?m src) then take ?m src ! (i - unat off) else file_byte ?D q i)"
          using m by simp
      next
        fix x assume "x \<notin> data_blocks ?D q n"
        then have "x \<noteq> unat a" using bn by (auto simp: data_blocks_def a_def)
        then show "av (ablk_of t) x = ?D x" by (simp add: D)
      next
        show "data_blocks (av (ablk_of t)) q n = data_blocks ?D q n" by (rule up(3))
      qed
      show "wp (writei_loop ip (drop ?m src) (off + of_nat ?m)) Q E t"
      proof (rule 1(1) [OF False refl t(1)], goal_cases)
        case 6
        then show ?case using 1(8) r log_absorb_length [of a bns] k by (auto simp: room_for_def u)
      next
        case (7 t' bns')
        have "written (unat off) src ?D (av (ablk_of t')) q n"
          by (rule written_step [OF w1 _ m(1)]) (use 7 u in simp)
        then show ?case
          using 7 lframe_trans [OF t(2)] log_absorb_length [of a bns] r k u by (intro 1(9) [of t' bns']) simp_all
      qed (use 1(3-7) k up u m in simp_all)
    qed
    then show ?thesis unfolding writei_loop.simps [of ip src off] Let_def using False by (simp add: wp_bind)
  qed
qed

section \<open>Inodes on disk\<close>

lemma get16_put16 [simp]: "get16 (put16 d i w) i = w"
proof -
  have "ucast (ucast w :: u8) OR push_bit 8 (ucast (ucast (drop_bit 8 w) :: u8)) = (w :: u16)"
    by (rule bit_word_eqI) (auto simp: bit_simps)
  then show ?thesis by (simp add: get16_def put16_def)
qed

lemma get16_put16_other: "i + 2 \<le> j \<or> j + 2 \<le> i \<Longrightarrow> get16 (put16 d i w) j = get16 d j"
  by (auto simp: get16_def put16_def)

lemma get16_put32_other: "i + 4 \<le> j \<or> j + 2 \<le> i \<Longrightarrow> get16 (put32 d i w) j = get16 d j"
  by (auto simp: get16_def put32_def)

lemma put_addrs_other: "i < o' \<or> o' + 4 * (NDIRECT + 1) \<le> i \<Longrightarrow> put_addrs a o' d i = d i"
proof -
  have "i < o' \<or> o' + 4 * n \<le> i \<Longrightarrow> fold (\<lambda>i d. put32 d (o' + 4 * i) (a i)) [0..<n] d i = d i" for n
    by (induction n) (auto simp: put32_def)
  then show "i < o' \<or> o' + 4 * (NDIRECT + 1) \<le> i \<Longrightarrow> ?thesis" by (simp only: put_addrs_def)
qed

lemma get32_put_addrs:
  assumes "k \<le> NDIRECT"
  shows "get32 (put_addrs a o' d) (o' + 4 * k) = a k"
proof -
  have "k < n \<Longrightarrow> get32 (fold (\<lambda>i d. put32 d (o' + 4 * i) (a i)) [0..<n] d) (o' + 4 * k) = a k" for n
  proof (induction n)
    case (Suc n)
    then show ?case by (cases "k = n") (simp_all add: get32_put32_other)
  qed simp
  moreover have "k < NDIRECT + 1" using assms by simp
  ultimately show ?thesis unfolding put_addrs_def by blast
qed

text \<open>The fields that a dinode keeps.\<close>

definition same_dinode :: "inode \<Rightarrow> inode \<Rightarrow> bool" where
  "same_dinode p q =
     (i_type p = i_type q \<and> i_major p = i_major q \<and> i_minor p = i_minor q \<and> i_nlink p = i_nlink q \<and>
      i_size p = i_size q \<and> (\<forall>k \<le> NDIRECT. i_addrs p k = i_addrs q k))"

lemma get_put_addrs_below:
  "j + 2 \<le> o' \<Longrightarrow> get16 (put_addrs a o' d) j = get16 d j" "j + 4 \<le> o' \<Longrightarrow> get32 (put_addrs a o' d) j = get32 d j"
  by (simp_all add: get16_def get32_def put_addrs_other)

lemma load_store_dinode: "same_dinode (load_dinode (store_dinode q o' d) o' p) q"
  by (simp add: same_dinode_def load_dinode_def store_dinode_def get32_put_addrs get_put_addrs_below
      get16_put16_other get16_put32_other)

lemma store_dinode_other: "i < o' \<or> o' + DINODE_SIZE \<le> i \<Longrightarrow> store_dinode q o' d i = d i"
  by (auto simp: store_dinode_def put_addrs_other put16_def put32_def fs_defs)

lemma inode_fields_cache [simp]:
  "cache_ok (upd_inode ip f s) = cache_ok s" "ablk_of (upd_inode ip f s) = ablk_of s"
  "has_buf (upd_inode ip f s) = has_buf s" "quiet (upd_inode ip f s) = quiet s"
  by (rule cache_cong; simp add: upd_inode_def)+

lemma upd_inode_simps [simp]:
  "icache (upd_inode ip f s) = (icache s)(ip := f (icache s ip))" "sb (upd_inode ip f s) = sb s"
  "disksize (upd_inode ip f s) = disksize s" "log_size (upd_inode ip f s) = log_size s"
  "log_outstanding (upd_inode ip f s) = log_outstanding s"
  by (simp_all add: upd_inode_def)

lemma in_trans_inode [simp]:
  "in_trans (upd_inode ip f s) start bns = in_trans s start bns" "room_for (upd_inode ip f s) n = room_for s n"
  by (simp_all add: in_trans_def log_trans_def log_area_ok_def room_for_def) (simp add: upd_inode_def)

definition inode_block :: "'x icst_scheme \<Rightarrow> u32 \<Rightarrow> nat" where
  "inode_block s inum = unat (IBLOCK inum (sb s))"

lemma iupdate_eq:
  "i_dev (icache s ip) = 1 \<Longrightarrow>
   iupdate ip s = update_block (IBLOCK (i_inum (icache s ip)) (sb s), store_dinode (icache s ip) (dinode_off (i_inum (icache s ip)))) s"
  by (simp add: iupdate_def update_block_def)

lemma wp_iupdate:
  assumes tr: "in_trans s start bns" and q: "icache s ip = q" "i_dev q = 1"
    and b: "inode_block s (i_inum q) \<notin> log_area start" "inode_block s (i_inum q) < disksize s" and room: "room_for s (length bns)"
    and Q: "\<And>t. in_trans t start (log_absorb (IBLOCK (i_inum q) (sb s)) bns) \<Longrightarrow> lframe s t \<Longrightarrow>
      av (ablk_of t) = (av (ablk_of s))(inode_block s (i_inum q) :=
        store_dinode q (dinode_off (i_inum q)) (av (ablk_of s) (inode_block s (i_inum q)))) \<Longrightarrow> Q () t"
  shows "wp (iupdate ip) Q E s"
proof -
  let ?u = "(IBLOCK (i_inum q) (sb s), store_dinode q (dinode_off (i_inum q)))"
  have "wp (update_block ?u) Q E s"
    by (rule wp_update_block [OF tr]) (use b room Q in \<open>simp_all add: inode_block_def\<close>)
  then show ?thesis using iupdate_eq [of s ip] q by (simp add: wp_def)
qed

lemma dinode_off_apart:
  assumes "unat inum mod IPB \<noteq> unat inum' mod IPB"
  shows "dinode_off inum' + DINODE_SIZE \<le> dinode_off inum \<or> dinode_off inum + DINODE_SIZE \<le> dinode_off inum'"
proof -
  have "Suc (unat inum' mod IPB) \<le> unat inum mod IPB \<or> Suc (unat inum mod IPB) \<le> unat inum' mod IPB" using assms by linarith
  then show ?thesis unfolding dinode_off_def DINODE_SIZE_def by linarith
qed

lemma load_dinode_frame:
  assumes "unat inum mod IPB \<noteq> unat inum' mod IPB"
  shows "load_dinode (store_dinode q (dinode_off inum) d) (dinode_off inum') p = load_dinode d (dinode_off inum') p"
proof -
  let ?o = "dinode_off inum'"
  have s: "store_dinode q (dinode_off inum) d i = d i" if "?o \<le> i" "i < ?o + DINODE_SIZE" for i
    using dinode_off_apart [OF assms] that by (intro store_dinode_other) linarith
  have g16: "get16 (store_dinode q (dinode_off inum) d) (?o + k) = get16 d (?o + k)" if "k + 2 \<le> DINODE_SIZE" for k
    using that by (simp add: get16_def s)
  have g32: "get32 (store_dinode q (dinode_off inum) d) (?o + k) = get32 d (?o + k)" if "k + 4 \<le> DINODE_SIZE" for k
    using that by (simp add: get32_def s)
  show ?thesis
    using g16 [of 0] g16 [of 2] g16 [of 4] g16 [of 6] g32 [of 8] g32
    by (simp add: load_dinode_def fs_defs add.assoc cong: if_cong)
qed

text \<open>
  C31: \<open>iupdate\<close> writes an inode so that it reads back as it was in memory, and touches no other inode,
  neither in the same block nor elsewhere.
\<close>

theorem iupdate_roundtrip:
  assumes "in_trans s start bns" and "i_dev (icache s ip) = 1" and "inum = i_inum (icache s ip)"
    and "inode_block s inum \<notin> log_area start" and "inode_block s inum < disksize s" and "room_for s (length bns)"
  shows "\<exists>t. iupdate ip s = (Val (), t) \<and>
    same_dinode (load_dinode (av (ablk_of t) (inode_block s inum)) (dinode_off inum) p) (icache s ip) \<and>
    (\<forall>inum'. inode_block s inum' \<noteq> inode_block s inum \<or> unat inum' mod IPB \<noteq> unat inum mod IPB \<longrightarrow>
       load_dinode (av (ablk_of t) (inode_block s inum')) (dinode_off inum') p =
       load_dinode (av (ablk_of s) (inode_block s inum')) (dinode_off inum') p) \<and>
    (\<forall>n. n \<noteq> inode_block s inum \<longrightarrow> av (ablk_of t) n = av (ablk_of s) n)"
proof -
  let ?B = "inode_block s inum" and ?D = "av (ablk_of s)"
  have "wp (iupdate ip) (\<lambda>_ t. av (ablk_of t) = ?D(?B := store_dinode (icache s ip) (dinode_off inum) (?D ?B))) (\<lambda>_ _. False) s"
    by (rule wp_iupdate [OF assms(1) refl assms(2)]) (use assms(3-6) in simp_all)
  then obtain t where t: "iupdate ip s = (Val (), t)" "av (ablk_of t) = ?D(?B := store_dinode (icache s ip) (dinode_off inum) (?D ?B))"
    by (auto simp: wp_returns)
  show ?thesis
  proof (intro exI [of _ t] conjI allI impI)
    fix inum'
    assume n: "inode_block s inum' \<noteq> ?B \<or> unat inum' mod IPB \<noteq> unat inum mod IPB"
    show "load_dinode (av (ablk_of t) (inode_block s inum')) (dinode_off inum') p =
       load_dinode (?D (inode_block s inum')) (dinode_off inum') p"
      using n load_dinode_frame [of inum inum' "icache s ip" "?D ?B" p] by (cases "inode_block s inum' = ?B") (auto simp: t(2))
  qed (simp_all add: t load_store_dinode)
qed

section \<open>Writing a file\<close>

text \<open>The inode block of the file is on the disk, apart from the log and from the blocks of the file.\<close>

definition inode_apart :: "'x icst_scheme \<Rightarrow> nat \<Rightarrow> inode \<Rightarrow> nat \<Rightarrow> bool" where
  "inode_apart s start q n =
     (inode_block s (i_inum q) \<notin> log_area start \<and> inode_block s (i_inum q) < disksize s \<and>
      inode_block s (i_inum q) \<notin> data_blocks (av (ablk_of s)) q n \<and>
      (NDIRECT < n \<longrightarrow> inode_block s (i_inum q) \<noteq> unat (i_addrs q NDIRECT)))"

lemma file_other_upd:
  assumes wf: "file_wf start dsz D q n" and B: "B \<notin> data_blocks D q n" "NDIRECT < n \<Longrightarrow> B \<noteq> unat (i_addrs q NDIRECT)"
  shows "file_wf start dsz (D(B := d)) q n" and "i div BSIZE < n \<Longrightarrow> file_byte (D(B := d)) q i = file_byte D q i"
proof -
  have same: "blk_addr (D(B := d)) q b = blk_addr D q b" if "b < n" for b
  proof (cases "b < NDIRECT")
    case False
    then have "B \<noteq> unat (i_addrs q NDIRECT)" using B(2) that by simp
    then show ?thesis by (simp add: blk_addr_def)
  qed (simp add: blk_addr_def)
  have "inj_on (blk_addr (D(B := d)) q) {..<n} = inj_on (blk_addr D q) {..<n}" by (rule inj_on_cong) (simp add: same)
  then show "file_wf start dsz (D(B := d)) q n" using wf same by (simp add: file_wf_def blk_ok_def)
  show "file_byte (D(B := d)) q i = file_byte D q i" if "i div BSIZE < n"
  proof -
    have "unat (blk_addr D q (i div BSIZE)) \<noteq> B" using B(1) that by (auto simp: data_blocks_def)
    moreover have "file_byte (D(B := d)) q i = (D(B := d)) (unat (blk_addr D q (i div BSIZE))) (i mod BSIZE)"
      using same [OF that] by (simp only: file_byte_def)
    ultimately show ?thesis by (simp add: file_byte_def)
  qed
qed

lemma blk_addr_size [simp]: "blk_addr D (q\<lparr>i_size := z\<rparr>) = blk_addr D q"
  by (simp add: blk_addr_def fun_eq_iff)

lemma size_indep [simp]:
  "file_byte D (q\<lparr>i_size := z\<rparr>) = file_byte D q" "file_wf st dsz D (q\<lparr>i_size := z\<rparr>) n = file_wf st dsz D q n"
  by (simp_all add: file_byte_def file_wf_def blk_ok_def fun_eq_iff)

definition grown :: "inode \<Rightarrow> u32 \<Rightarrow> nat \<Rightarrow> inode" where
  "grown q off len = (if 0 < len \<and> unat off + len > unat (i_size q) then q\<lparr>i_size := off + of_nat len\<rparr> else q)"

definition content_written :: "nat \<Rightarrow> u8 list \<Rightarrow> disk \<Rightarrow> disk \<Rightarrow> inode \<Rightarrow> nat \<Rightarrow> nat set \<Rightarrow> bool" where
  "content_written lo src D D' q n other =
     ((\<forall>i. i div BSIZE < n \<longrightarrow> file_byte D' q i = (if lo \<le> i \<and> i < lo + length src then src ! (i - lo) else file_byte D q i)) \<and>
      (\<forall>x. x \<notin> data_blocks D q n \<longrightarrow> x \<notin> other \<longrightarrow> D' x = D x))"

lemma wp_kret: "wp (kret x) Q E = Q x"
  by (simp add: fun_eq_iff wp_simps)

lemma wp_writei:
  assumes tr: "in_trans s start bns" and q: "icache s ip = q" "i_dev q = 1" "i_type q \<noteq> T_DEV"
    and wf: "file_wf start (disksize s) (av (ablk_of s)) q n" and off: "off \<le> i_size q" "unat off + length src \<le> n * BSIZE"
    and ap: "inode_apart s start q n" and room: "room_for s (length bns + rounds (unat off) (length src))"
    and Q: "\<And>t bns'. in_trans t start bns' \<Longrightarrow> icache t = (icache s)(ip := grown q off (length src)) \<Longrightarrow>
      file_wf start (disksize s) (av (ablk_of t)) q n \<Longrightarrow> disksize t = disksize s \<Longrightarrow>
      content_written (unat off) src (av (ablk_of s)) (av (ablk_of t)) q n {inode_block s (i_inum q)} \<Longrightarrow>
      Q (int (length src)) t"
  shows "wp (writei ip src off) Q E s"
proof -
  let ?n = "of_nat (length src) :: u32"
  have nb: "n * BSIZE \<le> MAXFILE * BSIZE" using wf by (simp add: file_wf_def)
  then have small: "n * BSIZE < 2 ^ 31" by (simp add: fs_defs)
  have un: "unat ?n = length src" using off(2) small by (simp add: unat_of_nat)
  have sum: "unat (off + ?n) = unat off + length src" using off(2) small by (intro unat_add_nowrap) simp
  have sn: "sint ?n = int (length src)"
  proof -
    have "uint ?n = int (length src)" using arg_cong [OF un, of int] by simp
    then show ?thesis using off(2) small by (simp only: sint_cases) simp
  qed
  have le: "\<not> off > i_size q" "\<not> off + ?n < off" "\<not> unat (off + ?n) > MAXFILE * BSIZE"
    using off(1) order_trans [OF off(2) nb] sum by (simp_all add: not_less word_le_nat_alt word_less_nat_alt)
  let ?tail = "kbind (kget (\<lambda>s. i_size (icache s ip))) (\<lambda>isz.
       kthen (kwhen (?n > 0 \<and> off + ?n > isz) (kthen (kmod (upd_inode ip (\<lambda>q. q\<lparr>i_size := off + ?n\<rparr>))) (iupdate ip))) (kret (int (length src))))"
  have e: "writei ip src off s = kthen (writei_loop ip src off) ?tail s"
    using q le by (simp add: writei_def Let_def sn)
  have grow: "(?n > 0 \<and> off + ?n > i_size q) = (0 < length src \<and> unat off + length src > unat (i_size q))"
    using sum un by (simp add: word_less_nat_alt)
  have "wp (writei_loop ip src off) (\<lambda>_. wp ?tail Q E) E s"
  proof (rule wp_writei_loop [OF tr q(1,2) wf off(2)])
    show "n * BSIZE < 2 ^ 32" using small by simp
    show "room_for s (length bns + rounds (unat off) (length src))" by (rule room)
    fix t bns'
    assume t: "in_trans t start bns'" "lframe s t" "length bns' \<le> length bns + rounds (unat off) (length src)"
      "file_wf start (disksize s) (av (ablk_of t)) q n" "written (unat off) src (av (ablk_of s)) (av (ablk_of t)) q n"
    note k = lframe_fs [OF t(2)] lframe_keeps [OF t(2)]
    have dbl: "data_blocks (av (ablk_of t)) q n = data_blocks (av (ablk_of s)) q n"
      using t(5) by (simp add: written_def)
    show "wp ?tail Q E t"
    proof (cases "0 < length src \<and> unat off + length src > unat (i_size q)")
      case False
      then have "icache t = (icache s)(ip := grown q off (length src))" using k(1) q(1) by (auto simp: grown_def)
      moreover have "content_written (unat off) src (av (ablk_of s)) (av (ablk_of t)) q n {inode_block s (i_inum q)}"
        using t(5) by (simp add: written_def content_written_def)
      ultimately have "Q (int (length src)) t" using t k by (intro Q)
      then show ?thesis using False grow k(1) q(1) by (auto simp: wp_simps)
    next
      case True
      let ?q = "q\<lparr>i_size := off + ?n\<rparr>"
      let ?u = "upd_inode ip (\<lambda>q. q\<lparr>i_size := off + ?n\<rparr>) t"
      have tu: "in_trans ?u start bns'" using t(1) by simp
      have iu: "icache ?u ip = ?q" using k(1) q(1) by simp
      have B: "inode_block ?u (i_inum ?q) = inode_block s (i_inum q)" by (simp add: inode_block_def k(2))
      have "wp (iupdate ip) (\<lambda>_. Q (int (length src))) E ?u"
      proof (rule wp_iupdate [OF tu iu], goal_cases)
        case (5 v)
        note kv = lframe_fs [OF 5(2)] lframe_keeps [OF 5(2)]
        have D: "av (ablk_of v) = (av (ablk_of t))(inode_block s (i_inum q) :=
            store_dinode ?q (dinode_off (i_inum q)) (av (ablk_of t) (inode_block s (i_inum q))))"
          using 5(3) B by simp
        have o: "file_wf start (disksize s) (av (ablk_of v)) q n"
          "\<And>i. i div BSIZE < n \<Longrightarrow> file_byte (av (ablk_of v)) q i = file_byte (av (ablk_of t)) q i"
          unfolding D using file_other_upd [OF t(4)] ap dbl by (simp_all add: inode_apart_def)
        show ?case
        proof (rule Q [OF 5(1) _ o(1)])
          show "icache v = (icache s)(ip := grown q off (length src))" using kv(1) k(1) True q(1) by (simp add: grown_def)
          show "disksize v = disksize s" using kv k by simp
          show "content_written (unat off) src (av (ablk_of s)) (av (ablk_of v)) q n {inode_block s (i_inum q)}"
            using t(5) o(2) by (simp add: written_def content_written_def D)
        qed
      qed (use t(1,3) q(2) room k ap B in \<open>auto simp: inode_apart_def room_for_def\<close>)
      then show ?thesis using True grow k(1) q(1) by (simp add: wp_simps wp_kret)
    qed
  qed
  then show ?thesis unfolding wp_def e by (simp add: wp_def kbind_def split: prod.splits outcome.splits)
qed

section \<open>Reading a file back\<close>

definition file_content :: "disk \<Rightarrow> inode \<Rightarrow> u8 list" where
  "file_content D q = map (file_byte D q) [0..<unat (i_size q)]"

definition patched :: "nat \<Rightarrow> u8 list \<Rightarrow> u8 list \<Rightarrow> u8 list" where
  "patched off src c = take off c @ src @ drop (off + length src) c"

lemma readi_whole:
  assumes r: "can_read s" and q: "icache s ip = q" "i_dev q = 1" "i_type q \<noteq> T_DEV"
    and wf: "file_wf start (disksize s) (av (ablk_of s)) q n" and sz: "unat (i_size q) \<le> n * BSIZE"
  shows "\<exists>t. readi ip 0 (i_size q) s =
    (Val (int (unat (i_size q)), file_content (av (ablk_of s)) q), t) \<and> same_view s t"
proof -
  have n: "n * BSIZE \<le> MAXFILE * BSIZE" using wf by (simp add: file_wf_def)
  have "range_ok (disksize s) (av (ablk_of s)) q (unat 0) (unat (i_size q))"
    using wf less_mult_imp_div_less [OF less_le_trans [OF _ sz]] by (simp add: range_ok_def file_wf_def)
  then show ?thesis
    using readi_content [OF r q, of 0 "i_size q" "unat (i_size q)"] order_trans [OF sz n] unsigned_less [of "i_size q"]
    by (simp add: file_content_def)
qed

lemma grown_simps [simp]:
  "i_dev (grown q off k) = i_dev q" "i_type (grown q off k) = i_type q" "file_byte D (grown q off k) = file_byte D q"
  "file_wf st dsz D (grown q off k) n = file_wf st dsz D q n"
  by (simp_all add: grown_def)

lemma unat_grown:
  assumes "unat off \<le> unat (i_size q)" and "unat off + k < 2 ^ 32"
  shows "unat (i_size (grown q off k)) = max (unat (i_size q)) (unat off + k)"
  using assms unat_add_nowrap [of off k] by (simp add: grown_def)

lemma content_patched:
  assumes cw: "content_written (unat off) src D D' q n B" and off: "unat off \<le> unat (i_size q)"
    and fit: "unat off + length src \<le> n * BSIZE" "unat (i_size q) \<le> n * BSIZE" "n * BSIZE < 2 ^ 32"
  shows "file_content D' (grown q off (length src)) = patched (unat off) src (file_content D q)"
proof (rule nth_equalityI)
  have g: "unat (i_size (grown q off (length src))) = max (unat (i_size q)) (unat off + length src)"
    using off fit by (intro unat_grown) simp_all
  show len: "length (file_content D' (grown q off (length src))) = length (patched (unat off) src (file_content D q))"
    using off by (simp add: file_content_def patched_def g max_def)
  fix i assume "i < length (file_content D' (grown q off (length src)))"
  then have i: "i < max (unat (i_size q)) (unat off + length src)" by (simp add: file_content_def g)
  then have "i < n * BSIZE" using fit by (simp add: max_def split: if_splits)
  then have "file_byte D' q i = (if unat off \<le> i \<and> i < unat off + length src then src ! (i - unat off) else file_byte D q i)"
    using cw less_mult_imp_div_less by (simp add: content_written_def)
  then show "file_content D' (grown q off (length src)) ! i = patched (unat off) src (file_content D q) ! i"
    using i off by (auto simp: file_content_def patched_def g nth_append)
qed

text \<open>
  C2: Inside a transaction with room in the log, writing into the allocated blocks of a file and
  reading the whole file gives the old content with the written bytes in their place, longer when
  the write went past the end; no block other than those of the file and its inode changes.
\<close>

theorem writei_readi:
  assumes tr: "in_trans s start bns" and q: "icache s ip = q" "i_dev q = 1" "i_type q \<noteq> T_DEV"
    and wf: "file_wf start (disksize s) (av (ablk_of s)) q n" and sz: "unat (i_size q) \<le> n * BSIZE"
    and off: "off \<le> i_size q" "unat off + length src \<le> n * BSIZE"
    and ap: "inode_apart s start q n" and room: "room_for s (length bns + rounds (unat off) (length src))"
  shows "\<exists>c t. fst (readi ip 0 (i_size q) s) = Val (int (length c), c) \<and>
    writei ip src off s = (Val (int (length src)), t) \<and>
    fst (readi ip 0 (i_size (icache t ip)) t) = Val (int (length (patched (unat off) src c)), patched (unat off) src c) \<and>
    (\<forall>x. x \<notin> data_blocks (av (ablk_of s)) q n \<union> {inode_block s (i_inum q)} \<longrightarrow> av (ablk_of t) x = av (ablk_of s) x)"
proof -
  let ?D = "av (ablk_of s)" and ?q = "grown q off (length src)"
  let ?c = "file_content ?D q"
  have nb: "n * BSIZE < 2 ^ 32" using wf by (simp add: file_wf_def fs_defs)
  have o: "unat off \<le> unat (i_size q)" using off(1) by (simp add: word_le_nat_alt)
  have "wp (writei ip src off) (\<lambda>v t. v = int (length src) \<and> (\<exists>bns'. in_trans t start bns') \<and> icache t ip = ?q \<and>
      file_wf start (disksize t) (av (ablk_of t)) q n \<and>
      content_written (unat off) src ?D (av (ablk_of t)) q n {inode_block s (i_inum q)}) (\<lambda>_ _. False) s"
    by (rule wp_writei [OF tr q wf off ap room]) auto
  then obtain t bns' where t: "writei ip src off s = (Val (int (length src)), t)" "in_trans t start bns'" "icache t ip = ?q"
    "file_wf start (disksize t) (av (ablk_of t)) ?q n"
    "content_written (unat off) src ?D (av (ablk_of t)) q n {inode_block s (i_inum q)}"
    by (auto simp: wp_returns)
  have sg: "unat (i_size ?q) \<le> n * BSIZE" using unat_grown [OF o] off(2) nb sz by simp
  have pc: "file_content (av (ablk_of t)) ?q = patched (unat off) src ?c"
    using content_patched [OF t(5) o off(2) sz nb] .
  have len: "unat (i_size ?q) = length (patched (unat off) src ?c)"
    unfolding pc [symmetric] by (simp add: file_content_def)
  obtain u where u: "readi ip 0 (i_size q) s = (Val (int (unat (i_size q)), ?c), u)"
    using readi_whole [OF in_trans_read [OF tr] q wf sz] by blast
  obtain u' where u': "readi ip 0 (i_size ?q) t = (Val (int (unat (i_size ?q)), file_content (av (ablk_of t)) ?q), u')"
    using readi_whole [OF in_trans_read [OF t(2)] t(3) _ _ t(4) sg] q by auto
  show ?thesis
  proof (intro exI [of _ ?c] exI [of _ t] conjI)
    show "fst (readi ip 0 (i_size q) s) = Val (int (length ?c), ?c)" by (simp add: u file_content_def)
    show "fst (readi ip 0 (i_size (icache t ip)) t) = Val (int (length (patched (unat off) src ?c)), patched (unat off) src ?c)"
      unfolding t(3) u' using len pc by simp
    show "\<forall>x. x \<notin> data_blocks ?D q n \<union> {inode_block s (i_inum q)} \<longrightarrow> av (ablk_of t) x = ?D x"
      using t(5) by (simp add: content_written_def)
  qed (rule t(1))
qed

section \<open>An example file system\<close>

text \<open>Inside a transaction on an empty disk, with one file of three zero bytes in block 100.\<close>

definition trans_ex :: icst where
  "trans_ex = consst.extend ((cons_ex 0)\<lparr>log_start := 2, log_size := 30, log_dev := 1, log_outstanding := 1\<rparr>)
     \<lparr>sb = (sb_of (memdisk log_ex 1))\<lparr>sb_inodestart := 32\<rparr>,
      icache = (\<lambda>_. \<lparr>i_dev = 1, i_inum = 5, i_ref = 1, i_flags = 2, i_type = 2, i_major = 0, i_minor = 0, i_nlink = 1,
        i_size = 3, i_addrs = (\<lambda>k. if k = 0 then 100 else 0)\<rparr>),
      devsw_read = (\<lambda>_. None), devsw_write = (\<lambda>_. None)\<rparr>"

lemma trans_ex_ready:
  "\<exists>s. binit trans_ex = (Val (), s) \<and> in_trans s 2 [] \<and> icache s = icache trans_ex \<and> sb s = sb trans_ex \<and> disksize s = 1000 \<and>
     log_outstanding s = 1 \<and> log_size s = 30 \<and> av (ablk_of s) 100 = (\<lambda>_. 0)"
proof -
  note d = trans_ex_def cons_ex_def consst.defs logst.defs log_ex_def bst.defs
  have "cache_boot log_ex" by (rule log_ex_simps)
  then have b: "cache_boot trans_ex" by (simp add: d cache_boot_def quiet_def can_take_def curproc_def)
  have f: "log_start trans_ex = 2" "log_size trans_ex = 30" "log_dev trans_ex = 1" "log_outstanding trans_ex = 1"
    "lh_n trans_ex = 0" "\<not> log_committing trans_ex" by (simp_all add: d)
  have ds: "disksize trans_ex = 1000" using log_ex_simps(2) by (simp add: d)
  have "wp binit (\<lambda>_ s. in_trans s 2 [] \<and> icache s = icache trans_ex \<and> sb s = sb trans_ex \<and> disksize s = 1000 \<and>
     log_outstanding s = 1 \<and> log_size s = 30 \<and> av (ablk_of s) 100 = (\<lambda>_. 0)) (\<lambda>_ _. False) trans_ex"
  proof (rule wp_mono [OF binit_establishes [OF b]], goal_cases)
    case (1 x s)
    then have fr: "bframe trans_ex s" by simp
    have v: "av (ablk_of s) = memdisk trans_ex" using 1 view_clean [of s] by simp
    have "memdisk trans_ex 100 = (\<lambda>_. 0)" by (simp add: d)
    then show ?case
      using 1 f ds v bframe_log [OF fr] bframe_fs [OF fr] bframe_keeps(1) [OF fr]
      by (simp add: in_trans_def log_trans_def log_area_ok_def homes_ok_def param_defs)
  qed simp
  then show ?thesis by (auto simp: wp_returns)
qed

lemma trans_ex_file:
  assumes "icache s = icache trans_ex" and "sb s = sb trans_ex" and "disksize s = 1000"
  shows "icache s 0 = icache trans_ex 0" "i_dev (icache trans_ex 0) = 1" "i_type (icache trans_ex 0) = 2"
    "i_size (icache trans_ex 0) = 3" "i_inum (icache trans_ex 0) = 5" "inode_block s 5 = 32"
    "file_wf 2 (disksize s) D (icache trans_ex 0) 1" "data_blocks D (icache trans_ex 0) 1 = {100}"
    "blk_addr D (icache trans_ex 0) 0 = 100"
  using assms by (simp_all add: trans_ex_def consst.defs inode_block_def IBLOCK_def fs_defs file_wf_def blk_ok_def
      blk_addr_def log_area_def data_blocks_def param_defs lessThan_Suc)

theorem writei_readi_witness:
  "\<exists>s t. binit trans_ex = (Val (), s) \<and> writei 0 [7, 8] 2 s = (Val 2, t) \<and>
     fst (readi 0 0 (i_size (icache t 0)) t) = Val (4, [0, 0, 7, 8])"
proof -
  obtain s where s: "binit trans_ex = (Val (), s)" "in_trans s 2 []" "icache s = icache trans_ex" "sb s = sb trans_ex"
    "disksize s = 1000" "log_outstanding s = 1" "log_size s = 30" "av (ablk_of s) 100 = (\<lambda>_. 0)"
    using trans_ex_ready by blast
  note f = trans_ex_file [OF s(3-5)]
  have td: "i_type (icache trans_ex 0) \<noteq> T_DEV" by (simp add: f T_DEV_def)
  have "file_byte (av (ablk_of s)) (icache trans_ex 0) i = 0" if "i < 3" for i
    using that s(8) f(9) by (simp add: file_byte_def BSIZE_def)
  then have "map (file_byte (av (ablk_of s)) (icache trans_ex 0)) [0..<3] = [0, 0, 0]"
    by (simp add: upt_conv_Cons)
  then have r: "fst (readi 0 0 (i_size (icache trans_ex 0)) s) = Val (3, [0, 0, 0])"
    using readi_whole [OF in_trans_read [OF s(2)] f(1,2) td f(7)]
    by (auto simp: file_content_def f BSIZE_def)
  have "\<exists>c t. fst (readi 0 0 (i_size (icache trans_ex 0)) s) = Val (int (length c), c) \<and>
    writei 0 [7, 8] 2 s = (Val (int (length [7, 8 :: u8])), t) \<and>
    fst (readi 0 0 (i_size (icache t 0)) t) = Val (int (length (patched (unat (2 :: u32)) [7, 8] c)), patched (unat (2 :: u32)) [7, 8] c) \<and>
    (\<forall>x. x \<notin> data_blocks (av (ablk_of s)) (icache trans_ex 0) 1 \<union> {inode_block s (i_inum (icache trans_ex 0))} \<longrightarrow> av (ablk_of t) x = av (ablk_of s) x)"
    by (rule writei_readi [OF s(2) f(1,2) td f(7)])
      (simp_all add: f f(8) [unfolded One_nat_def] s inode_apart_def room_for_def rounds_def log_area_def fs_defs param_defs)
  then show ?thesis using s(1) r by (auto simp: patched_def)
qed

theorem iupdate_roundtrip_witness:
  "\<exists>s t. binit trans_ex = (Val (), s) \<and> iupdate 0 s = (Val (), t) \<and>
     i_size (load_dinode (av (ablk_of t) 32) (dinode_off 5) (icache s 1)) = 3"
proof -
  obtain s where s: "binit trans_ex = (Val (), s)" "in_trans s 2 []" "icache s = icache trans_ex" "sb s = sb trans_ex"
    "disksize s = 1000" "log_outstanding s = 1" "log_size s = 30"
    using trans_ex_ready by blast
  note f = trans_ex_file [OF s(3-5)]
  have p: "i_dev (icache s 0) = 1" "5 = i_inum (icache s 0)" "inode_block s 5 \<notin> log_area 2" "inode_block s 5 < disksize s"
    "room_for s (length ([] :: u32 list))"
    using s f by (simp_all add: room_for_def log_area_def param_defs)
  show ?thesis
    using iupdate_roundtrip [OF s(2) p, of "icache s 1"] s(1,3) f(4,6) by (auto simp: same_dinode_def)
qed

end
