(* ===== verification/Xv6_Umalloc.thy ===== *)
theory Xv6_Umalloc
  imports Xv6_Mmu
begin

text \<open>
  The user-level storage allocator of \<open>umalloc.c\<close>, on the memory of a user process: a circular list
  of free blocks in order of address, each with a header of eight bytes in front.  The lemmas
  \<open>free_ok\<close> and \<open>malloc_loop_ok\<close> say what the operations do to the blocks of the heap.
\<close>

section \<open>Model\<close>

text \<open>
  \<open>u_base\<close> is the address of the static \<open>base\<close>.  Whether the kernel grants the next calls of \<open>sbrk\<close> is the
  list \<open>ugrants\<close>; a call past its end is refused.
\<close>

record ust =
  umem :: "u32 \<Rightarrow> u8"
  ubrk :: u32
  ugrants :: "bool list"
  u_base :: u32
  freep :: u32

definition h_ptr :: "(u32 \<Rightarrow> u8) \<Rightarrow> u32 \<Rightarrow> u32" where
  "h_ptr m p = load32 m p"

definition h_size :: "(u32 \<Rightarrow> u8) \<Rightarrow> u32 \<Rightarrow> u32" where
  "h_size m p = load32 m (p + 4)"

definition put_ptr :: "u32 \<Rightarrow> u32 \<Rightarrow> 'x ust_scheme \<Rightarrow> 'x ust_scheme" where
  "put_ptr p v s = s\<lparr>umem := store32 (umem s) p v\<rparr>"

definition put_size :: "u32 \<Rightarrow> u32 \<Rightarrow> 'x ust_scheme \<Rightarrow> 'x ust_scheme" where
  "put_size p v s = s\<lparr>umem := store32 (umem s) (p + 4) v\<rparr>"

text \<open>
  The system call \<open>sbrk\<close>: the break moves by \<open>n\<close> bytes, up to \<open>KERNBASE\<close>, or the call returns \<open>-1\<close>.
\<close>

definition sbrk :: "u32 \<Rightarrow> ('x ust_scheme, u32) K" where
  "sbrk n =
     kbind (kget ugrants) (\<lambda>g.
     kthen (kmod (\<lambda>s. s\<lparr>ugrants := tl g\<rparr>))
     (kbind (kget ubrk) (\<lambda>addr.
      if g \<noteq> [] \<and> hd g \<and> (sint n < 0 \<or> addr + n < KERNBASE)
      then kthen (kmod (\<lambda>s. s\<lparr>ubrk := addr + n\<rparr>)) (kret addr) else kret (-1))))"

text \<open>The search for the place of \<open>bp\<close> in the circular list, with fuel.\<close>

fun free_find :: "nat \<Rightarrow> u32 \<Rightarrow> u32 \<Rightarrow> ('x ust_scheme, u32) K" where
  "free_find 0 bp p = kfail Diverges"
| "free_find (Suc n) bp p =
     kbind (kget (\<lambda>s. h_ptr (umem s) p)) (\<lambda>nx.
     if bp > p \<and> bp < nx then kret p
     else if p \<ge> nx \<and> (bp > p \<or> bp < nx) then kret p
     else free_find n bp nx)"

definition free_join_next :: "u32 \<Rightarrow> u32 \<Rightarrow> ('x ust_scheme, unit) K" where
  "free_join_next bp p =
     kbind (kget umem) (\<lambda>m.
     let nx = h_ptr m p in
     if bp + 8 * h_size m bp = nx
     then kthen (kmod (put_size bp (h_size m bp + h_size m nx))) (kmod (\<lambda>s. put_ptr bp (h_ptr (umem s) nx) s))
     else kmod (put_ptr bp nx))"

definition free_join_prev :: "u32 \<Rightarrow> u32 \<Rightarrow> ('x ust_scheme, unit) K" where
  "free_join_prev bp p =
     kbind (kget umem) (\<lambda>m.
     if p + 8 * h_size m p = bp
     then kthen (kmod (put_size p (h_size m p + h_size m bp))) (kmod (\<lambda>s. put_ptr p (h_ptr (umem s) bp) s))
     else kmod (put_ptr p bp))"

definition free :: "nat \<Rightarrow> u32 \<Rightarrow> ('x ust_scheme, unit) K" where
  "free fuel ap =
     (let bp = ap - 8 in
     kbind (kget freep) (\<lambda>fp.
     kbind (free_find fuel bp fp) (\<lambda>p.
     kthen (free_join_next bp p)
     (kthen (free_join_prev bp p)
     (kmod (\<lambda>s. s\<lparr>freep := p\<rparr>))))))"

definition morecore :: "nat \<Rightarrow> u32 \<Rightarrow> ('x ust_scheme, u32) K" where
  "morecore fuel nu =
     (let nu = (if nu < 4096 then 4096 else nu) in
     kbind (sbrk (nu * 8)) (\<lambda>p.
     if p = -1 then kret 0
     else
     kthen (kmod (put_size p nu))
     (kthen (free fuel (p + 8))
     (kget freep))))"

definition malloc_take :: "u32 \<Rightarrow> u32 \<Rightarrow> u32 \<Rightarrow> ('x ust_scheme, u32) K" where
  "malloc_take nunits prevp p =
     kbind (kget umem) (\<lambda>m.
     kbind (if h_size m p = nunits then kthen (kmod (put_ptr prevp (h_ptr m p))) (kret p)
            else let sz = h_size m p - nunits; q = p + 8 * sz in
              kthen (kmod (put_size p sz)) (kthen (kmod (put_size q nunits)) (kret q))) (\<lambda>q.
     kthen (kmod (\<lambda>s. s\<lparr>freep := prevp\<rparr>)) (kret (q + 8))))"

fun malloc_loop :: "nat \<Rightarrow> nat \<Rightarrow> u32 \<Rightarrow> u32 \<Rightarrow> u32 \<Rightarrow> ('x ust_scheme, u32) K" where
  "malloc_loop 0 fuel nunits prevp p = kfail Diverges"
| "malloc_loop (Suc n) fuel nunits prevp p =
     kbind (kget (\<lambda>s. h_size (umem s) p)) (\<lambda>sz.
     if sz \<ge> nunits then malloc_take nunits prevp p
     else
     kbind (kget freep) (\<lambda>fp.
     if p = fp
     then kbind (morecore fuel nunits) (\<lambda>p.
       if p = 0 then kret 0
       else kbind (kget (\<lambda>s. h_ptr (umem s) p)) (malloc_loop n fuel nunits p))
     else kbind (kget (\<lambda>s. h_ptr (umem s) p)) (malloc_loop n fuel nunits p)))"

definition malloc :: "nat \<Rightarrow> u32 \<Rightarrow> ('x ust_scheme, u32) K" where
  "malloc fuel nbytes =
     (let nunits = (nbytes + 8 - 1) div 8 + 1 in
     kthen (kbind (kget freep) (\<lambda>fp.
       kwhen (fp = 0)
        (kthen (kmod (\<lambda>s. (put_ptr (u_base s) (u_base s) s)\<lparr>freep := u_base s\<rparr>))
         (kmod (\<lambda>s. put_size (u_base s) 0 s)))))
     (kbind (kget freep) (\<lambda>prevp.
      kbind (kget (\<lambda>s. h_ptr (umem s) prevp)) (malloc_loop fuel fuel nunits prevp))))"

section \<open>Headers\<close>

definition header_at :: "u32 \<Rightarrow> bool" where
  "header_at a = (word_aligned a \<and> unat a + 8 \<le> 2 ^ 32)"

definition hdr_apart :: "u32 \<Rightarrow> u32 \<Rightarrow> bool" where
  "hdr_apart a b = (unat a + 8 \<le> unat b \<or> unat b + 8 \<le> unat a)"

lemma unat_add4: "header_at a \<Longrightarrow> unat (a + 4) = unat a + 4"
  using unat_add_nowrap [of a 4] by (simp add: header_at_def)

lemma header_words:
  assumes "header_at a"
  shows "word_aligned a" "word_aligned (a + 4)" "word_of (a + 4) \<noteq> word_of a"
proof -
  have al: "unat a mod 4 = 0" using assms by (simp add: header_at_def word_aligned_unat)
  then show "word_aligned a" "word_aligned (a + 4)" by (simp_all add: word_aligned_unat unat_add4 [OF assms])
  show "word_of (a + 4) \<noteq> word_of a" using al by (simp add: word_of_eq unat_add4 [OF assms])
qed

lemma header_words_apart:
  assumes "header_at a" and "header_at b" and "hdr_apart a b"
  shows "word_of a \<noteq> word_of b" "word_of (a + 4) \<noteq> word_of b" "word_of a \<noteq> word_of (b + 4)" "word_of (a + 4) \<noteq> word_of (b + 4)"
proof -
  have d: "x div 4 \<noteq> y div 4" if "x + 4 \<le> y \<or> y + 4 \<le> x" for x y :: nat using that by auto
  have h: "unat a + 8 \<le> unat b \<or> unat b + 8 \<le> unat a" using assms(3) by (simp add: hdr_apart_def)
  show "word_of a \<noteq> word_of b" "word_of (a + 4) \<noteq> word_of b" "word_of a \<noteq> word_of (b + 4)" "word_of (a + 4) \<noteq> word_of (b + 4)"
    unfolding word_of_eq unat_add4 [OF assms(1)] unat_add4 [OF assms(2)] by (rule d, use h in linarith)+
qed

lemma hdr_frame [simp]:
  "ubrk (put_ptr a v s) = ubrk s" "ugrants (put_ptr a v s) = ugrants s" "u_base (put_ptr a v s) = u_base s"
  "freep (put_ptr a v s) = freep s" "ubrk (put_size a v s) = ubrk s" "ugrants (put_size a v s) = ugrants s"
  "u_base (put_size a v s) = u_base s" "freep (put_size a v s) = freep s"
  by (simp_all add: put_ptr_def put_size_def)

lemma put_same [simp]:
  "h_ptr (umem (put_ptr a v s)) a = v" "h_size (umem (put_size a v s)) a = v"
  "header_at a \<Longrightarrow> h_size (umem (put_ptr a v s)) a = h_size (umem s) a"
  "header_at a \<Longrightarrow> h_ptr (umem (put_size a v s)) a = h_ptr (umem s) a"
  using header_words [of a] header_words(3) [of a, symmetric]
  by (simp_all add: h_ptr_def h_size_def put_ptr_def put_size_def load32_store32_other)

lemma put_other [simp]:
  assumes "header_at a" and "header_at b" and "hdr_apart a b"
  shows "h_ptr (umem (put_ptr a v s)) b = h_ptr (umem s) b" "h_size (umem (put_ptr a v s)) b = h_size (umem s) b"
    "h_ptr (umem (put_size a v s)) b = h_ptr (umem s) b" "h_size (umem (put_size a v s)) b = h_size (umem s) b"
  using header_words(1,2) [OF assms(1)] header_words(1,2) [OF assms(2)] header_words_apart [OF assms]
  by (simp_all add: h_ptr_def h_size_def put_ptr_def put_size_def load32_store32_other)

text \<open>A store into a header changes only its eight bytes.\<close>

lemma word_outside:
  assumes "header_at a" and "unat x < unat a \<or> unat a + 8 \<le> unat x"
  shows "word_of x \<noteq> word_of a" "word_of x \<noteq> word_of (a + 4)"
proof -
  have al: "unat a mod 4 = 0" using assms(1) by (simp add: header_at_def word_aligned_unat)
  have d: "y div 4 \<noteq> z div 4" if "z mod 4 = 0" "y < z \<or> z + 4 \<le> y" for y z :: nat
    using that div_mult_mod_eq [of z 4] div_mult_mod_eq [of y 4] mod_less_divisor [of 4 y] by linarith
  have "unat x div 4 \<noteq> unat a div 4" "unat x div 4 \<noteq> (unat a + 4) div 4" using al assms(2) by (auto intro!: d)
  then show "word_of x \<noteq> word_of a" "word_of x \<noteq> word_of (a + 4)" by (simp_all add: word_of_eq unat_add4 [OF assms(1)])
qed

lemma put_byte [simp]:
  assumes "header_at a" and "unat x < unat a \<or> unat a + 8 \<le> unat x"
  shows "umem (put_ptr a v s) x = umem s x" "umem (put_size a v s) x = umem s x"
  using word_outside [OF assms] header_words [OF assms(1)] by (simp_all add: put_ptr_def put_size_def store32_other)

section \<open>The free list\<close>

text \<open>A block is the address of its header and its size in units of eight bytes.\<close>

type_synonym ublk = "u32 \<times> nat"

definition ub_end :: "ublk \<Rightarrow> nat" where
  "ub_end b = unat (fst b) + 8 * snd b"

definition apart :: "ublk \<Rightarrow> ublk \<Rightarrow> bool" where
  "apart x y = (ub_end x \<le> unat (fst y) \<or> ub_end y \<le> unat (fst x))"

definition chain :: "(u32 \<Rightarrow> u8) \<Rightarrow> u32 list \<Rightarrow> bool" where
  "chain m = successively (\<lambda>x y. h_ptr m x = y)"

lemma chain_simps [simp]:
  "chain m []" "chain m [x]" "chain m (x # y # xs) = (h_ptr m x = y \<and> chain m (y # xs))"
  by (simp_all add: chain_def)

lemma chain_append: "chain m (xs @ y # ys) = (chain m (xs @ [y]) \<and> chain m (y # ys))"
  by (induction xs rule: induct_list012) auto

lemma chain_cong:
  "(\<And>a. a \<in> set (butlast xs) \<Longrightarrow> h_ptr m a = h_ptr m' a) \<Longrightarrow> chain m xs = chain m' xs"
  by (induction xs rule: induct_list012) auto

lemma chain_snoc: "xs \<noteq> [] \<Longrightarrow> chain m (xs @ [y]) = (chain m xs \<and> h_ptr m (last xs) = y)"
  by (auto simp: chain_def successively_append_iff)

lemma chain_prefix: "chain m (xs @ ys) \<Longrightarrow> chain m xs"
  by (simp add: chain_def successively_append_iff)

definition block_in :: "nat \<Rightarrow> nat \<Rightarrow> ublk \<Rightarrow> bool" where
  "block_in lo hi x = (word_aligned (fst x) \<and> 0 < snd x \<and> lo \<le> unat (fst x) \<and> ub_end x \<le> hi)"

text \<open>The free blocks \<open>F\<close> in order of address and the blocks in use \<open>L\<close>.\<close>

definition heap_inv :: "'x ust_scheme \<Rightarrow> ublk list \<Rightarrow> ublk list \<Rightarrow> bool" where
  "heap_inv s F L =
     (header_at (u_base s) \<and> 0 < unat (u_base s) \<and> unat (u_base s) + 8 \<le> unat (ubrk s) \<and> word_aligned (ubrk s) \<and>
      ubrk s < KERNBASE \<and>
      sorted_wrt (\<lambda>x y. ub_end x \<le> unat (fst y)) F \<and> sorted_wrt apart L \<and> (\<forall>x \<in> set F. \<forall>y \<in> set L. apart x y) \<and>
      (\<forall>x \<in> set F \<union> set L. block_in (unat (u_base s) + 8) (unat (ubrk s)) x \<and> unat (h_size (umem s) (fst x)) = snd x) \<and>
      chain (umem s) (u_base s # map fst F @ [u_base s]) \<and> h_size (umem s) (u_base s) = 0 \<and>
      freep s \<in> set (u_base s # map fst F))"

lemma unat_blk_end: "unat a + 8 * unat (w :: u32) < 2 ^ 32 \<Longrightarrow> unat (a + 8 * w) = unat a + 8 * unat w"
  using unat_add_nowrap [of a "8 * unat w"] by simp

lemma unat_add_fits: "unat v + unat w < 2 ^ 32 \<Longrightarrow> unat (v + w :: u32) = unat v + unat w"
  using unat_add_nowrap [of v "unat w"] by simp

lemma brk_small: "ubrk s < KERNBASE \<Longrightarrow> unat (ubrk s) < 2 ^ 31"
  by (simp add: word_less_nat_alt KERNBASE_def)

lemma heap_block:
  assumes h: "heap_inv s F L" and x: "x \<in> set F \<union> set L"
  shows "header_at (fst x)" "hdr_apart (u_base s) (fst x)" "u_base s < fst x" "unat (h_size (umem s) (fst x)) = snd x"
    "0 < snd x" "ub_end x \<le> unat (ubrk s)" "ub_end x < 2 ^ 31" "unat (fst x + 8 * h_size (umem s) (fst x)) = ub_end x"
proof -
  have b: "block_in (unat (u_base s) + 8) (unat (ubrk s)) x" "unat (h_size (umem s) (fst x)) = snd x"
    and k: "unat (ubrk s) < 2 ^ 31"
    using h x brk_small by (auto simp: heap_inv_def)
  then show "unat (h_size (umem s) (fst x)) = snd x" "0 < snd x" "ub_end x \<le> unat (ubrk s)" "ub_end x < 2 ^ 31"
    by (auto simp: block_in_def)
  then show "unat (fst x + 8 * h_size (umem s) (fst x)) = ub_end x"
    using unat_blk_end [of "fst x" "h_size (umem s) (fst x)"] by (simp add: ub_end_def)
  show "header_at (fst x)" "hdr_apart (u_base s) (fst x)" "u_base s < fst x"
    using b k by (auto simp: block_in_def header_at_def hdr_apart_def ub_end_def word_less_nat_alt)
qed

lemma heap_apart:
  assumes h: "heap_inv s F L" and xy: "x \<in> set F \<union> set L" "y \<in> set F \<union> set L" "apart x y"
  shows "hdr_apart (fst x) (fst y)"
  using xy(3) heap_block(5) [OF h xy(1)] heap_block(5) [OF h xy(2)] by (auto simp: apart_def ub_end_def hdr_apart_def)

lemma sorted_addrs:
  assumes "heap_inv s F L" shows "sorted_wrt (<) (u_base s # map fst F)"
proof -
  have "sorted_wrt (\<lambda>x y. fst x < fst y) F"
  proof (rule sorted_wrt_mono_rel [of _ "\<lambda>x y. ub_end x \<le> unat (fst y)"])
    fix x y :: ublk assume x: "x \<in> set F" "ub_end x \<le> unat (fst y)"
    then show "fst x < fst y" using heap_block(5) [OF assms, of x] by (simp add: word_less_nat_alt ub_end_def)
  qed (use assms in \<open>simp add: heap_inv_def\<close>)
  then show ?thesis using heap_block(3) [OF assms] by (auto simp: sorted_wrt_map)
qed

subsection \<open>The search of \<open>free\<close>\<close>

lemma find_before:
  assumes "chain (umem s) (p # as @ [e])" and "sorted_wrt (<) (p # as)" and "\<forall>x \<in> set (p # as). x < bp"
    and "bp < e \<or> e \<le> last (p # as)" and "length as < n"
  shows "free_find n bp p s = (Val (last (p # as)), s)"
  using assms
proof (induction as arbitrary: p n)
  case Nil
  then obtain k where "n = Suc k" by (cases n) auto
  then show ?case using Nil by (auto simp: kret_def)
next
  case (Cons a as)
  then obtain k where n: "n = Suc k" "length as < k" by (cases n) auto
  have "\<not> bp < a" "\<not> p \<ge> a" using Cons.prems(2,3) by auto
  then have "free_find n bp p s = free_find k bp a s" using Cons.prems(1) by (simp add: n(1))
  then show ?case using Cons.IH [of a k] Cons.prems n(2) by simp
qed

lemma find_after:
  assumes "chain (umem s) (p # as @ [e])" and "sorted_wrt (<) (p # as)" and "\<forall>x \<in> set (p # as). bp < x" and "e < bp"
  shows "free_find (Suc (length as) + n) bp p s = free_find n bp e s"
  using assms
proof (induction as arbitrary: p)
  case Nil
  then show ?case by auto
next
  case (Cons a as)
  have "\<not> bp > p" "\<not> p \<ge> a" using Cons.prems(2,3) by auto
  then have "free_find (Suc (length (a # as)) + n) bp p s = free_find (Suc (length as) + n) bp a s"
    using Cons.prems(1) by simp
  then show ?case using Cons.IH [of a] Cons.prems by simp
qed

lemma free_find_ok:
  assumes h: "heap_inv s (F1 @ F2) L" and b: "u_base s < b" and 1: "\<forall>x \<in> set F1. fst x < b" and 2: "\<forall>x \<in> set F2. b < fst x"
    and fuel: "length F1 + length F2 + 1 < fuel"
  shows "free_find fuel b (freep s) s = (Val (last (u_base s # map fst F1)), s)"
proof -
  let ?B = "u_base s" and ?m = "umem s"
  define e where "e = hd (map fst F2 @ [?B])"
  have srt: "sorted_wrt (<) (?B # map fst F1)" "sorted_wrt (<) (map fst F2)"
    using sorted_addrs [OF h] by (auto simp: sorted_wrt_append)
  have ch: "chain ?m (?B # map fst F1 @ map fst F2 @ [?B])" using h by (simp add: heap_inv_def)
  have chB: "chain ?m (?B # map fst F1 @ [e])"
  proof (cases F2)
    case Nil then show ?thesis using ch by (simp add: e_def)
  next
    case (Cons y F) then show ?thesis
      using ch chain_append [of ?m "?B # map fst F1" "fst y" "map fst F @ [?B]"] by (simp add: e_def)
  qed
  have e: "b < e \<or> e \<le> last (?B # map fst F1)"
  proof (cases F2)
    case Nil
    then show ?thesis using srt(1) by (cases F1 rule: rev_cases) (auto simp: e_def less_imp_le)
  qed (use 2 in \<open>auto simp: e_def\<close>)
  have base: "free_find n b ?B s = (Val (last (?B # map fst F1)), s)" if "length F1 < n" for n
    by (rule find_before [OF chB srt(1) _ e]) (use b 1 that in auto)
  have "freep s \<in> set (?B # map fst F1) \<union> set (map fst F2)" using h by (auto simp: heap_inv_def)
  then consider "freep s \<in> set (?B # map fst F1)" | "freep s \<in> set (map fst F2)" by blast
  then show ?thesis
  proof cases
    case 1
    then obtain X Y where xy: "?B # map fst F1 = X @ freep s # Y" by (meson split_list)
    have l: "last (freep s # Y) = last (?B # map fst F1)" unfolding xy by simp
    have len: "length Y \<le> length F1" using arg_cong [OF xy, of length] by simp
    have "chain ?m (X @ freep s # Y @ [e])" using chB xy by (metis append_Cons append_assoc)
    then have "chain ?m (freep s # Y @ [e])" using chain_append by blast
    moreover have "sorted_wrt (<) (freep s # Y)" using srt(1) xy by (simp add: sorted_wrt_append)
    moreover have "\<forall>x \<in> set (freep s # Y). x < b"
    proof -
      have "set (freep s # Y) \<subseteq> set (?B # map fst F1)" unfolding xy by auto
      then show ?thesis using b assms(3) by auto
    qed
    ultimately show ?thesis using find_before [of s "freep s" Y e b fuel] e l len fuel by simp
  next
    case 2
    then obtain X Y where xy: "map fst F2 = X @ freep s # Y" by (meson split_list)
    have len: "length Y < length F2" using arg_cong [OF xy, of length] by simp
    have "chain ?m ((?B # map fst F1 @ X) @ freep s # Y @ [?B])" using ch xy by simp
    then have "chain ?m (freep s # Y @ [?B])" using chain_append by blast
    moreover have "sorted_wrt (<) (freep s # Y)" using srt(2) xy by (simp add: sorted_wrt_append)
    moreover have "\<forall>x \<in> set (freep s # Y). b < x"
    proof -
      have "set (freep s # Y) \<subseteq> set (map fst F2)" unfolding xy by auto
      then show ?thesis using assms(4) by auto
    qed
    ultimately have "free_find (Suc (length Y) + n) b (freep s) s = free_find n b ?B s" for n
      using find_after [OF _ _ _ b] by blast
    from this [of "fuel - Suc (length Y)"] show ?thesis using base len fuel by simp
  qed
qed

subsection \<open>Joining with the neighbours\<close>

definition only_hdr :: "u32 \<Rightarrow> 'x ust_scheme \<Rightarrow> 'x ust_scheme \<Rightarrow> bool" where
  "only_hdr a s t = ((\<exists>m. t = s\<lparr>umem := m\<rparr>) \<and>
     (\<forall>b. header_at b \<and> hdr_apart a b \<longrightarrow> h_ptr (umem t) b = h_ptr (umem s) b \<and> h_size (umem t) b = h_size (umem s) b) \<and>
     (\<forall>x. unat x < unat a \<or> unat a + 8 \<le> unat x \<longrightarrow> umem t x = umem s x))"

lemma only_hdr_put: "header_at a \<Longrightarrow> only_hdr a s (put_ptr a v s)" "header_at a \<Longrightarrow> only_hdr a s (put_size a v s)"
proof -
  have "\<exists>m. put_ptr a v s = s\<lparr>umem := m\<rparr>" "\<exists>m. put_size a v s = s\<lparr>umem := m\<rparr>" by (auto simp: put_ptr_def put_size_def)
  then show "header_at a \<Longrightarrow> only_hdr a s (put_ptr a v s)" "header_at a \<Longrightarrow> only_hdr a s (put_size a v s)"
    by (simp_all add: only_hdr_def)
qed

lemma only_hdr_trans: "only_hdr a s t \<Longrightarrow> only_hdr a t u \<Longrightarrow> only_hdr a s u"
  by (auto simp: only_hdr_def)

lemma only_hdr_fields:
  assumes "only_hdr a s t" shows "u_base t = u_base s" "ubrk t = ubrk s" "freep t = freep s" "ugrants t = ugrants s"
  using assms by (auto simp: only_hdr_def)

lemma chain_head:
  assumes "chain m (p # xs)" and "h_ptr m' p' = h_ptr m p" and "\<And>a. a \<in> set (butlast xs) \<Longrightarrow> h_ptr m' a = h_ptr m a"
  shows "chain m' (p' # xs)"
proof (cases xs)
  case (Cons y ys)
  then have "h_ptr m p = y" "chain m (y # ys)" using assms(1) by simp_all
  moreover have "chain m' (y # ys) = chain m (y # ys)" using assms(3) Cons by (intro chain_cong) simp
  ultimately show ?thesis using assms(2) Cons by simp
qed simp

lemma join_next_ok:
  assumes h: "heap_inv s (F1 @ F2) ((b, n) # L)" and 2: "\<forall>x \<in> set F2. b < fst x"
  shows "\<exists>t n' F2'. free_join_next b (last (u_base s # map fst F1)) s = (Val (), t) \<and> only_hdr b s t \<and>
    (F2' = F2 \<and> n' = n \<or> (\<exists>q k. F2 = (q, k) # F2' \<and> ub_end (b, n) = unat q \<and> n' = n + k)) \<and>
    unat (h_size (umem t) b) = n' \<and> chain (umem t) (b # map fst F2' @ [u_base s])"
proof -
  let ?B = "u_base s" and ?m = "umem s" and ?p = "last (u_base s # map fst F1)"
  note hb = heap_block [OF h, of "(b, n)", simplified]
  have e: "unat (b + 8 * h_size ?m b) = ub_end (b, n)" using hb(8) .
  have ch: "chain ?m ((?B # map fst F1) @ (map fst F2 @ [?B]))" using h by (simp add: heap_inv_def)
  show ?thesis
  proof (cases F2)
    case Nil
    have "h_ptr ?m ?p = ?B" using ch chain_snoc [of "?B # map fst F1" ?m ?B] by (simp add: Nil)
    moreover have "b + 8 * h_size ?m b \<noteq> ?B" using e hb(3) by (auto simp: ub_end_def word_less_nat_alt)
    ultimately have "free_join_next b ?p s = (Val (), put_ptr b ?B s)"
      by (simp add: free_join_next_def Let_def kmod_def)
    then show ?thesis using only_hdr_put(1) [OF hb(1)] hb(1,4) Nil by (intro exI [of _ "put_ptr b ?B s"]) auto
  next
    case (Cons y R)
    obtain q k where y: "y = (q, k)" by force
    have yin: "(q, k) \<in> set (F1 @ F2)" using Cons y by simp
    note hy = heap_block [OF h UnI1 [OF yin], simplified]
    have "apart (q, k) (b, n)" using h yin by (simp add: heap_inv_def)
    then have ap: "hdr_apart b q" using heap_apart [OF h _ UnI1 [OF yin], of "(b, n)"] by (auto simp: apart_def)
    have c2: "chain ?m ((?B # map fst F1) @ [q])" "chain ?m (q # map fst R @ [?B])"
      using ch chain_append [of ?m "?B # map fst F1" q "map fst R @ [?B]"] by (simp_all add: Cons y)
    have pq: "h_ptr ?m ?p = q" using c2(1) chain_snoc [of "?B # map fst F1"] by simp
    have rest: "header_at a" "hdr_apart b a" if "a \<in> set (map fst R)" for a
    proof -
      from that obtain z where "z \<in> set R" "a = fst z" by auto
      then have z: "z \<in> set (F1 @ F2)" "a = fst z" using Cons by simp_all
      show "header_at a" using heap_block(1) [OF h UnI1 [OF z(1)]] z by simp
      have "apart z (b, n)" using h z by (simp add: heap_inv_def)
      then show "hdr_apart b a" using heap_apart [OF h _ UnI1 [OF z(1)], of "(b, n)"] z by (auto simp: apart_def)
    qed
    show ?thesis
    proof (cases "ub_end (b, n) = unat q")
      case True
      then have eq: "b + 8 * h_size ?m b = q" using e by (simp add: word_unat_eq_iff)
      let ?t1 = "put_size b (h_size ?m b + h_size ?m q) s"
      let ?t = "put_ptr b (h_ptr (umem ?t1) q) ?t1"
      have run: "free_join_next b ?p s = (Val (), ?t)" using pq eq by (simp add: free_join_next_def Let_def kmod_def)
      have o: "only_hdr b s ?t" using only_hdr_trans [OF only_hdr_put(2) [OF hb(1)] only_hdr_put(1) [OF hb(1)]] .
      have "ub_end (q, k) < 2 ^ 31" using hy(7) by simp
      then have sz: "unat (h_size (umem ?t) b) = n + k"
        using hb(1,4) hy(4) True by (simp add: unat_add_fits ub_end_def)
      have "chain (umem ?t) (b # map fst R @ [?B])"
        by (rule chain_head [OF c2(2)]) (use rest hb(1) hy(1) ap in \<open>auto simp: butlast_append\<close>)
      then show ?thesis using run o sz True Cons y by (intro exI [of _ ?t] exI [of _ "n + k"] exI [of _ R]) auto
    next
      case False
      then have "b + 8 * h_size ?m b \<noteq> q" using e by auto
      then have run: "free_join_next b ?p s = (Val (), put_ptr b q s)" using pq by (simp add: free_join_next_def Let_def kmod_def)
      have "chain (umem (put_ptr b q s)) (q # map fst R @ [?B])"
        by (rule chain_head [OF c2(2)]) (use rest hb(1) hy(1) ap in \<open>auto simp: butlast_append\<close>)
      then show ?thesis
        using run only_hdr_put(1) [OF hb(1)] hb(1,4) Cons y by (intro exI [of _ "put_ptr b q s"] exI [of _ n] exI [of _ F2]) auto
    qed
  qed
qed

lemma sorted_apart:
  "sorted_wrt (\<lambda>x y. ub_end x \<le> unat (fst y)) F \<Longrightarrow> x \<in> set F \<Longrightarrow> y \<in> set F \<Longrightarrow> x \<noteq> y \<Longrightarrow> apart x y"
  by (induction F) (auto simp: apart_def)

lemma nodes_apart:
  assumes h: "heap_inv s F L" and x: "x \<in> set (u_base s # map fst F)"
  shows "header_at x" "y \<in> set (u_base s # map fst F) \<Longrightarrow> x \<noteq> y \<Longrightarrow> hdr_apart x y" "(b, n) \<in> set L \<Longrightarrow> hdr_apart x b"
    "(b, n) \<in> set L \<Longrightarrow> hdr_apart b x"
proof -
  have B: "header_at (u_base s)" using h by (simp add: heap_inv_def)
  show "header_at x" using x B heap_block(1) [OF h] by auto
  have sym: "hdr_apart c d \<longleftrightarrow> hdr_apart d c" for c d by (auto simp: hdr_apart_def)
  have bF: "hdr_apart (u_base s) (fst v)" if "v \<in> set F \<union> set L" for v using heap_block(2) [OF h that] .
  then have Fb: "hdr_apart (fst v) (u_base s)" if "v \<in> set F" for v using that sym by blast
  have FF: "hdr_apart (fst v) (fst w)" if "v \<in> set F" "w \<in> set F" "fst v \<noteq> fst w" for v w
    using that h by (intro heap_apart [OF h] sorted_apart [of F]) (auto simp: heap_inv_def)
  show "hdr_apart x y" if "y \<in> set (u_base s # map fst F)" "x \<noteq> y"
    using that x bF Fb FF by auto
  show 1: "hdr_apart x b" if "(b, n) \<in> set L"
  proof (cases "x = u_base s")
    case True
    then show ?thesis using bF [of "(b, n)"] that by simp
  next
    case False
    then obtain v where v: "v \<in> set F" "x = fst v" using x by auto
    then have "apart v (b, n)" using h that by (simp add: heap_inv_def)
    then show ?thesis using heap_apart [OF h, of v "(b, n)"] v that by simp
  qed
  then show "hdr_apart b x" if "(b, n) \<in> set L" using sym that by blast
qed

lemma last_notin_butlast: "distinct xs \<Longrightarrow> last xs \<notin> set (butlast xs)"
  by (cases xs rule: rev_cases) auto

lemma join_prev_ok:
  assumes h: "heap_inv s (F1 @ F2) ((b, n) # L)" and 1: "\<forall>x \<in> set F1. fst x < b" and 2: "\<forall>x \<in> set F2. b < fst x"
    and t: "only_hdr b s t" "set F2' \<subseteq> set F2" "unat (h_size (umem t) b) = n'" "chain (umem t) (b # map fst F2' @ [u_base s])"
      "unat b + 8 * n' < 2 ^ 31"
  shows "\<exists>u F'. free_join_prev b (last (u_base s # map fst F1)) t = (Val (), u) \<and> only_hdr (last (u_base s # map fst F1)) t u \<and>
    chain (umem u) (u_base s # map fst F' @ [u_base s]) \<and>
    (F' = F1 @ (b, n') # F2' \<and> h_size (umem u) (last (u_base s # map fst F1)) = h_size (umem s) (last (u_base s # map fst F1)) \<or>
     (\<exists>F q k. F1 = F @ [(q, k)] \<and> ub_end (q, k) = unat b \<and> F' = F @ (q, k + n') # F2' \<and> unat (h_size (umem u) q) = k + n'))"
proof -
  let ?B = "u_base s" and ?m = "umem s" and ?p = "last (u_base s # map fst F1)"
  let ?N = "?B # map fst (F1 @ F2)"
  have ch: "chain ?m ((?B # map fst F1) @ (map fst F2 @ [?B]))" using h by (simp add: heap_inv_def)
  have pN: "?p \<in> set (?B # map fst F1)" by (rule last_in_set) simp
  have sub: "set (?B # map fst F1) \<subseteq> set ?N" by auto
  then have pN': "?p \<in> set ?N" using pN by blast
  note pa = nodes_apart [OF h pN']
  have bin: "(b, n) \<in> set ((b, n) # L)" by simp
  have srt: "sorted_wrt (<) ?N" by (rule sorted_addrs [OF h])
  then have dist: "distinct ?N" by (simp only: strict_sorted_iff)
  have hb: "header_at b" "?B < b" using heap_block(1,3) [OF h, of "(b, n)"] by simp_all
  have sp: "h_size (umem t) ?p = h_size ?m ?p" "\<And>a. a \<in> set ?N \<Longrightarrow> h_ptr (umem t) a = h_ptr ?m a"
    using t(1) pa(1) pa(4) [OF bin] nodes_apart(1,4) [OF h] bin unfolding only_hdr_def by blast+
  have chp: "chain ?m (?B # map fst F1)" using chain_prefix [OF ch] .
  have bl: "set (butlast (?B # map fst F1)) \<subseteq> set ?N - {?p}"
  proof -
    have "distinct (?B # map fst F1)" using dist by simp
    then show ?thesis using last_notin_butlast in_set_butlastD [of _ "?B # map fst F1"] sub by blast
  qed
  have keep: "h_ptr (umem u) a = h_ptr (umem t) a" "h_size (umem u) a = h_size (umem t) a"
    if "only_hdr ?p t u" "a \<in> set ?N - {?p} \<or> a = b" for u a
    using that nodes_apart(1) [OF h, of a] pa(2) [of a] pa(3) [OF bin] hb(1) unfolding only_hdr_def by blast+
  have pre: "chain (umem u) (?B # map fst F1) = chain ?m (?B # map fst F1)" if "only_hdr ?p t u" for u
  proof (rule chain_cong)
    fix a assume "a \<in> set (butlast (?B # map fst F1))"
    then have "a \<in> set ?N - {?p}" using bl by blast
    then show "h_ptr (umem u) a = h_ptr ?m a" using keep(1) [OF that, of a] sp(2) [of a] by simp
  qed
  have F2': "set (map fst F2') \<subseteq> set ?N - {?p}"
  proof -
    have "set (map fst F2') \<subseteq> set (map fst F2)" using image_mono [OF t(2)] by simp
    moreover have "set (map fst F2) \<subseteq> set ?N" by auto
    moreover have "set (map fst F2) \<inter> set (?B # map fst F1) = {}" using dist by auto
    ultimately show ?thesis using pN by blast
  qed
  show ?thesis
  proof (cases "?p + 8 * h_size ?m ?p = b")
    case True
    have "F1 \<noteq> []"
    proof
      assume "F1 = []"
      then have "?B = b" using True h by (simp add: heap_inv_def)
      then show False using hb(2) by simp
    qed
    then obtain F y where "F1 = F @ [y]" by (metis rev_exhaust)
    then obtain q k where F1: "F1 = F @ [(q, k)]" by (cases y) auto
    then have p: "?p = q" by simp
    have qin: "(q, k) \<in> set (F1 @ F2)" using F1 by simp
    note hq = heap_block [OF h UnI1 [OF qin], simplified]
    have e: "ub_end (q, k) = unat b" using True hq(8) p by simp
    let ?u1 = "put_size q (h_size (umem t) q + h_size (umem t) b) t"
    let ?u = "put_ptr q (h_ptr (umem ?u1) b) ?u1"
    have run: "free_join_prev b ?p t = (Val (), ?u)"
      using True sp(1) p by (simp add: free_join_prev_def kmod_def)
    have o: "only_hdr q t ?u" using only_hdr_trans [OF only_hdr_put(2) [OF hq(1)] only_hdr_put(1) [OF hq(1)]] .
    then have o': "only_hdr ?p t ?u" using p by simp
    have sz: "unat (h_size (umem ?u) q) = k + n'"
      using hq(1,4) sp(1) p t(3,5) e by (simp add: unat_add_fits ub_end_def)
    have qb: "hdr_apart q b" using pa(3) [OF bin] p by simp
    have "chain (umem ?u) (q # map fst F2' @ [?B])"
    proof (rule chain_head [OF t(4)])
      show "h_ptr (umem ?u) q = h_ptr (umem t) b" using qb hq(1) hb(1) by simp
      fix a assume "a \<in> set (butlast (map fst F2' @ [?B]))"
      then show "h_ptr (umem ?u) a = h_ptr (umem t) a" using keep(1) [OF o'] F2' by (simp only: butlast_snoc) blast
    qed
    moreover have "chain (umem ?u) (?B # map fst F @ [q])"
    proof -
      have "chain (umem ?u) (?B # map fst F1) = chain ?m (?B # map fst F1)"
        by (rule pre [OF o'])
      then show ?thesis using chp F1 by simp
    qed
    ultimately have "chain (umem ?u) (?B # map fst (F @ (q, k + n') # F2') @ [?B])"
      using chain_append [of "umem ?u" "?B # map fst F" q "map fst F2' @ [?B]"] by simp
    then show ?thesis using run o sz e F1 p by (intro exI [of _ ?u] exI [of _ "F @ (q, k + n') # F2'"]) auto
  next
    case False
    let ?u = "put_ptr ?p b t"
    have o: "only_hdr ?p t ?u" by (rule only_hdr_put(1) [OF pa(1)])
    have run: "free_join_prev b ?p t = (Val (), ?u)" using False sp(1) by (simp add: free_join_prev_def kmod_def)
    have "chain (umem ?u) (?B # map fst F1) = chain ?m (?B # map fst F1)"
      by (rule pre [OF o])
    then have "chain (umem ?u) ((?B # map fst F1) @ [b])" using chp by (subst chain_snoc) simp_all
    moreover have "chain (umem ?u) (b # map fst F2' @ [?B]) = chain (umem t) (b # map fst F2' @ [?B])"
    proof (rule chain_cong)
      fix a assume "a \<in> set (butlast (b # map fst F2' @ [?B]))"
      then have "a = b \<or> a \<in> set (map fst F2')" by (simp add: butlast_append)
      then show "h_ptr (umem ?u) a = h_ptr (umem t) a" using keep(1) [OF o] F2' by blast
    qed
    ultimately have "chain (umem ?u) (?B # map fst (F1 @ (b, n') # F2') @ [?B])"
      using chain_append [of "umem ?u" "?B # map fst F1" b "map fst F2' @ [?B]"] t(4) by simp
    then show ?thesis
      using run o pa(1) sp(1) by (intro exI [of _ ?u] exI [of _ "F1 @ (b, n') # F2'"]) auto
  qed
qed

subsection \<open>What \<open>free\<close> does to the heap\<close>

definition geom :: "nat \<Rightarrow> nat \<Rightarrow> ublk list \<Rightarrow> ublk list \<Rightarrow> bool" where
  "geom lo hi F L =
     (sorted_wrt (\<lambda>x y. ub_end x \<le> unat (fst y)) F \<and> sorted_wrt apart L \<and> (\<forall>x \<in> set F. \<forall>y \<in> set L. apart x y) \<and>
      (\<forall>x \<in> set F \<union> set L. block_in lo hi x))"

lemma heap_inv_geom:
  "heap_inv s F L \<longleftrightarrow>
     header_at (u_base s) \<and> 0 < unat (u_base s) \<and> unat (u_base s) + 8 \<le> unat (ubrk s) \<and> word_aligned (ubrk s) \<and>
     ubrk s < KERNBASE \<and> geom (unat (u_base s) + 8) (unat (ubrk s)) F L \<and>
     (\<forall>x \<in> set F \<union> set L. unat (h_size (umem s) (fst x)) = snd x) \<and>
     chain (umem s) (u_base s # map fst F @ [u_base s]) \<and> h_size (umem s) (u_base s) = 0 \<and>
     freep s \<in> set (u_base s # map fst F)"
  by (auto simp: heap_inv_def geom_def)

lemma geom_insert:
  assumes g: "geom lo hi (F1 @ F2) (x # L)" and 1: "\<forall>y \<in> set F1. fst y < fst x" and 2: "\<forall>y \<in> set F2. fst x < fst y"
  shows "geom lo hi (F1 @ x # F2) L"
proof -
  have ap: "apart y x" "0 < snd y" "0 < snd x" if "y \<in> set (F1 @ F2)" for y
    using g that by (auto simp: geom_def block_in_def)
  have A: "ub_end y \<le> unat (fst x)" if "y \<in> set F1" for y
  proof -
    have "unat (fst y) < unat (fst x)" using 1 that by (simp add: word_less_nat_alt)
    then show ?thesis using ap [of y] that by (auto simp: apart_def ub_end_def)
  qed
  have B: "ub_end x \<le> unat (fst y)" if "y \<in> set F2" for y
  proof -
    have "unat (fst x) < unat (fst y)" using 2 that by (simp add: word_less_nat_alt)
    then show ?thesis using ap [of y] that by (auto simp: apart_def ub_end_def)
  qed
  show ?thesis using g A B by (auto simp: geom_def sorted_wrt_append apart_def)
qed

lemma geom_merge:
  assumes g: "geom lo hi (F1 @ (a, n) # (b, k) # F2) L" and e: "ub_end (a, n) = unat b"
  shows "geom lo hi (F1 @ (a, n + k) # F2) L"
proof -
  have en: "ub_end (a, n + k) = ub_end (b, k)" using e by (simp add: ub_end_def)
  have "apart (a, n + k) y" if "y \<in> set L" for y
  proof -
    have "apart (a, n) y" "apart (b, k) y" "block_in lo hi y" using g that by (simp_all add: geom_def)
    then show ?thesis using e by (auto simp: apart_def ub_end_def block_in_def)
  qed
  moreover have "block_in lo hi (a, n + k)" using g en by (simp add: geom_def block_in_def)
  ultimately show ?thesis using g en by (auto simp: geom_def sorted_wrt_append)
qed

lemma split_at:
  assumes h: "heap_inv s F (x # L)"
  obtains F1 F2 where "F = F1 @ F2" "\<forall>y \<in> set F1. fst y < fst x" "\<forall>y \<in> set F2. fst x < fst y"
proof
  let ?P = "\<lambda>y. fst y < fst x"
  show "F = takeWhile ?P F @ dropWhile ?P F" by simp
  show "\<forall>y \<in> set (takeWhile ?P F). fst y < fst x" by (auto dest: set_takeWhileD)
  show "\<forall>y \<in> set (dropWhile ?P F). fst x < fst y"
  proof (cases "dropWhile ?P F")
    case (Cons z R)
    have z: "\<not> fst z < fst x" using hd_dropWhile [of ?P F] Cons by simp
    have zF: "z \<in> set F" using Cons set_dropWhileD [of z ?P F] by simp
    have "hdr_apart (fst z) (fst x)" using nodes_apart(3) [OF h, of "fst z" "fst x" "snd x"] zF by simp
    then have zx: "fst x < fst z" using z by (auto simp: hdr_apart_def word_less_nat_alt word_unat_eq_iff not_less_iff_gr_or_eq)
    have "sorted_wrt (<) (map fst (takeWhile ?P F @ dropWhile ?P F))" using sorted_addrs [OF h] by simp
    then have "\<forall>y \<in> set R. fst z < fst y" unfolding Cons by (auto simp: sorted_wrt_append)
    then show ?thesis using Cons zx by auto
  next
    case Nil
    show ?thesis unfolding Nil by simp
  qed
qed

text \<open>The bytes that the allocator owns: its own header, the free blocks and the headers of the blocks in use.\<close>

definition owned :: "u32 \<Rightarrow> ublk list \<Rightarrow> ublk list \<Rightarrow> u32 \<Rightarrow> bool" where
  "owned base F L x =
     (unat base \<le> unat x \<and> unat x < unat base + 8 \<or>
      (\<exists>b \<in> set F. unat (fst b) \<le> unat x \<and> unat x < ub_end b) \<or>
      (\<exists>b \<in> set L. unat (fst b) \<le> unat x \<and> unat x < unat (fst b) + 8))"

lemma only_hdr_owned:
  assumes h: "heap_inv s F L" and o: "only_hdr a t u" and a: "a \<in> set (u_base s # map fst F) \<union> fst ` set L" and x: "\<not> owned (u_base s) F L x"
  shows "umem u x = umem t x"
proof -
  have "unat x < unat a \<or> unat a + 8 \<le> unat x"
  proof (rule ccontr)
    assume c: "\<not> ?thesis"
    then have "a \<noteq> u_base s" using x by (auto simp: owned_def)
    then consider y where "y \<in> set F" "a = fst y" | y where "y \<in> set L" "a = fst y" using a by auto
    then show False
    proof cases
      case 1
      then have "unat a + 8 \<le> ub_end y" using heap_block(5) [OF h, of y] by (simp add: ub_end_def)
      then show False using c x 1 by (auto simp: owned_def)
    qed (use c x in \<open>auto simp: owned_def\<close>)
  qed
  then show ?thesis using o unfolding only_hdr_def by blast
qed

lemma free_ok:
  assumes h: "heap_inv s F (x # L)" and fuel: "length F + 1 < fuel"
  shows "\<exists>m fp F'. free fuel (fst x + 8) s = (Val (), s\<lparr>umem := m, freep := fp\<rparr>) \<and> heap_inv (s\<lparr>umem := m, freep := fp\<rparr>) F' L \<and>
    length F' \<le> Suc (length F) \<and> (\<exists>y \<in> set F'. snd x \<le> snd y) \<and> (\<forall>z. \<not> owned (u_base s) F (x # L) z \<longrightarrow> m z = umem s z) \<and>
    (\<forall>z. owned (u_base s) F' L z \<longrightarrow> owned (u_base s) F L z \<or> unat (fst x) \<le> unat z \<and> unat z < ub_end x)"
proof -
  obtain b n where x: "x = (b, n)" by force
  obtain F1 F2 where F: "F = F1 @ F2" and 1: "\<forall>y \<in> set F1. fst y < b" and 2: "\<forall>y \<in> set F2. b < fst y"
    using split_at [OF h] x by (metis fst_conv)
  note h' = h [unfolded F x]
  let ?B = "u_base s" let ?p = "last (?B # map fst F1)"
  have bin: "(b, n) \<in> set ((b, n) # L)" by simp
  note hb = heap_block [OF h', of "(b, n)", simplified]
  have fnd: "free_find fuel b (freep s) s = (Val ?p, s)"
    by (rule free_find_ok [OF h' hb(3) 1 2]) (use fuel F in simp)
  obtain t n' F2' where t: "free_join_next b ?p s = (Val (), t)" "only_hdr b s t"
    "F2' = F2 \<and> n' = n \<or> (\<exists>q k. F2 = (q, k) # F2' \<and> ub_end (b, n) = unat q \<and> n' = n + k)"
    "unat (h_size (umem t) b) = n'" "chain (umem t) (b # map fst F2' @ [?B])"
    using join_next_ok [OF h' 2] by blast
  have g: "geom (unat ?B + 8) (unat (ubrk s)) (F1 @ F2) ((b, n) # L)" using h' by (simp add: heap_inv_geom)
  have g1: "geom (unat ?B + 8) (unat (ubrk s)) (F1 @ (b, n) # F2) L" using geom_insert [OF g] 1 2 by simp
  have g2: "geom (unat ?B + 8) (unat (ubrk s)) (F1 @ (b, n') # F2') L" using t(3) g1 geom_merge by blast
  have sub: "set F2' \<subseteq> set F2" and nn: "n \<le> n'" and len2: "length F2' \<le> length F2" using t(3) by auto
  have k31: "unat (ubrk s) < 2 ^ 31" using h brk_small by (auto simp: heap_inv_def)
  have fits: "unat b + 8 * n' < 2 ^ 31" using g2 k31 by (simp add: geom_def block_in_def ub_end_def)
  obtain u F' where u: "free_join_prev b ?p t = (Val (), u)" "only_hdr ?p t u" "chain (umem u) (?B # map fst F' @ [?B])"
    "F' = F1 @ (b, n') # F2' \<and> h_size (umem u) ?p = h_size (umem s) ?p \<or>
     (\<exists>G q k. F1 = G @ [(q, k)] \<and> ub_end (q, k) = unat b \<and> F' = G @ (q, k + n') # F2' \<and> unat (h_size (umem u) q) = k + n')"
    using join_prev_ok [OF h' 1 2 t(2) sub t(4,5) fits] by blast
  have g3: "geom (unat ?B + 8) (unat (ubrk s)) F' L" using u(4) g2 geom_merge by fastforce
  have pin: "?p \<in> set (?B # map fst F1)" by (rule last_in_set) simp
  have "set (?B # map fst F1) \<subseteq> set (?B # map fst (F1 @ F2))" by auto
  then have pN: "?p \<in> set (?B # map fst (F1 @ F2))" using pin by blast
  note pa = nodes_apart [OF h' pN]
  have keep: "h_size (umem u) a = h_size (umem s) a" if "header_at a" "hdr_apart b a" "hdr_apart ?p a" for a
    using that t(2) u(2) by (simp add: only_hdr_def)
  have pb: "h_size (umem u) b = h_size (umem t) b" using u(2) pa(3) [OF bin] hb(1) by (simp add: only_hdr_def)
  have szL: "unat (h_size (umem u) (fst y)) = snd y" if "y \<in> set L" for y
  proof -
    have "apart (b, n) y" using h' that by (simp add: heap_inv_def)
    then have "hdr_apart b (fst y)" using heap_apart [OF h', of "(b, n)" y] that by simp
    moreover have "hdr_apart ?p (fst y)" using pa(3) [of "fst y" "snd y"] that by simp
    ultimately show ?thesis using keep [of "fst y"] heap_block(1,4) [OF h', of y] that by simp
  qed
  have szF: "unat (h_size (umem u) (fst y)) = snd y" if "y \<in> set (F1 @ F2')" "fst y \<noteq> ?p" for y
  proof -
    have y: "y \<in> set (F1 @ F2)" using that(1) sub by auto
    have yN: "fst y \<in> set (?B # map fst (F1 @ F2))" using imageI [OF y, of fst] by (simp add: image_Un)
    have "hdr_apart b (fst y)" using nodes_apart(4) [OF h' yN bin] .
    moreover have "hdr_apart ?p (fst y)" using pa(2) [OF yN] that(2) by simp
    ultimately show ?thesis using keep [of "fst y"] heap_block(1,4) [OF h' UnI1 [OF y]] by simp
  qed
  have szB: "h_size (umem u) ?B = 0"
  proof (cases "?p = ?B")
    case True
    have "F1 = []"
    proof (rule ccontr)
      assume n0: "F1 \<noteq> []"
      then have l: "last F1 \<in> set (F1 @ F2)" by simp
      have "fst (last F1) = ?B" using True n0 by (simp add: last_map)
      then show False using heap_block(3) [OF h' UnI1 [OF l]] by simp
    qed
    then show ?thesis using u(4) h by (auto simp: heap_inv_def)
  next
    case False
    have "hdr_apart ?p ?B" using pa(2) [of ?B] False by simp
    then show ?thesis using keep [of ?B] h nodes_apart(4) [OF h', of ?B b n] by (simp add: heap_inv_def)
  qed
  have dist: "distinct (map fst (F1 @ F2))" using sorted_addrs [OF h'] by (simp only: strict_sorted_iff) simp
  have szF': "unat (h_size (umem u) (fst y)) = snd y" if y: "y \<in> set F'" for y
    using u(4)
  proof
    assume c: "F' = F1 @ (b, n') # F2' \<and> h_size (umem u) ?p = h_size (umem s) ?p"
    show ?thesis
    proof (cases "y = (b, n')")
      case False
      then have "y \<in> set (F1 @ F2')" using y c by auto
      moreover have "y \<in> set (F1 @ F2)" using calculation sub by auto
      then have "snd y = unat (h_size (umem s) (fst y))" using heap_block(4) [OF h' UnI1] by simp
      ultimately show ?thesis using szF c by (cases "fst y = ?p") auto
    qed (use pb t(4) in simp)
  next
    assume "\<exists>G q k. F1 = G @ [(q, k)] \<and> ub_end (q, k) = unat b \<and> F' = G @ (q, k + n') # F2' \<and> unat (h_size (umem u) q) = k + n'"
    then obtain G q k where c: "F1 = G @ [(q, k)]" "F' = G @ (q, k + n') # F2'" "unat (h_size (umem u) q) = k + n'" by blast
    show ?thesis
    proof (cases "y = (q, k + n')")
      case False
      then have yG: "y \<in> set G \<union> set F2'" using y c by auto
      then have "fst y \<noteq> q" using dist c(1) sub by force
      then show ?thesis using szF [of y] yG c(1) by auto
    qed (use c in simp)
  qed
  obtain m where fin: "u = s\<lparr>umem := m\<rparr>" using t(2) u(2) by (auto simp: only_hdr_def)
  have run: "free fuel (fst x + 8) s = (Val (), s\<lparr>umem := m, freep := ?p\<rparr>)"
    using fnd t(1) u(1) x fin by (simp add: free_def kbind_def kget_def kmod_def)
  have "set (?B # map fst F1) \<subseteq> set (?B # map fst F')" 
    using u(4) by (elim disjE exE conjE) (simp_all only: map_append list.map set_append list.set fst_conv, blast+)
  then have pF: "?p \<in> set (?B # map fst F')" using pin by blast
  have inv: "heap_inv (s\<lparr>umem := m, freep := ?p\<rparr>) F' L"
    using h g3 szF' szL szB u(3) pF fin by (auto simp: heap_inv_geom)
  have big: "\<exists>y \<in> set F'. snd x \<le> snd y" using u(4) x nn by auto
  have len: "length F' \<le> Suc (length F)" using u(4) len2 F by auto
  have "m z = umem s z" if "\<not> owned ?B F (x # L) z" for z
  proof -
    have "umem t z = umem s z" using only_hdr_owned [OF h t(2) _ that] x by simp
    moreover have "umem u z = umem t z" using only_hdr_owned [OF h u(2) UnI1 that] pN F by simp
    ultimately show ?thesis using fin by simp
  qed
  moreover have "owned ?B F L z \<or> unat (fst x) \<le> unat z \<and> unat z < ub_end x" if z: "owned ?B F' L z" for z
  proof -
    have "owned ?B (F1 @ (b, n') # F2') L z" using u(4) z by (elim disjE exE conjE) (auto simp: owned_def ub_end_def)
    then have "owned ?B (F1 @ (b, n) # F2) L z" using t(3) by (elim disjE exE conjE) (auto simp: owned_def ub_end_def)
    then show ?thesis by (auto simp: owned_def F x)
  qed
  ultimately show ?thesis using run inv big len by blast
qed

subsection \<open>Taking a block from the free list\<close>

lemma chain_pred_list:
  assumes ch: "chain m (N @ [b])" and d: "distinct N" and N: "N = X @ q # Y" and pr: "pr \<in> set N" "h_ptr m pr = q" "b \<noteq> q"
  shows "X \<noteq> [] \<and> pr = last X"
proof -
  obtain i where i: "i < length N" "N ! i = pr" using pr(1) in_set_conv_nth [of pr N] by blast
  have "h_ptr m ((N @ [b]) ! i) = (N @ [b]) ! Suc i"
    using ch i(1) unfolding chain_def successively_conv_nth by simp
  then have q: "(N @ [b]) ! Suc i = q" using i pr(2) by (simp add: nth_append)
  have "Suc i \<noteq> length N" using q pr(3) nth_append_length [of N b "[]"] by auto
  then have "N ! Suc i = q" "Suc i < length N" using q i(1) by (auto simp: nth_append)
  then have "Suc i = length X" using nth_eq_iff_index_eq [OF d, of "Suc i" "length X"] N by simp
  then have "i = length X - 1" "X \<noteq> []" by auto
  then show ?thesis using i(2) N by (simp add: nth_append last_conv_nth)
qed

lemma chain_pred:
  assumes h: "heap_inv s (F1 @ (q, n) # F2) L" and pr: "pr \<in> set (u_base s # map fst (F1 @ (q, n) # F2))" "h_ptr (umem s) pr = q"
  shows "pr = last (u_base s # map fst F1)"
proof -
  let ?N = "u_base s # map fst (F1 @ (q, n) # F2)"
  have ch: "chain (umem s) (?N @ [u_base s])" using h by (simp add: heap_inv_def)
  have d: "distinct ?N" using sorted_addrs [OF h] by (simp only: strict_sorted_iff)
  have "u_base s \<noteq> q" using heap_block(3) [OF h, of "(q, n)"] by auto
  then show ?thesis using chain_pred_list [OF ch d _ pr, of "u_base s # map fst F1" "map fst F2"] by simp
qed

lemma geom_take:
  "geom lo hi (F1 @ (p, n) # F2) L \<Longrightarrow> geom lo hi (F1 @ F2) ((p, n) # L)"
  by (auto simp: geom_def sorted_wrt_append apart_def)

lemma geom_cut:
  assumes g: "geom lo hi (F1 @ (p, n) # F2) L" and q: "unat q = unat p + 8 * (n - k)" "word_aligned q" and k: "0 < k" "k < n"
  shows "geom lo hi (F1 @ (p, n - k) # F2) ((q, k) # L)"
proof -
  have e: "ub_end (q, k) = ub_end (p, n)" "ub_end (p, n - k) = unat q" using q(1) k by (simp_all add: ub_end_def)
  have pn: "block_in lo hi (p, n)" using g by (simp add: geom_def)
  then have bl: "block_in lo hi (p, n - k)" "block_in lo hi (q, k)" using e q k by (auto simp: block_in_def ub_end_def)
  have le: "unat p \<le> unat q" "unat q < ub_end (p, n)" using q k by (simp_all add: ub_end_def)
  have L: "apart (p, n - k) y" "apart (q, k) y" if "y \<in> set L" for y
  proof -
    have "apart (p, n) y" using g that by (simp add: geom_def)
    then show "apart (p, n - k) y" "apart (q, k) y" using e le by (auto simp: apart_def)
  qed
  have F1: "ub_end x \<le> unat p" if "x \<in> set F1" for x using g that by (auto simp: geom_def sorted_wrt_append)
  have F2: "ub_end (p, n) \<le> unat (fst x)" if "x \<in> set F2" for x using g that by (auto simp: geom_def sorted_wrt_append)
  have "apart x (q, k)" if x: "x \<in> set (F1 @ (p, n - k) # F2)" for x
  proof -
    consider "x \<in> set F1" | "x = (p, n - k)" | "x \<in> set F2" using x by auto
    then show ?thesis
    proof cases
      case 1 then show ?thesis using F1 [of x] le by (simp add: apart_def)
    next
      case 2 then show ?thesis using e by (simp add: apart_def)
    next
      case 3 then show ?thesis using F2 [of x] e by (simp add: apart_def)
    qed
  qed
  moreover have "sorted_wrt (\<lambda>x y. ub_end x \<le> unat (fst y)) (F1 @ (p, n - k) # F2)"
    using g F1 F2 e le by (auto simp: geom_def sorted_wrt_append) (meson le_trans less_imp_le)+
  ultimately show ?thesis using g bl L unfolding geom_def by auto
qed

lemma malloc_take_ok:
  assumes h: "heap_inv s (F1 @ (p, n) # F2) L" and k: "0 < unat nunits" "unat nunits \<le> n"
  shows "\<exists>m F' q. malloc_take nunits (last (u_base s # map fst F1)) p s =
      (Val (q + 8), s\<lparr>umem := m, freep := last (u_base s # map fst F1)\<rparr>) \<and>
    heap_inv (s\<lparr>umem := m, freep := last (u_base s # map fst F1)\<rparr>) F' ((q, unat nunits) # L) \<and>
    length F' \<le> length (F1 @ (p, n) # F2) \<and> (\<forall>z. \<not> owned (u_base s) (F1 @ (p, n) # F2) L z \<longrightarrow> m z = umem s z)"
proof -
  let ?F = "F1 @ (p, n) # F2" and ?B = "u_base s" let ?pr = "last (?B # map fst F1)"
  have pin: "(p, n) \<in> set ?F" by simp
  note hp = heap_block [OF h UnI1 [OF pin], simplified]
  have prin: "?pr \<in> set (?B # map fst F1)" by (rule last_in_set) simp
  have "set (?B # map fst F1) \<subseteq> set (?B # map fst ?F)" by auto
  then have prN: "?pr \<in> set (?B # map fst ?F)" using prin by blast
  note pa = nodes_apart [OF h prN]
  have ch: "chain (umem s) ((?B # map fst F1) @ p # map fst F2 @ [?B])" using h by (simp add: heap_inv_def)
  have g: "geom (unat ?B + 8) (unat (ubrk s)) ?F L" using h by (simp add: heap_inv_geom)
  have dist: "distinct (?B # map fst ?F)" using sorted_addrs [OF h] by (simp only: strict_sorted_iff)
  show ?thesis
  proof (cases "unat nunits = n")
    case True
    then have eq: "h_size (umem s) p = nunits" using hp(4) by (simp add: word_unat_eq_iff)
    let ?u = "put_ptr ?pr (h_ptr (umem s) p) s"
    have run: "malloc_take nunits ?pr p s = (Val (p + 8), s\<lparr>umem := umem ?u, freep := ?pr\<rparr>)"
      using eq by (simp add: malloc_take_def kbind_def kget_def kmod_def kret_def put_ptr_def)
    have o: "only_hdr ?pr s ?u" by (rule only_hdr_put(1) [OF pa(1)])
    have sz: "h_size (umem ?u) (fst y) = h_size (umem s) (fst y)" if y: "y \<in> set ?F \<union> set L" for y
    proof (cases "fst y = ?pr")
      case False
      have "hdr_apart ?pr (fst y)"
      proof (cases "y \<in> set ?F")
        case True
        then have "fst y \<in> set (?B # map fst ?F)" by auto
        then show ?thesis using pa(2) False by metis
      next
        case False
        then show ?thesis using y pa(3) [of "fst y" "snd y"] by simp
      qed
      then show ?thesis using heap_block(1) [OF h y] pa(1) by simp
    qed (use pa(1) in simp)
    have szB: "h_size (umem ?u) ?B = 0"
    proof (cases "?pr = ?B")
      case False
      then have "hdr_apart ?pr ?B" using pa(2) [of ?B] by simp
      then show ?thesis using h pa(1) by (simp add: heap_inv_def)
    qed (use h pa(1) in \<open>simp add: heap_inv_def\<close>)
    have ptr: "h_ptr (umem ?u) a = h_ptr (umem s) a" if "a \<in> set (?B # map fst ?F) - {?pr}" for a
      using that pa(1) pa(2) [of a] nodes_apart(1) [OF h, of a] by (intro put_other(1)) blast+
    have rest: "chain (umem ?u) (map fst F2 @ [?B])"
    proof -
      have "chain (umem s) (map fst F2 @ [?B])" using ch by (simp add: chain_def successively_append_iff successively_Cons)
      moreover have "chain (umem ?u) (map fst F2 @ [?B]) = chain (umem s) (map fst F2 @ [?B])"
      proof (rule chain_cong)
        fix a assume a: "a \<in> set (butlast (map fst F2 @ [?B]))"
        then have "a \<in> set (map fst F2)" by (simp only: butlast_snoc)
        moreover have "set (map fst F2) \<inter> set (?B # map fst F1) = {}" using dist by auto
        ultimately have "a \<noteq> ?pr" using prin by blast
        moreover have "a \<in> set (?B # map fst ?F)" using \<open>a \<in> set (map fst F2)\<close> by (simp only: map_append list.map set_append list.set) blast
        ultimately show "h_ptr (umem ?u) a = h_ptr (umem s) a" using ptr by blast
      qed
      ultimately show ?thesis by simp
    qed
    have first: "chain (umem ?u) (?B # map fst F1)"
    proof -
      have d1: "distinct (?B # map fst F1)" using dist by simp
      have "chain (umem ?u) (?B # map fst F1) = chain (umem s) (?B # map fst F1)"
      proof (rule chain_cong)
        fix a assume a: "a \<in> set (butlast (?B # map fst F1))"
        then have "a \<noteq> ?pr" using last_notin_butlast [OF d1] by blast
        then show "h_ptr (umem ?u) a = h_ptr (umem s) a"
          using ptr in_set_butlastD [OF a] \<open>set (?B # map fst F1) \<subseteq> _\<close> by blast
      qed
      then show ?thesis using chain_prefix [OF ch] by simp
    qed
    have "h_ptr (umem s) p = hd (map fst F2 @ [?B])"
      using ch by (simp add: chain_def successively_append_iff successively_Cons)
    then have "chain (umem ?u) ((?B # map fst F1) @ (map fst F2 @ [?B]))"
      using first rest unfolding chain_def by (subst successively_append_iff) simp
    then have c: "chain (umem ?u) (?B # map fst (F1 @ F2) @ [?B])" by simp
    have "set (?B # map fst F1) \<subseteq> set (?B # map fst (F1 @ F2))" by auto
    then have pr': "?pr \<in> set (?B # map fst (F1 @ F2))" using prin by blast
    have "heap_inv (s\<lparr>umem := umem ?u, freep := ?pr\<rparr>) (F1 @ F2) ((p, n) # L)"
      using h geom_take [OF g] sz szB c pr' by (auto simp: heap_inv_geom simp del: last.simps)
    moreover have "umem ?u z = umem s z" if "\<not> owned ?B ?F L z" for z
      by (rule only_hdr_owned [OF h o UnI1 [OF prN] that])
    ultimately show ?thesis using run True by (intro exI [of _ "umem ?u"] exI [of _ "F1 @ F2"] exI [of _ p]) simp
  next
    case False
    let ?k = "unat nunits"
    define w where "w = h_size (umem s) p - nunits"
    define q where "q = p + 8 * w"
    have kn: "?k < n" using False k(2) by simp
    have sz: "unat w = n - ?k" using hp(4) kn by (simp add: w_def unat_sub word_le_nat_alt)
    have uq: "unat q = unat p + 8 * (n - ?k)"
      using unat_blk_end [of p w] hp(7) sz by (simp add: q_def ub_end_def)
    have al: "word_aligned q" using hp(1) uq mod_mult_self1 [of "unat p" "2 * (n - ?k)" 4] by (simp add: header_at_def word_aligned_unat)
    have g': "geom (unat ?B + 8) (unat (ubrk s)) (F1 @ (p, n - ?k) # F2) ((q, ?k) # L)" by (rule geom_cut [OF g uq al k(1) kn])
    have hq: "header_at q" using al uq hp(7) k(1) kn by (simp add: header_at_def ub_end_def)
    have far: "hdr_apart q (fst y)" if "y \<in> set (F1 @ (p, n - ?k) # F2) \<union> set L" for y
    proof -
      have "apart y (q, ?k) \<or> apart (q, ?k) y" "0 < snd y" using g' that by (auto simp: geom_def block_in_def)
      then show ?thesis using k(1) by (auto simp: apart_def hdr_apart_def ub_end_def)
    qed
    have farB: "hdr_apart q ?B" using uq hp(2) by (auto simp: hdr_apart_def) (use hp(3) in \<open>simp add: word_less_nat_alt\<close>)
    let ?u = "put_size q nunits (put_size p w s)"
    have run: "malloc_take nunits ?pr p s = (Val (q + 8), s\<lparr>umem := umem ?u, freep := ?pr\<rparr>)"
    proof -
      have "h_size (umem s) p \<noteq> nunits" using False hp(4) by auto
      then show ?thesis by (simp add: malloc_take_def Let_def kbind_def kget_def kmod_def kret_def put_size_def q_def w_def)
    qed
    have ptr: "h_ptr (umem ?u) a = h_ptr (umem s) a" if "a \<in> set (?B # map fst ?F)" for a
    proof -
      have a: "header_at a" by (rule nodes_apart(1) [OF h that])
      have "a = ?B \<or> (\<exists>y \<in> set (F1 @ (p, n - ?k) # F2). a = fst y)" using that by force
      then have "hdr_apart q a" using far farB by blast
      moreover have "a = p \<or> hdr_apart p a" using nodes_apart(2) [OF h _ that, of p] by auto
      ultimately show ?thesis using a hq hp(1) by auto
    qed
    have c: "chain (umem ?u) (?B # map fst (F1 @ (p, n - ?k) # F2) @ [?B])"
    proof -
      have "chain (umem ?u) ((?B # map fst ?F) @ [?B]) = chain (umem s) ((?B # map fst ?F) @ [?B])"
        by (rule chain_cong) (simp only: butlast_snoc ptr)
      then show ?thesis using h by (simp add: heap_inv_def)
    qed
    have szo: "h_size (umem ?u) a = h_size (umem s) a" if "header_at a" "hdr_apart q a" "hdr_apart p a" for a
      using that hq hp(1) by simp
    have qp: "hdr_apart q p" using far [of "(p, n - ?k)"] by simp
    have szF: "unat (h_size (umem ?u) (fst y)) = snd y" if y: "y \<in> set (F1 @ (p, n - ?k) # F2) \<union> set ((q, ?k) # L)" for y
    proof -
      consider "y = (q, ?k)" | "y = (p, n - ?k)" | "y \<in> set F1 \<union> set F2 \<union> set L" using y by auto
      then show ?thesis
      proof cases
        case 2
        then show ?thesis using hq hp(1) qp sz by simp
      next
        case 3
        have "hdr_apart p (fst y)"
        proof (cases "y \<in> set F1 \<union> set F2")
          case True
          then have "fst y \<noteq> p" using dist by auto
          then show ?thesis using nodes_apart(2) [OF h, of p "fst y"] True by auto
        next
          case False
          then show ?thesis using nodes_apart(3) [OF h, of p "fst y" "snd y"] 3 by auto
        qed
        then show ?thesis using szo [of "fst y"] far [of y] 3 heap_block(1,4) [OF h, of y] by auto
      qed simp
    qed
    have szB: "h_size (umem ?u) ?B = 0"
      using szo [of ?B] farB nodes_apart(2) [OF h, of p ?B] hp(3) h by (auto simp: heap_inv_def)
    have "heap_inv (s\<lparr>umem := umem ?u, freep := ?pr\<rparr>) (F1 @ (p, n - ?k) # F2) ((q, ?k) # L)"
      using h g' szF szB c prN by (auto simp: heap_inv_geom simp del: last.simps)
    moreover have "umem ?u z = umem s z" if z: "\<not> owned ?B ?F L z" for z
    proof -
      have "unat z < unat p \<or> ub_end (p, n) \<le> unat z" using z by (auto simp: owned_def)
      then have "unat z < unat p \<or> unat p + 8 \<le> unat z" "unat z < unat q \<or> unat q + 8 \<le> unat z"
        using uq k(1) kn by (auto simp: ub_end_def)
      then show ?thesis using hq hp(1) by simp
    qed
    ultimately show ?thesis using run by (intro exI [of _ "umem ?u"] exI [of _ "F1 @ (p, n - ?k) # F2"] exI [of _ q]) simp
  qed
qed

subsection \<open>Growing the heap\<close>

lemma geom_grow:
  assumes "geom lo hi F L" and "word_aligned b" "unat b = hi" "lo \<le> hi" "0 < n" "hi + 8 * n \<le> hi'"
  shows "geom lo hi' F ((b, n) # L)"
proof -
  have old: "block_in lo hi x" if "x \<in> set F \<union> set L" for x using assms(1) that by (simp add: geom_def)
  have "block_in lo hi' x" "apart x (b, n)" "apart (b, n) x" if "x \<in> set F \<union> set L" for x
    using old [OF that] assms(3,6) by (auto simp: block_in_def apart_def)
  moreover have "block_in lo hi' (b, n)" using assms by (simp add: block_in_def ub_end_def)
  ultimately show ?thesis using assms(1) by (simp add: geom_def)
qed

lemma grown_inv:
  assumes h: "heap_inv s F L" and n: "0 < unat w" "unat (ubrk s) + 8 * unat w < 2 ^ 31"
  shows "heap_inv (put_size (ubrk s) w (s\<lparr>ugrants := g, ubrk := ubrk s + w * 8\<rparr>)) F ((ubrk s, unat w) # L)"
proof -
  let ?b = "ubrk s" let ?t = "put_size ?b w (s\<lparr>ugrants := g, ubrk := ?b + w * 8\<rparr>)"
  have ub: "unat (?b + w * 8) = unat ?b + 8 * unat w" using unat_blk_end [of ?b w] n(2) by (simp add: mult.commute)
  have al: "word_aligned ?b" using h by (simp add: heap_inv_def)
  have hb: "header_at ?b" using al n by (simp add: header_at_def)
  have lo: "unat (u_base s) + 8 \<le> unat ?b" using h by (simp add: heap_inv_def)
  have al': "word_aligned (?b + w * 8)"
    using al ub mod_mult_self1 [of "unat ?b" "2 * unat w" 4] by (simp add: word_aligned_unat)
  have g: "geom (unat (u_base s) + 8) (unat ?b + 8 * unat w) F ((?b, unat w) # L)"
    using h lo al n(1) by (intro geom_grow [of _ "unat ?b"]) (simp_all add: heap_inv_geom)
  have far: "hdr_apart ?b (fst y)" "header_at (fst y)" if "y \<in> set F \<union> set L" for y
    using heap_block(1,5,6) [OF h that] by (auto simp: hdr_apart_def ub_end_def)
  have farB: "hdr_apart ?b (u_base s)" "header_at (u_base s)" using lo h by (auto simp: hdr_apart_def heap_inv_def)
  have "chain (umem ?t) ((u_base s # map fst F) @ [u_base s]) = chain (umem s) ((u_base s # map fst F) @ [u_base s])"
  proof (rule chain_cong)
    fix a assume "a \<in> set (butlast ((u_base s # map fst F) @ [u_base s]))"
    then have "a = u_base s \<or> (\<exists>y \<in> set F. a = fst y)" by (simp only: butlast_snoc) force
    then have "hdr_apart ?b a" "header_at a" using far farB by blast+
    then show "h_ptr (umem ?t) a = h_ptr (umem s) a" using hb by simp
  qed
  then have c: "chain (umem ?t) (u_base s # map fst F @ [u_base s])" using h by (simp add: heap_inv_def)
  have "unat (h_size (umem ?t) (fst y)) = snd y" if "y \<in> set F \<union> set ((?b, unat w) # L)" for y
    using that far [of y] hb heap_block(4) [OF h, of y] by auto
  moreover have "h_size (umem ?t) (u_base s) = 0" using farB hb h by (simp add: heap_inv_def)
  moreover have "?b + w * 8 < KERNBASE" using ub n(2) by (simp add: word_less_nat_alt KERNBASE_def)
  ultimately show ?thesis using h g c al' ub lo by (auto simp: heap_inv_geom)
qed

definition uframe :: "'x ust_scheme \<Rightarrow> 'x ust_scheme \<Rightarrow> bool" where
  "uframe s t = (\<exists>m b g f. t = s\<lparr>umem := m, ubrk := b, ugrants := g, freep := f\<rparr> \<and> unat (ubrk s) \<le> unat b)"

lemma morecore_ok:
  assumes h: "heap_inv s F L" and k: "unat nunits < 2 ^ 27" and fuel: "length F + 1 < fuel"
  shows "\<exists>t F' r. morecore fuel nunits s = (Val r, t) \<and> heap_inv t F' L \<and> uframe s t \<and>
    (\<forall>z. \<not> owned (u_base s) F L z \<and> unat z < unat (ubrk s) \<longrightarrow> umem t z = umem s z \<and> \<not> owned (u_base s) F' L z) \<and>
    (r = 0 \<or> r = freep t \<and> r \<noteq> 0 \<and> length F' \<le> Suc (length F) \<and> (\<exists>y \<in> set F'. unat nunits \<le> snd y))"
proof -
  define w where "w = (if nunits < 4096 then 4096 else nunits)"
  have w: "unat nunits \<le> unat w" "0 < unat w" "unat w < 2 ^ 27"
    using k by (auto simp: w_def word_less_nat_alt)
  have b31: "unat (ubrk s) < 2 ^ 31" using h brk_small by (auto simp: heap_inv_def)
  have u8: "unat (w * 8) = 8 * unat w" using w(3) unat_blk_end [of 0 w] by (simp add: mult.commute)
  have "uint (w * 8) = int (8 * unat w)" using arg_cong [OF u8, of int] by simp
  moreover have "int (unat w) < int (2 ^ 27)" using w(3) by (simp only: of_nat_less_iff)
  ultimately have pos: "\<not> sint (w * 8) < 0" by (simp only: sint_cases) simp
  have fp0: "freep t \<noteq> 0" if "heap_inv t G M" for t :: "'a ust_scheme" and G M
  proof -
    have "freep t = u_base t \<or> (\<exists>y \<in> set G. freep t = fst y)" using that by (force simp: heap_inv_def)
    then have "u_base t \<le> freep t" by (elim disjE bexE) (simp_all add: less_imp_le [OF heap_block(3) [OF that UnI1]])
    then show ?thesis using that by (auto simp: heap_inv_def word_le_nat_alt)
  qed
  let ?g = "ugrants s"
  show ?thesis
  proof (cases "?g \<noteq> [] \<and> hd ?g \<and> ubrk s + w * 8 < KERNBASE")
    case True
    have fits: "unat (ubrk s) + 8 * unat w < 2 ^ 31"
      using True unat_add_fits [of "ubrk s" "w * 8"] u8 w(3) b31 by (simp add: word_less_nat_alt KERNBASE_def)
    let ?t = "put_size (ubrk s) w (s\<lparr>ugrants := tl ?g, ubrk := ubrk s + w * 8\<rparr>)"
    have i: "heap_inv ?t F ((ubrk s, unat w) # L)" by (rule grown_inv [OF h w(2) fits])
    have "unat (-1 :: u32) = 2 ^ 32 - 1" by (simp add: unsigned_minus_1_eq_mask mask_eq_exp_minus_1)
    then have ne: "ubrk s \<noteq> -1" using b31 by (intro notI) simp
    have hb: "header_at (ubrk s)" using heap_block(1) [OF i, of "(ubrk s, unat w)"] by simp
    obtain m fp F' where f: "free fuel (ubrk s + 8) ?t = (Val (), ?t\<lparr>umem := m, freep := fp\<rparr>)"
      "heap_inv (?t\<lparr>umem := m, freep := fp\<rparr>) F' L" "length F' \<le> Suc (length F)" "\<exists>y \<in> set F'. unat w \<le> snd y"
      "\<And>z. \<not> owned (u_base ?t) F ((ubrk s, unat w) # L) z \<Longrightarrow> m z = umem ?t z"
      "\<And>z. owned (u_base ?t) F' L z \<Longrightarrow> owned (u_base ?t) F L z \<or> unat (ubrk s) \<le> unat z"
      using free_ok [OF i fuel, unfolded fst_conv snd_conv] by blast
    let ?u = "?t\<lparr>umem := m, freep := fp\<rparr>"
    have run: "morecore fuel nunits s = (Val fp, ?u)"
      using True pos ne f(1) by (simp add: morecore_def Let_def w_def [symmetric] sbrk_def kbind_def kget_def kmod_def kret_def)
    have "umem ?u z = umem s z \<and> \<not> owned (u_base s) F' L z" if z: "\<not> owned (u_base s) F L z" "unat z < unat (ubrk s)" for z
    proof -
      have "\<not> owned (u_base ?t) F ((ubrk s, unat w) # L) z" using z by (auto simp: owned_def)
      then have "m z = umem ?t z" by (rule f(5))
      then show ?thesis using hb z f(6) [of z] by auto
    qed
    moreover have "uframe s ?u" using fits unat_add_fits [of "ubrk s" "w * 8"] u8
      unfolding uframe_def put_size_def
      by (intro exI [of _ m] exI [of _ "ubrk s + w * 8"] exI [of _ "tl ?g"] exI [of _ fp]) simp
    moreover have "\<exists>y \<in> set F'. unat nunits \<le> snd y" using f(4) w(1) le_trans by blast
    ultimately show ?thesis using run f(2,3) fp0 [OF f(2)] by (intro exI [of _ ?u] exI [of _ F'] exI [of _ fp]) auto
  next
    case False
    then have run: "morecore fuel nunits s = (Val 0, s\<lparr>ugrants := tl ?g\<rparr>)"
      using pos by (auto simp: morecore_def Let_def w_def [symmetric] sbrk_def kbind_def kget_def kmod_def kret_def)
    have "uframe s (s\<lparr>ugrants := tl ?g\<rparr>)" unfolding uframe_def by (intro exI [of _ "umem s"] exI [of _ "ubrk s"] exI [of _ "tl ?g"] exI [of _ "freep s"]) simp
    moreover have "heap_inv (s\<lparr>ugrants := tl ?g\<rparr>) F L" using h by (simp add: heap_inv_def)
    ultimately show ?thesis using run by (intro exI [of _ "s\<lparr>ugrants := tl ?g\<rparr>"] exI [of _ F] exI [of _ 0]) simp
  qed
qed

subsection \<open>The search of \<open>malloc\<close>\<close>

lemma rotate:
  assumes h: "heap_inv s F L"
  shows "\<exists>rs. chain (umem s) (freep s # rs @ [freep s]) \<and> set (freep s # rs) = set (u_base s # map fst F) \<and>
    freep s \<notin> set rs \<and> length rs = length F"
proof -
  let ?N = "u_base s # map fst F"
  have d: "distinct ?N" using sorted_addrs [OF h] by (simp only: strict_sorted_iff)
  have ch: "chain (umem s) (?N @ [u_base s])" and "freep s \<in> set ?N" using h by (simp_all add: heap_inv_def)
  then obtain X Y where xy: "?N = X @ freep s # Y" by (meson split_list)
  have len: "length X + length Y = length F" using arg_cong [OF xy, of length] by simp
  have ch': "chain (umem s) (X @ freep s # (Y @ [u_base s]))" using ch unfolding xy by simp
  show ?thesis
  proof (cases X)
    case Nil
    then have "u_base s = freep s" "Y = map fst F" using xy by simp_all
    then show ?thesis using ch' d xy len by (intro exI [of _ Y]) (simp add: Nil)
  next
    case (Cons b X')
    then have b: "b = u_base s" using xy by simp
    have c: "chain (umem s) (b # X' @ [freep s])" "chain (umem s) (freep s # Y @ [b])"
      using ch' chain_append [of "umem s" X "freep s" "Y @ [u_base s]"] Cons b by simp_all
    then have "chain (umem s) ((freep s # Y) @ b # X' @ [freep s])" 
      using chain_append [of "umem s" "freep s # Y" b "X' @ [freep s]"] by simp
    moreover have "set ?N = set (X @ freep s # Y)" "freep s \<notin> set (X @ Y)" using xy d by simp_all
    ultimately show ?thesis using len Cons by (intro exI [of _ "Y @ b # X'"]) auto
  qed
qed

lemma search_step:
  assumes "nunits > h_size (umem s) p" and "p \<noteq> freep s"
  shows "malloc_loop (Suc n) fuel nunits pp p s = malloc_loop n fuel nunits p (h_ptr (umem s) p) s"
  using assms by (simp add: not_le [symmetric])

lemma search_found:
  assumes "chain (umem s) (pp # rs @ [freep s])" and "freep s \<notin> set rs"
    and "\<exists>a \<in> set (rs @ [freep s]). nunits \<le> h_size (umem s) a" and "length rs < n"
  shows "\<exists>pr q. malloc_loop n fuel nunits pp (hd (rs @ [freep s])) s = malloc_take nunits pr q s \<and> pr \<in> set (pp # rs) \<and>
    q \<in> set (rs @ [freep s]) \<and> h_ptr (umem s) pr = q \<and> nunits \<le> h_size (umem s) q"
  using assms
proof (induction rs arbitrary: pp n)
  case Nil
  then obtain k where "n = Suc k" by (cases n) auto
  then show ?case using Nil by auto
next
  case (Cons r rs)
  then obtain k where n: "n = Suc k" "length rs < k" by (cases n) auto
  show ?case
  proof (cases "nunits \<le> h_size (umem s) r")
    case True
    then show ?thesis using Cons.prems(1) n by auto
  next
    case False
    have "h_ptr (umem s) r = hd (rs @ [freep s])" using Cons.prems(1) by (cases rs) auto
    then have e: "malloc_loop n fuel nunits pp r s = malloc_loop k fuel nunits r (hd (rs @ [freep s])) s"
      unfolding n(1) using False Cons.prems(2) by (subst search_step) auto
    have "\<exists>pr q. malloc_loop k fuel nunits r (hd (rs @ [freep s])) s = malloc_take nunits pr q s \<and> pr \<in> set (r # rs) \<and>
      q \<in> set (rs @ [freep s]) \<and> h_ptr (umem s) pr = q \<and> nunits \<le> h_size (umem s) q"
      using Cons.IH [of r k] Cons.prems False n(2) by auto
    then show ?thesis unfolding list.sel append_Cons e by auto
  qed
qed

lemma search_none:
  assumes "chain (umem s) (pp # rs @ [freep s])" and "freep s \<notin> set rs"
    and "\<forall>a \<in> set (rs @ [freep s]). \<not> nunits \<le> h_size (umem s) a"
  shows "malloc_loop (length rs + Suc n) fuel nunits pp (hd (rs @ [freep s])) s =
    kbind (morecore fuel nunits) (\<lambda>p. if p = 0 then kret 0
       else kbind (kget (\<lambda>s. h_ptr (umem s) p)) (malloc_loop n fuel nunits p)) s"
  using assms
proof (induction rs arbitrary: pp)
  case (Cons r rs)
  have "h_ptr (umem s) r = hd (rs @ [freep s])" using Cons.prems(1) by (cases rs) auto
  then have "malloc_loop (Suc (length rs + Suc n)) fuel nunits pp r s =
      malloc_loop (length rs + Suc n) fuel nunits r (hd (rs @ [freep s])) s"
    using Cons.prems(2,3) by (subst search_step) auto
  then show ?case using Cons.IH [of r] Cons.prems by simp
qed simp

lemma malloc_found:
  assumes h: "heap_inv s F L" and k: "0 < unat nunits" "\<exists>y \<in> set F. unat nunits \<le> snd y" and n: "length F < n"
  shows "\<exists>t F' q. malloc_loop n fuel nunits (freep s) (h_ptr (umem s) (freep s)) s = (Val (q + 8), t) \<and>
    heap_inv t F' ((q, unat nunits) # L) \<and> uframe s t \<and> length F' \<le> length F \<and>
    (\<forall>z. \<not> owned (u_base s) F L z \<longrightarrow> umem t z = umem s z)"
proof -
  obtain rs where rs: "chain (umem s) (freep s # rs @ [freep s])" "set (freep s # rs) = set (u_base s # map fst F)"
    "freep s \<notin> set rs" "length rs = length F"
    using rotate [OF h] by blast
  have nodes: "set (rs @ [freep s]) = set (u_base s # map fst F)" using rs(2) by auto
  have hd: "h_ptr (umem s) (freep s) = hd (rs @ [freep s])" using rs(1) by (cases rs) auto
  obtain y where y: "y \<in> set F" "unat nunits \<le> snd y" using k(2) by blast
  have "fst y \<in> set (rs @ [freep s])" unfolding nodes using y(1) by auto
  moreover have "nunits \<le> h_size (umem s) (fst y)" using y(2) heap_block(4) [OF h UnI1 [OF y(1)]] by (simp add: word_le_nat_alt)
  ultimately obtain pr q where f: "malloc_loop n fuel nunits (freep s) (hd (rs @ [freep s])) s = malloc_take nunits pr q s"
    "pr \<in> set (freep s # rs)" "q \<in> set (rs @ [freep s])" "h_ptr (umem s) pr = q" "nunits \<le> h_size (umem s) q"
    using search_found [OF rs(1,3), of nunits n fuel] n [folded rs(4)] by blast
  have "q \<noteq> u_base s" using f(5) k(1) h by (auto simp: heap_inv_def word_le_nat_alt)
  then obtain x where x: "x \<in> set F" "fst x = q" using f(3) unfolding nodes by auto
  obtain F1 F2 where F: "F = F1 @ (q, snd x) # F2" using split_list [OF x(1)] x(2) by (metis prod.collapse)
  have sx: "unat nunits \<le> snd x" using f(5) heap_block(4) [OF h UnI1 [OF x(1)]] x(2) by (simp add: word_le_nat_alt)
  have pr: "pr = last (u_base s # map fst F1)"
    by (rule chain_pred [OF h [unfolded F] f(2) [unfolded rs(2) F] f(4)])
  obtain m F' q' where t: "malloc_take nunits pr q s = (Val (q' + 8), s\<lparr>umem := m, freep := pr\<rparr>)"
    "heap_inv (s\<lparr>umem := m, freep := pr\<rparr>) F' ((q', unat nunits) # L)" "length F' \<le> length F"
    "\<forall>z. \<not> owned (u_base s) F L z \<longrightarrow> m z = umem s z"
    using malloc_take_ok [OF h [unfolded F] k(1) sx] unfolding pr [symmetric] F [symmetric] by blast
  have "uframe s (s\<lparr>umem := m, freep := pr\<rparr>)"
    unfolding uframe_def by (intro exI [of _ m] exI [of _ "ubrk s"] exI [of _ "ugrants s"] exI [of _ pr]) simp
  then show ?thesis unfolding hd f(1) using t by (intro exI [of _ "s\<lparr>umem := m, freep := pr\<rparr>"]) auto
qed

lemma uframe_refl: "uframe s s"
  unfolding uframe_def by (intro exI [of _ "umem s"] exI [of _ "ubrk s"] exI [of _ "ugrants s"] exI [of _ "freep s"]) simp

lemma uframe_trans: "uframe s t \<Longrightarrow> uframe t u \<Longrightarrow> uframe s u"
proof -
  assume "uframe s t" "uframe t u"
  then obtain m b g f m' b' g' f' where "t = s\<lparr>umem := m, ubrk := b, ugrants := g, freep := f\<rparr>" "unat (ubrk s) \<le> unat b"
    "u = t\<lparr>umem := m', ubrk := b', ugrants := g', freep := f'\<rparr>" "unat (ubrk t) \<le> unat b'"
    unfolding uframe_def by blast
  then show ?thesis unfolding uframe_def by (intro exI [of _ m'] exI [of _ b'] exI [of _ g'] exI [of _ f']) simp
qed

lemma uframe_fields: "uframe s t \<Longrightarrow> u_base t = u_base s" "uframe s t \<Longrightarrow> unat (ubrk s) \<le> unat (ubrk t)"
  by (auto simp: uframe_def)

lemma malloc_loop_ok:
  assumes h: "heap_inv s F L" and k: "0 < unat nunits" "unat nunits < 2 ^ 27" and fuel: "2 * length F + 3 < n" "length F + 1 < fuel"
  shows "\<exists>t F' r. malloc_loop n fuel nunits (freep s) (h_ptr (umem s) (freep s)) s = (Val r, t) \<and> uframe s t \<and>
    (\<forall>z. \<not> owned (u_base s) F L z \<and> unat z < unat (ubrk s) \<longrightarrow> umem t z = umem s z) \<and>
    (r = 0 \<and> heap_inv t F' L \<or> (\<exists>q. r = q + 8 \<and> heap_inv t F' ((q, unat nunits) # L)  \<and> length F' \<le> Suc (length F)))"
proof (cases "\<exists>y \<in> set F. unat nunits \<le> snd y")
  case True
  then show ?thesis using malloc_found [OF h k(1) True, of n fuel] fuel by fastforce
next
  case False
  obtain rs where rs: "chain (umem s) (freep s # rs @ [freep s])" "set (freep s # rs) = set (u_base s # map fst F)"
    "freep s \<notin> set rs" "length rs = length F"
    using rotate [OF h] by blast
  have nodes: "set (rs @ [freep s]) = set (u_base s # map fst F)" using rs(2) by auto
  have hd: "h_ptr (umem s) (freep s) = hd (rs @ [freep s])" using rs(1) by (cases rs) auto
  have none: "\<forall>a \<in> set (rs @ [freep s]). \<not> nunits \<le> h_size (umem s) a"
  proof
    fix a assume "a \<in> set (rs @ [freep s])"
    then have "a = u_base s \<or> (\<exists>y \<in> set F. a = fst y)" unfolding nodes by force
    then show "\<not> nunits \<le> h_size (umem s) a"
    proof
      assume "a = u_base s"
      then show ?thesis using h k(1) by (simp add: word_le_nat_alt heap_inv_def)
    next
      assume "\<exists>y \<in> set F. a = fst y"
      then show ?thesis using False heap_block(4) [OF h UnI1] unfolding word_le_nat_alt by metis
    qed
  qed
  obtain n' where n': "n = length rs + Suc n'" "length F + 1 < n'" using fuel(1) rs(4) by (intro that [of "n - Suc (length rs)"]) simp_all
  note loop = search_none [OF rs(1,3) none, of n' fuel, folded n'(1)]
  obtain t F' r where t: "morecore fuel nunits s = (Val r, t)" "heap_inv t F' L" "uframe s t"
    "\<forall>z. \<not> owned (u_base s) F L z \<and> unat z < unat (ubrk s) \<longrightarrow> umem t z = umem s z \<and> \<not> owned (u_base s) F' L z"
    "r = 0 \<or> r = freep t \<and> r \<noteq> 0 \<and> length F' \<le> Suc (length F) \<and> (\<exists>y \<in> set F'. unat nunits \<le> snd y)"
    using morecore_ok [OF h k(2) fuel(2)] by blast
  show ?thesis
  proof (cases "r = 0")
    case True
    then have "malloc_loop n fuel nunits (freep s) (h_ptr (umem s) (freep s)) s = (Val 0, t)"
      unfolding hd loop using t(1) by (simp add: kbind_def kret_def)
    then show ?thesis using t(2,3,4) by (intro exI [of _ t] exI [of _ F'] exI [of _ 0]) auto
  next
    case False
    then have r: "r = freep t" "length F' \<le> Suc (length F)" "\<exists>y \<in> set F'. unat nunits \<le> snd y" using t(5) by auto
    obtain u F'' q where u: "malloc_loop n' fuel nunits (freep t) (h_ptr (umem t) (freep t)) t = (Val (q + 8), u)"
      "heap_inv u F'' ((q, unat nunits) # L)" "uframe t u" "length F'' \<le> length F'"
      "\<forall>z. \<not> owned (u_base t) F' L z \<longrightarrow> umem u z = umem t z"
      using malloc_found [OF t(2) k(1) r(3), of n' fuel] r(2) n'(2) by auto
    have run: "malloc_loop n fuel nunits (freep s) (h_ptr (umem s) (freep s)) s = (Val (q + 8), u)"
      unfolding hd loop using t(1) False r(1) u(1) by (simp add: kbind_def kget_def)
    have "\<forall>z. \<not> owned (u_base s) F L z \<and> unat z < unat (ubrk s) \<longrightarrow> umem u z = umem s z"
      using t(4) u(5) uframe_fields(1) [OF t(3)] by simp
    then show ?thesis using run u(2,4) r(2) uframe_trans [OF t(3) u(3)] by (intro exI [of _ u] exI [of _ F''] exI [of _ "q + 8"]) auto
  qed
qed

end
