(* ===== verification/Xv6_Heap.thy ===== *)
theory Xv6_Heap
  imports Xv6_Umalloc
begin

text \<open>
  The contract of \<open>malloc\<close> and \<open>free\<close>, stated for any allocator, proved for the one of \<open>umalloc.c\<close>, and what it
  gives a program that allocates, writes into its blocks and frees them.
\<close>

section \<open>The allocator as its clients see it\<close>

text \<open>
  An allocator gives out blocks \<open>(p, n)\<close> of \<open>n\<close> bytes from address \<open>p\<close>.  A client may write its bytes, and
  neither its writes nor later calls of the allocator change the bytes of another block.
\<close>

definition in_blk :: "u32 \<times> nat \<Rightarrow> u32 \<Rightarrow> bool" where
  "in_blk x a = (\<exists>i < snd x. a = fst x + of_nat i)"

locale allocator =
  fixes mal :: "u32 \<Rightarrow> ('s, u32) K" and fre :: "u32 \<Rightarrow> ('s, unit) K"
    and byte :: "'s \<Rightarrow> u32 \<Rightarrow> u8" and put :: "u32 \<Rightarrow> u8 \<Rightarrow> 's \<Rightarrow> 's"
    and inv :: "'s \<Rightarrow> (u32 \<times> nat) list \<Rightarrow> bool" and lim :: nat
  assumes mal: "inv s L \<Longrightarrow> unat n < lim \<Longrightarrow> \<exists>r t. mal n s = (Val r, t) \<and>
      (r = 0 \<and> inv t L \<or> r \<noteq> 0 \<and> inv t ((r, unat n) # L)) \<and> (\<forall>x \<in> set L. \<forall>a. in_blk x a \<longrightarrow> byte t a = byte s a)"
    and fre: "inv s (x # L) \<Longrightarrow> \<exists>t. fre (fst x) s = (Val (), t) \<and> inv t L \<and> (\<forall>y \<in> set L. \<forall>a. in_blk y a \<longrightarrow> byte t a = byte s a)"
    and pull: "inv s (L1 @ x # L2) \<Longrightarrow> inv s (x # L1 @ L2)"
    and put: "inv s L \<Longrightarrow> x \<in> set L \<Longrightarrow> in_blk x a \<Longrightarrow> inv (put a v s) L"
    and byte_put: "byte (put a v s) b = (if b = a then v else byte s b)"
    and blocks: "inv s (x # L) \<Longrightarrow> y \<in> set L \<Longrightarrow> in_blk x a \<Longrightarrow> \<not> in_blk y a"
    and offsets: "inv s (x # L) \<Longrightarrow> i < snd x \<Longrightarrow> j < snd x \<Longrightarrow> fst x + of_nat i = fst x + of_nat j \<Longrightarrow> i = j"

datatype uop = Umalloc u32 | Ufree nat | Uput nat nat u8

text \<open>
  A client with a list of blocks, each with the bytes the client believes to be in it.  \<open>Ufree\<close> and \<open>Uput\<close>
  name a block by its position and do nothing when there is none.
\<close>

fun urun :: "(u32 \<Rightarrow> ('s, u32) K) \<Rightarrow> (u32 \<Rightarrow> ('s, unit) K) \<Rightarrow> ('s \<Rightarrow> u32 \<Rightarrow> u8) \<Rightarrow> (u32 \<Rightarrow> u8 \<Rightarrow> 's \<Rightarrow> 's) \<Rightarrow>
    uop list \<Rightarrow> (u32 \<times> u8 list) list \<Rightarrow> ('s, (u32 \<times> u8 list) list) K" where
  "urun mal fre byte put [] own = kret own"
| "urun mal fre byte put (Umalloc n # ops) own =
     kbind (mal n) (\<lambda>r.
     if r = 0 then urun mal fre byte put ops own
     else kbind (kget (\<lambda>s. map (\<lambda>i. byte s (r + of_nat i)) [0..<unat n])) (\<lambda>bs. urun mal fre byte put ops ((r, bs) # own)))"
| "urun mal fre byte put (Ufree i # ops) own =
     (if i < length own then kthen (fre (fst (own ! i))) (urun mal fre byte put ops (take i own @ drop (Suc i) own))
      else urun mal fre byte put ops own)"
| "urun mal fre byte put (Uput i k v # ops) own =
     (if i < length own \<and> k < length (snd (own ! i))
      then kthen (kmod (put (fst (own ! i) + of_nat k) v))
        (urun mal fre byte put ops (own[i := (fst (own ! i), (snd (own ! i))[k := v])]))
      else urun mal fre byte put ops own)"

definition agrees :: "('s \<Rightarrow> u32 \<Rightarrow> u8) \<Rightarrow> 's \<Rightarrow> u32 \<times> u8 list \<Rightarrow> bool" where
  "agrees byte s x = (\<forall>k < length (snd x). byte s (fst x + of_nat k) = snd x ! k)"

definition shape :: "(u32 \<times> u8 list) list \<Rightarrow> (u32 \<times> nat) list" where
  "shape own = map (\<lambda>x. (fst x, length (snd x))) own"

lemma agrees_cong:
  assumes "\<And>a. in_blk (fst x, length (snd x)) a \<Longrightarrow> byte t a = byte s a"
  shows "agrees byte t x = agrees byte s x"
proof -
  have "byte t (fst x + of_nat k) = byte s (fst x + of_nat k)" if "k < length (snd x)" for k
    using that by (intro assms) (auto simp: in_blk_def)
  then show ?thesis by (auto simp: agrees_def)
qed

lemma shape_pull:
  assumes "i < length own"
  shows "shape own = shape (take i own) @ (fst (own ! i), length (snd (own ! i))) # shape (drop (Suc i) own)"
proof -
  have "shape (take i own @ own ! i # drop (Suc i) own) =
      shape (take i own) @ (fst (own ! i), length (snd (own ! i))) # shape (drop (Suc i) own)"
    by (simp add: shape_def)
  then show ?thesis by (simp only: id_take_nth_drop [OF assms, symmetric])
qed

context allocator
begin

lemma agrees_keep:
  assumes "\<forall>x \<in> set own. agrees byte s x" and "\<forall>x \<in> set (shape own). \<forall>a. in_blk x a \<longrightarrow> byte t a = byte s a"
  shows "\<forall>x \<in> set own. agrees byte t x"
proof
  fix x assume x: "x \<in> set own"
  then have "(fst x, length (snd x)) \<in> set (shape own)" by (auto simp: shape_def)
  then have "agrees byte t x = agrees byte s x" using assms(2) by (intro agrees_cong) blast
  then show "agrees byte t x" using assms(1) x by blast
qed

lemma run_put:
  assumes i: "inv s (shape own)" and ag: "\<forall>x \<in> set own. agrees byte s x" and ix: "j < length own" "k < length (snd (own ! j))"
  shows "inv (put (fst (own ! j) + of_nat k) v s) (shape (own[j := (fst (own ! j), (snd (own ! j))[k := v])]))"
    and "\<forall>x \<in> set (own[j := (fst (own ! j), (snd (own ! j))[k := v])]). agrees byte (put (fst (own ! j) + of_nat k) v s) x"
proof -
  let ?x = "own ! j" let ?y = "(fst ?x, (snd ?x)[k := v])" and ?a = "fst ?x + of_nat k" let ?X = "(fst ?x, length (snd ?x))"
  have sh: "shape (own[j := ?y]) = shape own" using ix(1) by (intro nth_equalityI) (auto simp: shape_def nth_list_update)
  have xa: "in_blk ?X ?a" using ix(2) by (auto simp: in_blk_def)
  have xin: "?X \<in> set (shape own)" using ix(1) by (auto simp: shape_def)
  show "inv (put ?a v s) (shape (own[j := ?y]))" unfolding sh by (rule put [OF i xin xa])
  have i': "inv s (?X # shape (take j own) @ shape (drop (Suc j) own))"
    using pull i unfolding shape_pull [OF ix(1)] by blast
  have new: "agrees byte (put ?a v s) ?y"
    unfolding agrees_def
  proof (intro allI impI)
    fix m assume m: "m < length (snd ?y)"
    have "agrees byte s ?x" using ag ix(1) by simp
    then show "byte (put ?a v s) (fst ?y + of_nat m) = snd ?y ! m"
      using offsets [OF i', of m k] m ix(2) by (auto simp: byte_put agrees_def nth_list_update)
  qed
  have old: "agrees byte (put ?a v s) x" if x: "x \<in> set (take j own) \<union> set (drop (Suc j) own)" for x
  proof -
    have "(fst x, length (snd x)) \<in> set (shape (take j own) @ shape (drop (Suc j) own))" using x by (auto simp: shape_def)
    then have "\<not> in_blk (fst x, length (snd x)) ?a" using blocks [OF i' _ xa] by blast
    then have "agrees byte (put ?a v s) x = agrees byte s x" by (intro agrees_cong) (auto simp: byte_put)
    moreover have "x \<in> set own" using x by (auto dest: in_set_takeD in_set_dropD)
    ultimately show ?thesis using ag by blast
  qed
  show "\<forall>x \<in> set (own[j := ?y]). agrees byte (put ?a v s) x"
    using new old ix(1) by (auto simp: upd_conv_take_nth_drop)
qed

lemma run_ok:
  assumes "inv s (shape own)" and "\<forall>x \<in> set own. agrees byte s x" and "\<forall>n. Umalloc n \<in> set ops \<longrightarrow> unat n < lim"
  shows "\<exists>own' t. urun mal fre byte put ops own s = (Val own', t) \<and> inv t (shape own') \<and> (\<forall>x \<in> set own'. agrees byte t x)"
  using assms
proof (induction ops arbitrary: own s)
  case Nil
  then show ?case by (simp add: kret_def)
next
  case (Cons op ops)
  have lim: "\<forall>n. Umalloc n \<in> set ops \<longrightarrow> unat n < lim" using Cons.prems(3) by simp
  show ?case
  proof (cases op)
    case (Umalloc n)
    obtain r t where r: "mal n s = (Val r, t)" "r = 0 \<and> inv t (shape own) \<or> r \<noteq> 0 \<and> inv t ((r, unat n) # shape own)"
      "\<forall>x \<in> set (shape own). \<forall>a. in_blk x a \<longrightarrow> byte t a = byte s a"
      using mal [OF Cons.prems(1), of n] Cons.prems(3) Umalloc by auto
    have ag: "\<forall>x \<in> set own. agrees byte t x" by (rule agrees_keep [OF Cons.prems(2) r(3)])
    let ?bs = "map (\<lambda>i. byte t (r + of_nat i)) [0..<unat n]"
    show ?thesis
    proof (cases "r = 0")
      case True
      then show ?thesis using Cons.IH [OF _ ag lim] r(1,2) Umalloc by (simp add: kbind_def)
    next
      case False
      have "inv t (shape ((r, ?bs) # own))" "\<forall>x \<in> set ((r, ?bs) # own). agrees byte t x"
        using False r(2) ag by (auto simp: shape_def agrees_def)
      from Cons.IH [OF this lim] show ?thesis using r(1) False Umalloc by (simp add: kbind_def kget_def)
    qed
  next
    case (Ufree i)
    show ?thesis
    proof (cases "i < length own")
      case True
      let ?own = "take i own @ drop (Suc i) own" and ?X = "(fst (own ! i), length (snd (own ! i)))"
      have sh: "shape ?own = shape (take i own) @ shape (drop (Suc i) own)" by (simp add: shape_def)
      have "inv s (?X # shape ?own)" using pull Cons.prems(1) unfolding shape_pull [OF True] sh by blast
      then obtain t where t: "fre (fst (own ! i)) s = (Val (), t)" "inv t (shape ?own)"
        "\<forall>y \<in> set (shape ?own). \<forall>a. in_blk y a \<longrightarrow> byte t a = byte s a"
        using fre by fastforce
      have "\<forall>x \<in> set ?own. agrees byte s x" using Cons.prems(2) by (auto dest: in_set_takeD in_set_dropD)
      then have "\<forall>x \<in> set ?own. agrees byte t x" using t(3) by (rule agrees_keep)
      from Cons.IH [OF t(2) this lim] show ?thesis using t(1) True Ufree by (simp add: kbind_def)
    next
      case False
      then show ?thesis using Cons.IH [OF Cons.prems(1,2) lim] Ufree by simp
    qed
  next
    case (Uput i k v)
    show ?thesis
    proof (cases "i < length own \<and> k < length (snd (own ! i))")
      case True
      note r = run_put [OF Cons.prems(1,2) conjunct1 [OF True] conjunct2 [OF True], of v]
      from Cons.IH [OF r lim] show ?thesis using True Uput by simp
    next
      case False
      then show ?thesis using Cons.IH [OF Cons.prems(1,2) lim] Uput by auto
    qed
  qed
qed

end

section \<open>The allocator of \<open>umalloc.c\<close>\<close>

text \<open>Before the first call of \<open>malloc\<close> the list does not exist.\<close>

definition heap_fresh :: "'x ust_scheme \<Rightarrow> bool" where
  "heap_fresh s = (freep s = 0 \<and> header_at (u_base s) \<and> 0 < unat (u_base s) \<and> unat (u_base s) + 8 \<le> unat (ubrk s) \<and>
     word_aligned (ubrk s) \<and> ubrk s < KERNBASE)"

definition holds_blk :: "u32 \<times> nat \<Rightarrow> ublk \<Rightarrow> bool" where
  "holds_blk x b = (fst x = fst b + 8 \<and> snd x \<le> 8 * (snd b - 1))"

definition uinv :: "'x ust_scheme \<Rightarrow> (u32 \<times> nat) list \<Rightarrow> bool" where
  "uinv s L = ((\<exists>F H. heap_inv s F H \<and> list_all2 holds_blk L H) \<or> heap_fresh s \<and> L = [])"

definition uput :: "u32 \<Rightarrow> u8 \<Rightarrow> 'x ust_scheme \<Rightarrow> 'x ust_scheme" where
  "uput a v s = s\<lparr>umem := (umem s)(a := v)\<rparr>"

lemma sorted_length:
  "sorted_wrt (\<lambda>x y. ub_end x \<le> unat (fst y)) F \<Longrightarrow> \<forall>x \<in> set F. block_in lo hi x \<Longrightarrow> lo \<le> hi \<Longrightarrow> lo + 8 * length F \<le> hi"
proof (induction F arbitrary: lo)
  case (Cons x F)
  have x: "lo + 8 \<le> ub_end x" "ub_end x \<le> hi" using Cons.prems(2) by (auto simp: block_in_def ub_end_def)
  have "\<forall>y \<in> set F. block_in (ub_end x) hi y" using Cons.prems(1,2) by (auto simp: block_in_def)
  from Cons.IH [OF _ this] show ?case using Cons.prems(1) x by simp
qed simp

lemma free_length: "heap_inv s F L \<Longrightarrow> 8 * length F < 2 ^ 31"
proof -
  assume h: "heap_inv s F L"
  have "unat (u_base s) + 8 + 8 * length F \<le> unat (ubrk s)"
    using h by (intro sorted_length) (auto simp: heap_inv_def)
  then show ?thesis using h brk_small [of s] by (simp add: heap_inv_def)
qed

lemma payload:
  assumes h: "heap_inv s F H" and b: "b \<in> set H" and i: "i < 8 * (snd b - 1)" and a: "a = fst b + 8 + of_nat i"
  shows "unat a = unat (fst b) + 8 + i" "unat a < ub_end b" "\<not> owned (u_base s) F H a" "unat a < unat (ubrk s)"
proof -
  note hb = heap_block [OF h UnI2 [OF b]]
  have n: "unat (fst b) + 8 + i < ub_end b" using i by (simp add: ub_end_def)
  then have "unat (fst b + of_nat (8 + i)) = unat (fst b) + (8 + i)" using hb(7) by (intro unat_add_nowrap) simp
  moreover have "a = fst b + of_nat (8 + i)" using a by simp
  ultimately show u: "unat a = unat (fst b) + 8 + i" by simp
  then show e: "unat a < ub_end b" using n by simp
  then show "unat a < unat (ubrk s)" using hb(6) by simp
  show "\<not> owned (u_base s) F H a"
  proof
    assume "owned (u_base s) F H a"
    then consider "unat (u_base s) \<le> unat a" "unat a < unat (u_base s) + 8"
      | x where "x \<in> set F" "unat (fst x) \<le> unat a" "unat a < ub_end x"
      | x where "x \<in> set H" "unat (fst x) \<le> unat a" "unat a < unat (fst x) + 8"
      by (auto simp: owned_def)
    then show False
    proof cases
      case 1
      then show False using u hb(2,3) by (auto simp: hdr_apart_def word_less_nat_alt)
    next
      case 2
      then have "apart x b" using h b by (simp add: heap_inv_def)
      then show False using 2 u e by (auto simp: apart_def)
    next
      case 3
      have "sorted_wrt apart H" using h by (simp add: heap_inv_def)
      moreover have "x \<noteq> b" using 3 u by auto
      ultimately have "apart x b \<or> apart b x" using 3(1) b by (induction H) auto
      then show False using 3 u e heap_block(5) [OF h, of x] by (auto simp: apart_def ub_end_def)
    qed
  qed
qed

lemma malloc_fresh:
  assumes "heap_fresh s"
  shows "heap_inv (put_size (u_base s) 0 ((put_ptr (u_base s) (u_base s) s)\<lparr>freep := u_base s\<rparr>)) [] []"
  using assms by (simp add: heap_fresh_def heap_inv_def)

lemma malloc_units:
  fixes n :: u32
  assumes "unat n < 2 ^ 28"
  shows "unat ((n + 8 - 1) div 8 + 1) = (unat n + 7) div 8 + 1" and "unat ((n + 8 - 1) div 8 + 1) < 2 ^ 27"
    and "unat n \<le> 8 * (unat ((n + 8 - 1) div 8 + 1) - 1)"
proof -
  have "unat (n + 7) = unat n + 7" using unat_add_nowrap [of n 7] assms by simp
  then have d: "unat ((n + 7) div 8) = (unat n + 7) div 8" by (simp add: unat_div_distrib)
  have lt: "(unat n + 7) div 8 < 2 ^ 26" using assms by simp
  have "unat ((n + 7) div 8 + 1) = (unat n + 7) div 8 + 1" using unat_add_nowrap [of "(n + 7) div 8" 1] d lt by simp
  moreover have "n + 8 - 1 = n + 7" by simp
  ultimately show u: "unat ((n + 8 - 1) div 8 + 1) = (unat n + 7) div 8 + 1" by presburger
  show "unat ((n + 8 - 1) div 8 + 1) < 2 ^ 27" unfolding u using lt by simp
  show "unat n \<le> 8 * (unat ((n + 8 - 1) div 8 + 1) - 1)" unfolding u by linarith
qed

lemma malloc_ok:
  assumes "heap_inv s F H \<or> heap_fresh s \<and> F = [] \<and> H = []" and n: "unat n < 2 ^ 28" and fuel: "2 ^ 30 \<le> fuel"
  shows "\<exists>t F' r. malloc fuel n s = (Val r, t) \<and> uframe s t \<and>
    (\<forall>z. \<not> owned (u_base s) F H z \<and> unat z < unat (ubrk s) \<longrightarrow> umem t z = umem s z) \<and>
    (r = 0 \<and> heap_inv t F' H \<or> (\<exists>q k. r = q + 8 \<and> unat n \<le> 8 * (k - 1) \<and> heap_inv t F' ((q, k) # H)))"
proof -
  let ?u = "(n + 8 - 1) div 8 + 1"
  let ?s = "if freep s = 0 then put_size (u_base s) 0 ((put_ptr (u_base s) (u_base s) s)\<lparr>freep := u_base s\<rparr>) else s"
  have fp: "freep s \<noteq> 0" if "heap_inv s F H"
  proof -
    have "freep s = u_base s \<or> (\<exists>y \<in> set F. freep s = fst y)" using that by (force simp: heap_inv_def)
    then have "u_base s \<le> freep s" by (elim disjE bexE) (simp_all add: less_imp_le [OF heap_block(3) [OF that UnI1]])
    then show ?thesis using that by (auto simp: heap_inv_def word_le_nat_alt)
  qed
  have h: "heap_inv ?s F H" using assms(1) fp malloc_fresh [of s] by (auto simp: heap_fresh_def)
  have hb: "header_at (u_base s)" using assms(1) by (auto simp: heap_inv_def heap_fresh_def)
  have keep: "umem ?s z = umem s z" if "\<not> owned (u_base s) F H z" for z
    using that hb by (auto simp: owned_def not_le)
  have fr: "uframe s ?s"
  proof (cases "freep s = 0")
    case True
    then show ?thesis
      unfolding uframe_def put_ptr_def put_size_def
      by (intro exI [of _ "umem ?s"] exI [of _ "ubrk s"] exI [of _ "ugrants s"] exI [of _ "u_base s"]) (simp add: put_ptr_def put_size_def)
  qed (simp add: uframe_refl)
  note u = malloc_units [OF n]
  have pos: "0 < unat ?u" unfolding u(1) by simp
  have len: "8 * length F < 2 ^ 31" by (rule free_length [OF h])
  obtain t F' r where t: "malloc_loop fuel fuel ?u (freep ?s) (h_ptr (umem ?s) (freep ?s)) ?s = (Val r, t)" "uframe ?s t"
    "\<forall>z. \<not> owned (u_base ?s) F H z \<and> unat z < unat (ubrk ?s) \<longrightarrow> umem t z = umem ?s z"
    "r = 0 \<and> heap_inv t F' H \<or> (\<exists>q. r = q + 8 \<and> heap_inv t F' ((q, unat ?u) # H) \<and> length F' \<le> Suc (length F))"
    using malloc_loop_ok [OF h pos u(2), of fuel fuel] len fuel by auto
  have "malloc fuel n s = malloc_loop fuel fuel ?u (freep ?s) (h_ptr (umem ?s) (freep ?s)) ?s"
    by (simp add: malloc_def Let_def kbind_def kget_def kmod_def kwhen_def kret_def)
  then have run: "malloc fuel n s = (Val r, t)" using t(1) by simp
  have same: "\<forall>z. \<not> owned (u_base s) F H z \<and> unat z < unat (ubrk s) \<longrightarrow> umem t z = umem s z"
  proof (intro allI impI)
    fix z assume z: "\<not> owned (u_base s) F H z \<and> unat z < unat (ubrk s)"
    have "ubrk ?s = ubrk s" "u_base ?s = u_base s" by simp_all
    then have "umem t z = umem ?s z" using t(3) z by simp
    then show "umem t z = umem s z" using keep z by simp
  qed
  have "r = 0 \<and> heap_inv t F' H \<or> (\<exists>q k. r = q + 8 \<and> unat n \<le> 8 * (k - 1) \<and> heap_inv t F' ((q, k) # H))"
    using t(4) u(3) by blast
  then show ?thesis using run same uframe_trans [OF fr t(2)] by blast
qed

lemma list_all2_split:
  "list_all2 P (L1 @ x # L2) H \<Longrightarrow> \<exists>H1 b H2. H = H1 @ b # H2 \<and> list_all2 P L1 H1 \<and> P x b \<and> list_all2 P L2 H2"
  by (auto simp: list_all2_append1 list_all2_Cons1)

lemma heap_pull:
  assumes "heap_inv s F (H1 @ b # H2)" shows "heap_inv s F (b # H1 @ H2)"
  using assms by (auto simp: heap_inv_def sorted_wrt_append apart_def)

lemma header_upd:
  assumes "header_at h" and "\<not> (unat h \<le> unat a \<and> unat a < unat h + 8)"
  shows "h_ptr (m(a := v)) h = h_ptr m h" "h_size (m(a := v)) h = h_size m h"
proof -
  have "unat a < unat h \<or> unat h + 8 \<le> unat a" using assms(2) by linarith
  note w = word_outside [OF assms(1) this]
  show "h_ptr (m(a := v)) h = h_ptr m h" "h_size (m(a := v)) h = h_size m h"
    unfolding h_ptr_def h_size_def using header_words(1,2) [OF assms(1)] w by (intro load32_cong; auto)+
qed

lemma heap_upd:
  assumes h: "heap_inv s F H" and a: "\<not> owned (u_base s) F H a"
  shows "heap_inv (uput a v s) F H"
proof -
  let ?t = "uput a v s"
  have node: "h_ptr (umem ?t) x = h_ptr (umem s) x \<and> h_size (umem ?t) x = h_size (umem s) x"
    if x: "x = u_base s \<or> (\<exists>b \<in> set F. x = fst b) \<or> (\<exists>b \<in> set H. x = fst b)" for x
  proof -
    have "header_at x" using x h heap_block(1) [OF h] by (auto simp: heap_inv_def)
    moreover have "\<not> (unat x \<le> unat a \<and> unat a < unat x + 8)"
    proof
      assume c: "unat x \<le> unat a \<and> unat a < unat x + 8"
      have e: "unat (fst b) + 8 \<le> ub_end b" if "b \<in> set F" for b using heap_block(5) [OF h, of b] that by (simp add: ub_end_def)
      from x have "owned (u_base s) F H a"
      proof (elim disjE bexE)
        fix b assume b: "b \<in> set F" "x = fst b"
        then have "unat (fst b) \<le> unat a \<and> unat a < ub_end b" using c e [OF b(1)] by simp
        then show ?thesis using b(1) unfolding owned_def by blast
      next
        fix b assume "b \<in> set H" "x = fst b"
        then show ?thesis using c unfolding owned_def by blast
      qed (use c in \<open>simp add: owned_def\<close>)
      then show False using a by contradiction
    qed
    ultimately show ?thesis by (simp add: uput_def header_upd)
  qed
  have "chain (umem ?t) ((u_base s # map fst F) @ [u_base s]) = chain (umem s) ((u_base s # map fst F) @ [u_base s])"
  proof (rule chain_cong)
    fix x assume "x \<in> set (butlast ((u_base s # map fst F) @ [u_base s]))"
    then have "x = u_base s \<or> (\<exists>b \<in> set F. x = fst b)" by (simp only: butlast_snoc) force
    then show "h_ptr (umem ?t) x = h_ptr (umem s) x" using node by blast
  qed
  moreover have "u_base ?t = u_base s" "ubrk ?t = ubrk s" "freep ?t = freep s" by (simp_all add: uput_def)
  moreover have "h_size (umem ?t) (fst x) = h_size (umem s) (fst x)" if "x \<in> set F \<union> set H" for x using node that by blast
  moreover have "h_size (umem ?t) (u_base s) = h_size (umem s) (u_base s)" using node by blast
  ultimately show ?thesis using h by (simp add: heap_inv_geom)
qed

lemma holds_blk_in:
  assumes "holds_blk x b" and "in_blk x a" shows "\<exists>i < 8 * (snd b - 1). a = fst b + 8 + of_nat i"
proof -
  obtain i where "i < snd x" "a = fst x + of_nat i" using assms(2) by (auto simp: in_blk_def)
  then show ?thesis using assms(1) by (intro exI [of _ i]) (auto simp: holds_blk_def)
qed

lemma uinv_payload:
  assumes h: "heap_inv s F H" and l: "list_all2 holds_blk L H" and x: "x \<in> set L" "in_blk x a"
  shows "\<not> owned (u_base s) F H a" "unat a < unat (ubrk s)"
proof -
  obtain b where b: "b \<in> set H" "holds_blk x b" using list_all2_split l split_list [OF x(1)] by (metis in_set_conv_decomp)
  obtain i where i: "i < 8 * (snd b - 1)" "a = fst b + 8 + of_nat i" using holds_blk_in [OF b(2) x(2)] by blast
  show "\<not> owned (u_base s) F H a" "unat a < unat (ubrk s)" using payload(3,4) [OF h b(1) i] .
qed

lemma uinv_malloc:
  assumes u: "uinv s L" and n: "unat n < 2 ^ 28" and fuel: "2 ^ 30 \<le> fuel"
  shows "\<exists>r t. malloc fuel n s = (Val r, t) \<and> (r = 0 \<and> uinv t L \<or> r \<noteq> 0 \<and> uinv t ((r, unat n) # L)) \<and>
    (\<forall>x \<in> set L. \<forall>a. in_blk x a \<longrightarrow> umem t a = umem s a)"
proof -
  obtain F H where h: "heap_inv s F H \<or> heap_fresh s \<and> F = [] \<and> H = []" and l: "list_all2 holds_blk L H"
    using u by (auto simp: uinv_def)
  obtain t F' r where t: "malloc fuel n s = (Val r, t)"
    "\<forall>z. \<not> owned (u_base s) F H z \<and> unat z < unat (ubrk s) \<longrightarrow> umem t z = umem s z"
    "r = 0 \<and> heap_inv t F' H \<or> (\<exists>q k. r = q + 8 \<and> unat n \<le> 8 * (k - 1) \<and> heap_inv t F' ((q, k) # H))"
    using malloc_ok [OF h n fuel] by blast
  have "r = 0 \<and> uinv t L \<or> r \<noteq> 0 \<and> uinv t ((r, unat n) # L)"
    using t(3)
  proof
    assume "\<exists>q k. r = q + 8 \<and> unat n \<le> 8 * (k - 1) \<and> heap_inv t F' ((q, k) # H)"
    then obtain q k where q: "r = q + 8" "unat n \<le> 8 * (k - 1)" "heap_inv t F' ((q, k) # H)" by blast
    have "unat (q + of_nat 8) = unat q + 8"
      using heap_block(1,5,7) [OF q(3), of "(q, k)"] by (intro unat_add_nowrap) (simp add: ub_end_def)
    then have "r \<noteq> 0" using q(1) by auto
    moreover have "list_all2 holds_blk ((r, unat n) # L) ((q, k) # H)" using l q(1,2) by (simp add: holds_blk_def)
    ultimately show ?thesis using q(3) unfolding uinv_def by blast
  qed (use l in \<open>auto simp: uinv_def\<close>)
  moreover have "umem t a = umem s a" if "x \<in> set L" "in_blk x a" for x a
  proof -
    have "heap_inv s F H" using h l that(1) by auto
    then show ?thesis using uinv_payload [OF _ l that] t(2) by blast
  qed
  ultimately show ?thesis using t(1) by blast
qed

lemma uinv_free:
  assumes u: "uinv s (x # L)" and fuel: "2 ^ 30 \<le> fuel"
  shows "\<exists>t. free fuel (fst x) s = (Val (), t) \<and> uinv t L \<and> uframe s t \<and> (\<forall>y \<in> set L. \<forall>a. in_blk y a \<longrightarrow> umem t a = umem s a)"
proof -
  obtain F b H where h: "heap_inv s F (b # H)" and l: "holds_blk x b" "list_all2 holds_blk L H"
    using u by (auto simp: uinv_def list_all2_Cons1)
  have len: "length F + 1 < fuel" using free_length [OF h] fuel by simp
  obtain m fp F' where t: "free fuel (fst b + 8) s = (Val (), s\<lparr>umem := m, freep := fp\<rparr>)" "heap_inv (s\<lparr>umem := m, freep := fp\<rparr>) F' H"
    "\<forall>z. \<not> owned (u_base s) F (b # H) z \<longrightarrow> m z = umem s z"
    using free_ok [OF h len] by blast
  have "uframe s (s\<lparr>umem := m, freep := fp\<rparr>)"
    unfolding uframe_def by (intro exI [of _ m] exI [of _ "ubrk s"] exI [of _ "ugrants s"] exI [of _ fp]) simp
  moreover have "m a = umem s a" if "y \<in> set L" "in_blk y a" for y a
    using uinv_payload(1) [OF h, of "x # L" y a] l that t(3) by simp
  moreover have "uinv (s\<lparr>umem := m, freep := fp\<rparr>) L" using t(2) l(2) by (auto simp: uinv_def)
  moreover have "fst x = fst b + 8" using l(1) by (simp add: holds_blk_def)
  ultimately show ?thesis using t(1) by (intro exI [of _ "s\<lparr>umem := m, freep := fp\<rparr>"]) auto
qed

lemma uinv_pull: "uinv s (L1 @ x # L2) \<Longrightarrow> uinv s (x # L1 @ L2)"
proof -
  assume "uinv s (L1 @ x # L2)"
  then obtain F H where h: "heap_inv s F H" "list_all2 holds_blk (L1 @ x # L2) H" by (auto simp: uinv_def)
  obtain H1 b H2 where b: "H = H1 @ b # H2" "list_all2 holds_blk L1 H1" "holds_blk x b" "list_all2 holds_blk L2 H2"
    using list_all2_split [OF h(2)] by blast
  then have "list_all2 holds_blk (x # L1 @ L2) (b # H1 @ H2)" by (auto intro: list_all2_appendI)
  then show ?thesis using heap_pull [OF h(1) [unfolded b(1)]] unfolding uinv_def by blast
qed

interpretation heap: allocator "malloc (2 ^ 30 + f)" "free (2 ^ 30 + f)" umem uput uinv "2 ^ 28"
proof (unfold_locales, goal_cases)
  case (1 s L n)
  show ?case by (rule uinv_malloc [OF 1]) simp
next
  case (2 s x L)
  then show ?case using uinv_free [OF 2, of "2 ^ 30 + f"] by auto
next
  case (3 s L1 x L2)
  then show ?case by (rule uinv_pull)
next
  case (4 s L x a v)
  then obtain F H where h: "heap_inv s F H" "list_all2 holds_blk L H" by (auto simp: uinv_def)
  then show ?case using heap_upd [OF h(1) uinv_payload(1) [OF h 4(2,3)]] unfolding uinv_def by blast
next
  case (5 a v s b)
  show ?case by (simp add: uput_def)
next
  case (6 s x L y a)
  then obtain F b H where h: "heap_inv s F (b # H)" and l: "holds_blk x b" "list_all2 holds_blk L H"
    by (auto simp: uinv_def list_all2_Cons1)
  obtain c where c: "c \<in> set H" "holds_blk y c" using list_all2_split l(2) split_list [OF 6(2)] by (metis in_set_conv_decomp)
  show ?case
  proof
    assume "in_blk y a"
    then obtain i j where i: "i < 8 * (snd b - 1)" "a = fst b + 8 + of_nat i" and j: "j < 8 * (snd c - 1)" "a = fst c + 8 + of_nat j"
      using holds_blk_in [OF l(1) 6(3)] holds_blk_in [OF c(2)] by blast
    have bc: "b \<in> set (b # H)" "c \<in> set (b # H)" using c(1) by simp_all
    have "apart b c" using h c(1) by (simp add: heap_inv_def)
    then show False using payload(1,2) [OF h bc(1) i] payload(1,2) [OF h bc(2) j] by (auto simp: apart_def)
  qed
next
  case (7 s x L i j)
  then obtain F b H where h: "heap_inv s F (b # H)" and l: "holds_blk x b" by (auto simp: uinv_def list_all2_Cons1)
  have ij: "i < 8 * (snd b - 1)" "j < 8 * (snd b - 1)" and x: "fst x = fst b + 8" using 7 l by (auto simp: holds_blk_def)
  have b: "b \<in> set (b # H)" by simp
  have "unat (fst b + 8 + of_nat i) = unat (fst b + 8 + of_nat j)" using 7(4) unfolding x by (rule arg_cong)
  then show ?case unfolding payload(1) [OF h b ij(1) refl] payload(1) [OF h b ij(2) refl] by linarith
qed

text \<open>
  C3: Starting with an empty heap, a program may allocate blocks of less than \<open>2 ^ 28\<close> bytes, write into
  its blocks and free them in any order: no call of \<open>malloc\<close> or \<open>free\<close> goes astray or loops, whatever
  the kernel grants, and every block holds what the program wrote there last.
\<close>

theorem malloc_free_correct:
  assumes "heap_fresh s" and "\<forall>n. Umalloc n \<in> set ops \<longrightarrow> unat n < 2 ^ 28"
  shows "\<exists>own t. urun (malloc (2 ^ 30 + f)) (free (2 ^ 30 + f)) umem uput ops [] s = (Val own, t) \<and>
    (\<forall>x \<in> set own. agrees umem t x)"
proof -
  have "uinv s (shape [])" using assms(1) by (simp add: uinv_def shape_def)
  from heap.run_ok [OF this _ assms(2), of f] show ?thesis by auto
qed

definition heap_ex :: ust where
  "heap_ex = \<lparr>umem = (\<lambda>_. 0), ubrk = 0x8000, ugrants = replicate 10 True, u_base = 0x2000, freep = 0\<rparr>"

theorem malloc_free_correct_witness:
  "\<exists>own t. urun (malloc (2 ^ 30)) (free (2 ^ 30)) umem uput
     [Umalloc 40, Umalloc 4096, Uput 0 7 5, Uput 1 3 9, Ufree 0, Umalloc 12, Uput 0 0 1] [] heap_ex = (Val own, t) \<and>
     (\<forall>x \<in> set own. agrees umem t x)"
proof -
  let ?ops = "[Umalloc 40, Umalloc 4096, Uput 0 7 5, Uput 1 3 9, Ufree 0, Umalloc 12, Uput 0 0 1]"
  have fresh: "heap_fresh heap_ex"
    by (simp add: heap_fresh_def heap_ex_def header_at_def word_aligned_def KERNBASE_def)
  have lim: "\<forall>n. Umalloc n \<in> set ?ops \<longrightarrow> unat n < 2 ^ 28" by auto
  show ?thesis using malloc_free_correct [OF fresh lim, of 0] unfolding add_0_right .
qed

end
