(* ===== verification/Xv6_Uthread.thy ===== *)
theory Xv6_Uthread
  imports Xv6_Heap Xv6_Signal
begin

text \<open>
  The user-level thread library of \<open>uthread.c\<close>: threads switched by the handler of \<open>SIGALRM\<close>, binary and
  counting semaphores.  The file holds both sides of an unresolved merge; the side \<open>HEAD\<close> has the
  names of the source, the other side the suffix \<open>_theirs\<close> where it differs.

  \<open>current\<close> is the index of the entry of \<open>u_table\<close> that the C variable points to.  A thread that sends itself
  \<open>SIGALRM\<close> enters \<open>uthread_schedule\<close> before \<open>sigsend\<close> returns to it: the model of the call stops there with
  \<open>Yields\<close>, and what the code does when the thread runs again is the definition with the suffix \<open>_resume\<close>.
  \<open>uclock\<close> gives the results of successive calls of \<open>uptime\<close>.
\<close>

section \<open>State\<close>

datatype tstate = T_UNUSED | T_SLEEPING | T_RUNNABLE | T_RUNNING

record uthread =
  t_tid :: u32
  t_stack :: u32
  t_state :: tstate
  t_tf :: trapframe
  t_pid :: u32
  t_numOfJoining :: u32
  t_joiningList :: "nat \<Rightarrow> u32"
  t_wakeup :: u32
  t_ind :: nat
  t_joining :: u32

record bsem =
  bs_s :: u32
  bs_insert :: nat
  bs_toOut :: nat
  bs_size :: nat
  bs_waiting :: nat
  bs_list :: u32

record csem =
  cs_val :: int
  cs_s1 :: int
  cs_s2 :: int

text \<open>
  The objects that \<open>malloc\<close> gives are found by their address: \<open>bsems\<close>, \<open>csems\<close>, and in \<open>blists\<close> the arrays of
  pointers into \<open>u_table\<close>.  \<open>ualarm\<close> is the argument of the last call of \<open>alarm\<close>.
\<close>

record uthst = ust +
  nexttid :: u32
  numOfThreads :: int
  current :: nat
  u_table :: "nat \<Rightarrow> uthread"
  currentInd :: nat
  bsemtable :: "nat \<Rightarrow> u32"
  bsems :: "u32 \<Rightarrow> bsem"
  blists :: "u32 \<Rightarrow> nat \<Rightarrow> nat option"
  csems :: "u32 \<Rightarrow> csem"
  ualarm :: int
  usignal :: u32
  u_pid :: u32
  uclock :: "nat \<Rightarrow> u32"
  uclock_ix :: nat
  uprinted :: "(string \<times> u32 list) list"

definition upd_ut :: "nat \<Rightarrow> (uthread \<Rightarrow> uthread) \<Rightarrow> 'x uthst_scheme \<Rightarrow> 'x uthst_scheme" where
  "upd_ut i f s = s\<lparr>u_table := (u_table s)(i := f (u_table s i))\<rparr>"

definition cur_ut :: "'x uthst_scheme \<Rightarrow> uthread" where
  "cur_ut s = u_table s (current s)"

definition alarm_u :: "int \<Rightarrow> ('x uthst_scheme, unit) K" where
  "alarm_u ticks = kmod (\<lambda>s. s\<lparr>ualarm := ticks\<rparr>)"

definition uptime :: "('x uthst_scheme, u32) K" where
  "uptime = kbind (kget (\<lambda>s. uclock s (uclock_ix s))) (\<lambda>t. kthen (kmod (\<lambda>s. s\<lparr>uclock_ix := Suc (uclock_ix s)\<rparr>)) (kret t))"

text \<open>\<open>sigsend\<close> of \<open>SIGALRM\<close> to the own process: the handler runs next.\<close>

definition enter_schedule :: "('x uthst_scheme, 'a) K" where
  "enter_schedule = kfail Yields"

definition u_get :: "(u32 \<Rightarrow> u8) \<Rightarrow> u32 \<Rightarrow> nat \<Rightarrow> u8 list" where
  "u_get m a n = map (\<lambda>i. m (a + of_nat i)) [0..<n]"

definition u_put :: "(u32 \<Rightarrow> u8) \<Rightarrow> u32 \<Rightarrow> u8 list \<Rightarrow> u32 \<Rightarrow> u8" where
  "u_put m a bs x = (if unat (x - a) < length bs then bs ! unat (x - a) else m x)"

section \<open>Threads\<close>

definition uthread_init :: "u32 \<Rightarrow> ('x uthst_scheme, u32) K" where
  "uthread_init schedule_addr =
     kthen (kfor [0..<MAX_UTHREADS] (\<lambda>i. kmod (upd_ut i (\<lambda>u. u\<lparr>t_state := T_UNUSED\<rparr>))))
     (kthen (kmod (\<lambda>s. (upd_ut 0 (\<lambda>u. u\<lparr>t_tid := nexttid s, t_pid := u_pid s, t_state := T_RUNNING, t_stack := 0\<rparr>) s)
        \<lparr>nexttid := nexttid s + 1, numOfThreads := numOfThreads s + 1, current := 0, currentInd := 0\<rparr>))
     (kthen (kmod (upd_ut 0 (\<lambda>u. u\<lparr>t_ind := 0\<rparr>)))
     (kthen (kmod (\<lambda>s. s\<lparr>bsemtable := (\<lambda>j. if j < MAX_BSEM then 0 else bsemtable s j)\<rparr>))
     (kthen (kmod (\<lambda>s. s\<lparr>usignal := schedule_addr\<rparr>))
     enter_schedule))))"

definition uthread_init_resume :: "('x uthst_scheme, u32) K" where
  "uthread_init_resume = kget (\<lambda>s. t_tid (u_table s 0))"

definition find_unused :: "'x uthst_scheme \<Rightarrow> nat option" where
  "find_unused s = find (\<lambda>i. t_state (u_table s i) = T_UNUSED) [0..<MAX_UTHREADS]"

text \<open>The end of \<open>uthread_create\<close>: the stack of the new thread and its registers.\<close>

definition uthread_start :: "u32 \<Rightarrow> nat \<Rightarrow> u32 \<Rightarrow> u32 \<Rightarrow> ('x uthst_scheme, u32) K" where
  "uthread_start exit_addr i start_func arg =
     kbind (kget (\<lambda>s. t_stack (u_table s i) + STACKSIZE)) (\<lambda>sp.
     let sp = sp - 4 in
     kthen (kmod (\<lambda>s. s\<lparr>umem := store32 (umem s) sp arg\<rparr>))
     (let sp = sp - 4 in
     kthen (kmod (\<lambda>s. s\<lparr>umem := store32 (umem s) sp exit_addr\<rparr>))
     (kthen (kmod (upd_ut i (\<lambda>u. u\<lparr>t_tf := (t_tf u)\<lparr>tf_esp := sp, tf_eip := start_func\<rparr>, t_state := T_RUNNABLE\<rparr>)))
     (kthen (alarm_u UTHREAD_QUANTA)
     (kget (\<lambda>s. t_tid (u_table s i)))))))"

definition uthread_create :: "nat \<Rightarrow> u32 \<Rightarrow> u32 \<Rightarrow> u32 \<Rightarrow> ('x uthst_scheme, u32) K" where
  "uthread_create fuel exit_addr start_func arg =
     kthen (alarm_u 0)
     (kthen (kmod (\<lambda>s. s\<lparr>uprinted := uprinted s @ [(''creating threads num%d'', [nexttid s])]\<rparr>))
     (kbind (kget find_unused) (\<lambda>r.
     case r of
       None \<Rightarrow> kret (-1)
     | Some i \<Rightarrow>
         kthen (kmod (\<lambda>s. (upd_ut i (\<lambda>u. u\<lparr>t_tid := nexttid s, t_pid := u_pid s, t_tf := t_tf (cur_ut s), t_ind := i,
             t_numOfJoining := 0\<rparr>) s)\<lparr>numOfThreads := numOfThreads s + 1, nexttid := nexttid s + 1\<rparr>))
         (kbind (kget (\<lambda>s. t_stack (u_table s i))) (\<lambda>stk.
         if stk \<noteq> 0 then uthread_start exit_addr i start_func arg
         else
         kbind (malloc fuel STACKSIZE) (\<lambda>stk.
         kthen (kmod (upd_ut i (\<lambda>u. u\<lparr>t_stack := stk\<rparr>)))
         (if stk = 0 then kthen (kmod (upd_ut i (\<lambda>u. u\<lparr>t_state := T_UNUSED\<rparr>))) enter_schedule
          else uthread_start exit_addr i start_func arg)))))))"

fun u_findTrapframe :: "nat \<Rightarrow> u32 \<Rightarrow> ('x uthst_scheme, u32) K" where
  "u_findTrapframe 0 ans = kfail Diverges"
| "u_findTrapframe (Suc n) ans =
     kbind (kget (\<lambda>s. load32 (umem s) ans)) (\<lambda>runner.
     if runner \<noteq> 0xABCDEF then u_findTrapframe n (ans + 4) else kret (ans - 76))"

definition next_ut :: "nat \<Rightarrow> nat" where
  "next_ut i = (if Suc i \<ge> MAX_UTHREADS then 0 else Suc i)"

text \<open>The search for the next thread, with fuel: without a thread to run it waits for the clock.\<close>

fun schedule_loop :: "nat \<Rightarrow> nat \<Rightarrow> nat \<Rightarrow> ('x uthst_scheme, nat) K" where
  "schedule_loop 0 fuel i = kfail Diverges"
| "schedule_loop (Suc n) fuel i =
     kbind (kget (\<lambda>s. u_table s i)) (\<lambda>u.
     if t_state u = T_RUNNABLE then kret i
     else
     kbind (if t_state u = T_SLEEPING \<and> sint (t_wakeup u) > 0
            then kbind uptime (\<lambda>now. kret (sint (t_wakeup u) \<le> sint now)) else kret False) (\<lambda>due.
     if due then kthen (kmod (upd_ut i (\<lambda>u. u\<lparr>t_wakeup := 0, t_state := T_RUNNABLE\<rparr>))) (kret i)
     else
     kbind (kget cur_ut) (\<lambda>c.
     kthen (kwhen (t_state u = T_UNUSED \<and> t_stack u \<noteq> 0 \<and> t_tid u \<noteq> t_tid c \<and> t_tid u \<noteq> 1)
       (kthen (free fuel (t_stack u)) (kmod (upd_ut i (\<lambda>u. u\<lparr>t_stack := 0\<rparr>)))))
     (schedule_loop n fuel (next_ut i)))))"

definition schedule_switch :: "u32 \<Rightarrow> nat \<Rightarrow> ('x uthst_scheme, unit) K" where
  "schedule_switch tfAdd i =
     kthen (kmod (\<lambda>s. s\<lparr>umem := u_put (umem s) tfAdd (tf_bytes (t_tf (u_table s i)))\<rparr>))
     (kthen (kmod (\<lambda>s. s\<lparr>current := i, currentInd := t_ind (u_table s i)\<rparr>))
     (kthen (kmod (upd_ut i (\<lambda>u. u\<lparr>t_state := T_RUNNING\<rparr>)))
     (alarm_u UTHREAD_QUANTA)))"

text \<open>\<open>sp\<close> is the value of \<open>ebp\<close> in the handler.\<close>

definition uthread_schedule :: "nat \<Rightarrow> u32 \<Rightarrow> ('x uthst_scheme, unit) K" where
  "uthread_schedule fuel sp =
     kthen (alarm_u 0)
     (kbind (kget current) (\<lambda>c.
     kbind (u_findTrapframe fuel sp) (\<lambda>tfAdd.
     kthen (kmod (\<lambda>s. upd_ut c (\<lambda>u. u\<lparr>t_tf := tf_of_bytes (u_get (umem s) tfAdd 76)\<rparr>) s))
     (kthen (kmod (upd_ut c (\<lambda>u. if t_state u = T_RUNNING then u\<lparr>t_state := T_RUNNABLE\<rparr> else u)))
     (kbind (schedule_loop fuel fuel (next_ut c))
     (schedule_switch tfAdd))))))"

definition free_stack :: "nat \<Rightarrow> nat \<Rightarrow> ('x uthst_scheme, unit) K" where
  "free_stack fuel i =
     kbind (kget (\<lambda>s. t_stack (u_table s i))) (\<lambda>stk.
     kwhen (stk \<noteq> 0) (kthen (free fuel stk) (kmod (upd_ut i (\<lambda>u. u\<lparr>t_stack := 0\<rparr>)))))"

text \<open>Waking one of the threads that wait to join; the index of the list and that of the thread are checked.\<close>

definition wake_joining :: "nat \<Rightarrow> ('x uthst_scheme, unit) K" where
  "wake_joining j =
     (if j < MAX_UTHREADS
      then kbind (kget (\<lambda>s. unat (t_joiningList (cur_ut s) j))) (\<lambda>ind.
        if ind < MAX_UTHREADS then kmod (upd_ut ind (\<lambda>u. u\<lparr>t_state := T_RUNNABLE\<rparr>)) else kfail Wild)
      else kfail Wild)"

definition uthread_exit :: "nat \<Rightarrow> ('x uthst_scheme, unit) K" where
  "uthread_exit fuel =
     kthen (alarm_u 0)
     (kthen (kmod (\<lambda>s. s\<lparr>numOfThreads := numOfThreads s - 1\<rparr>))
     (kbind (kget numOfThreads) (\<lambda>n.
     kthen (kwhen (n \<le> 0) (kthen (kfor [0..<MAX_UTHREADS] (free_stack fuel)) (kfail Exits)))
     (kbind (kget (\<lambda>s. t_numOfJoining (cur_ut s))) (\<lambda>k.
     kthen (kfor [0..<unat k] wake_joining)
     (kthen (kmod (\<lambda>s. upd_ut (current s) (\<lambda>u. u\<lparr>t_state := T_UNUSED\<rparr>) s))
     enter_schedule))))))"

definition uthread_self :: "('x uthst_scheme, u32) K" where
  "uthread_self = kget (\<lambda>s. t_tid (cur_ut s))"

definition find_tid :: "u32 \<Rightarrow> 'x uthst_scheme \<Rightarrow> nat option" where
  "find_tid tid s = find (\<lambda>i. t_tid (u_table s i) = tid \<and> t_state (u_table s i) \<noteq> T_UNUSED) [0..<MAX_UTHREADS]"

definition uthread_join :: "u32 \<Rightarrow> ('x uthst_scheme, u32) K" where
  "uthread_join tid =
     kthen (alarm_u 0)
     (kbind (kget (find_tid tid)) (\<lambda>r.
     case r of
       None \<Rightarrow> kthen (alarm_u UTHREAD_QUANTA) (kret (-1))
     | Some i \<Rightarrow>
         kbind (kget (\<lambda>s. unat (t_numOfJoining (u_table s i)))) (\<lambda>n.
         if n < MAX_UTHREADS
         then kthen (kmod (\<lambda>s. upd_ut i (\<lambda>u. u\<lparr>t_joiningList := (t_joiningList u)(n := of_nat (t_ind (cur_ut s))),
             t_numOfJoining := t_numOfJoining u + 1\<rparr>) s))
           (kthen (kmod (\<lambda>s. upd_ut (current s) (\<lambda>u. u\<lparr>t_state := T_SLEEPING\<rparr>) s)) enter_schedule)
         else kfail Wild)))"

definition uthread_sleep :: "int \<Rightarrow> ('x uthst_scheme, u32) K" where
  "uthread_sleep ticks =
     kthen (alarm_u 0)
     (kbind uptime (\<lambda>current_ticks.
     if ticks < 0 then enter_schedule
     else
     kthen (kmod (\<lambda>s. upd_ut (current s) (\<lambda>u. u\<lparr>t_wakeup := (if ticks = 0 then 0 else of_int ticks + current_ticks)\<rparr>) s))
     (kthen (kmod (\<lambda>s. upd_ut (current s) (\<lambda>u. u\<lparr>t_state := T_SLEEPING\<rparr>) s))
     enter_schedule)))"

text \<open>What the calls return when the thread runs again.\<close>

definition uthread_join_resume :: "('x uthst_scheme, u32) K" where
  "uthread_join_resume = kret 0"

definition uthread_sleep_resume :: "int \<Rightarrow> ('x uthst_scheme, u32) K" where
  "uthread_sleep_resume ticks = kret (if ticks < 0 then -1 else 0)"

section \<open>Semaphores\<close>

definition bsem_index :: "int \<Rightarrow> ('x uthst_scheme, nat) K" where
  "bsem_index sem = (if 0 \<le> sem \<and> sem < int MAX_BSEM then kret (nat sem) else kfail Wild)"

text \<open>The loop runs to \<open>MAX_BSEM\<close>, one entry past the end of \<open>bsemtable\<close>.\<close>

definition findNextDecriptor :: "('x uthst_scheme, nat) K" where
  "findNextDecriptor =
     kbind (kget (\<lambda>s. find (\<lambda>i. bsemtable s i = 0) [1..<MAX_BSEM])) (\<lambda>r.
     case r of Some i \<Rightarrow> kret i | None \<Rightarrow> kfail Wild)"

definition upd_bsem :: "u32 \<Rightarrow> (bsem \<Rightarrow> bsem) \<Rightarrow> 'x uthst_scheme \<Rightarrow> 'x uthst_scheme" where
  "upd_bsem p f s = s\<lparr>bsems := (bsems s)(p := f (bsems s p))\<rparr>"

text \<open>The test \<open>bsemtable[desc] < 0\<close> on a pointer is false; the stores after it need a block.\<close>

definition bsem_alloc :: "nat \<Rightarrow> ('x uthst_scheme, int) K" where
  "bsem_alloc fuel =
     kbind findNextDecriptor (\<lambda>desc.
     kbind (malloc fuel 24) (\<lambda>p.
     kthen (kmod (\<lambda>s. s\<lparr>bsemtable := (bsemtable s)(desc := p)\<rparr>))
     (if p = 0 then kfail Wild
      else
      kthen (kmod (upd_bsem p (\<lambda>b. b\<lparr>bs_s := 1, bs_insert := 0, bs_toOut := 0, bs_waiting := 0, bs_size := MAX_UTHREADS\<rparr>)))
      (kbind (malloc fuel (4 * of_nat MAX_UTHREADS)) (\<lambda>l.
       kthen (kmod (upd_bsem p (\<lambda>b. b\<lparr>bs_list := l\<rparr>)))
       (if l = 0 then kret 0 else kret (int desc)))))))"

definition bsem_free :: "nat \<Rightarrow> int \<Rightarrow> ('x uthst_scheme, unit) K" where
  "bsem_free fuel sem =
     kbind (bsem_index sem) (\<lambda>d.
     kbind (kget (\<lambda>s. bsemtable s d)) (\<lambda>p.
     kwhen (p \<noteq> 0)
      (kbind (kget (\<lambda>s. bs_list (bsems s p))) (\<lambda>l.
       kthen (kwhen (l \<noteq> 0) (kthen (free fuel l) (kmod (upd_bsem p (\<lambda>b. b\<lparr>bs_list := 0\<rparr>)))))
       (kthen (free fuel p)
       (kmod (\<lambda>s. s\<lparr>bsemtable := (bsemtable s)(d := 0)\<rparr>)))))))"

text \<open>The semaphore a descriptor stands for; no entry is a null pointer that the code would follow.\<close>

definition bsem_at :: "int \<Rightarrow> ('x uthst_scheme, u32) K" where
  "bsem_at sem =
     kbind (bsem_index sem) (\<lambda>d.
     kbind (kget (\<lambda>s. bsemtable s d)) (\<lambda>p.
     if p = 0 then kfail Wild else kret p))"

definition set_list :: "u32 \<Rightarrow> nat \<Rightarrow> nat option \<Rightarrow> ('x uthst_scheme, unit) K" where
  "set_list p i v =
     kbind (kget (\<lambda>s. bs_list (bsems s p))) (\<lambda>l.
     if l = 0 \<or> i \<ge> MAX_UTHREADS then kfail Wild
     else kmod (\<lambda>s. s\<lparr>blists := (blists s)(l := (blists s l)(i := v))\<rparr>))"

definition bsem_down :: "int \<Rightarrow> ('x uthst_scheme, unit) K" where
  "bsem_down sem =
     kthen (alarm_u 0)
     (kbind (bsem_at sem) (\<lambda>p.
     kbind (kget (\<lambda>s. bsems s p)) (\<lambda>b.
     if bs_s b \<noteq> 0 then kthen (kmod (upd_bsem p (\<lambda>b. b\<lparr>bs_s := 0\<rparr>))) (alarm_u UTHREAD_QUANTA)
     else
     kbind (kget current) (\<lambda>c.
     kthen (set_list p (bs_insert b) (Some c))
     (kthen (kmod (upd_bsem p (\<lambda>b. b\<lparr>bs_insert := (bs_insert b + 1) mod MAX_UTHREADS, bs_waiting := bs_waiting b + 1\<rparr>)))
     (kthen (uthread_sleep 0) (kret ())))))))"

definition bsem_up :: "int \<Rightarrow> ('x uthst_scheme, unit) K" where
  "bsem_up sem =
     kthen (alarm_u 0)
     (kbind (bsem_at sem) (\<lambda>p.
     kbind (kget (\<lambda>s. bsems s p)) (\<lambda>b.
     if bs_waiting b = 0 \<and> bs_s b = 1 then kret ()
     else if bs_waiting b = 0 \<and> bs_s b = 0
     then kthen (kmod (upd_bsem p (\<lambda>b. b\<lparr>bs_s := 1\<rparr>))) (alarm_u UTHREAD_QUANTA)
     else
     kbind (kget (\<lambda>s. if bs_list b \<noteq> 0 \<and> bs_toOut b < MAX_UTHREADS then blists s (bs_list b) (bs_toOut b) else None)) (\<lambda>r.
     case r of
       None \<Rightarrow> kfail Wild
     | Some ut \<Rightarrow>
         kthen (set_list p (bs_toOut b) None)
         (kthen (kmod (upd_bsem p (\<lambda>b. b\<lparr>bs_toOut := (bs_toOut b + 1) mod MAX_UTHREADS, bs_waiting := bs_waiting b - 1\<rparr>)))
         (kthen (kmod (upd_ut ut (\<lambda>u. u\<lparr>t_state := T_RUNNABLE\<rparr>)))
         (alarm_u UTHREAD_QUANTA)))))))"

definition upd_csem :: "u32 \<Rightarrow> (csem \<Rightarrow> csem) \<Rightarrow> 'x uthst_scheme \<Rightarrow> 'x uthst_scheme" where
  "upd_csem p f s = s\<lparr>csems := (csems s)(p := f (csems s p))\<rparr>"

definition csem_alloc :: "nat \<Rightarrow> int \<Rightarrow> ('x uthst_scheme, u32) K" where
  "csem_alloc fuel init_val =
     kbind (malloc fuel 12) (\<lambda>sem.
     if sem = 0 then kret 0
     else
     kbind (bsem_alloc fuel) (\<lambda>s1.
     kthen (kmod (upd_csem sem (\<lambda>c. c\<lparr>cs_s1 := s1\<rparr>)))
     (kbind (bsem_alloc fuel) (\<lambda>s2.
     kthen (kmod (upd_csem sem (\<lambda>c. c\<lparr>cs_s2 := s2\<rparr>)))
     (kthen (kwhen (init_val < 1) (bsem_down s2))
     (kthen (kmod (upd_csem sem (\<lambda>c. c\<lparr>cs_val := init_val\<rparr>)))
     (kret sem)))))))"

definition csem_free :: "nat \<Rightarrow> u32 \<Rightarrow> ('x uthst_scheme, unit) K" where
  "csem_free fuel sem =
     kbind (kget (\<lambda>s. csems s sem)) (\<lambda>c.
     kthen (bsem_free fuel (cs_s1 c))
     (kthen (bsem_free fuel (cs_s2 c))
     (free fuel sem)))"

text \<open>
  A thread can stop in each call of \<open>bsem_down\<close>; \<open>down\<close> and \<open>up\<close> are cut after them.  What follows is made of
  three parts between which the scheduler can run: the count, the gate \<open>s2\<close>, the release of \<open>s1\<close>.
\<close>

definition add_val :: "int \<Rightarrow> u32 \<Rightarrow> ('x uthst_scheme, unit) K" where
  "add_val d sem = kmod (upd_csem sem (\<lambda>c. c\<lparr>cs_val := cs_val c + d\<rparr>))"

definition open_gate :: "(int \<Rightarrow> bool) \<Rightarrow> u32 \<Rightarrow> ('x uthst_scheme, unit) K" where
  "open_gate test sem = kbind (kget (\<lambda>s. csems s sem)) (\<lambda>c. kwhen (test (cs_val c)) (bsem_up (cs_s2 c)))"

definition leave_s1 :: "u32 \<Rightarrow> ('x uthst_scheme, unit) K" where
  "leave_s1 sem = kbind (kget (\<lambda>s. csems s sem)) (\<lambda>c. bsem_up (cs_s1 c))"

definition down_3 :: "u32 \<Rightarrow> ('x uthst_scheme, unit) K" where
  "down_3 sem = kthen (add_val (-1) sem) (kthen (open_gate (\<lambda>v. v > 0) sem) (leave_s1 sem))"

definition down_2 :: "u32 \<Rightarrow> ('x uthst_scheme, unit) K" where
  "down_2 sem = kbind (kget (\<lambda>s. cs_s1 (csems s sem))) (\<lambda>s1. kthen (bsem_down s1) (down_3 sem))"

definition down :: "u32 \<Rightarrow> ('x uthst_scheme, unit) K" where
  "down sem = kbind (kget (\<lambda>s. cs_s2 (csems s sem))) (\<lambda>s2. kthen (bsem_down s2) (down_2 sem))"

definition up_2 :: "u32 \<Rightarrow> ('x uthst_scheme, unit) K" where
  "up_2 sem = kthen (add_val 1 sem) (kthen (open_gate (\<lambda>v. v = 1) sem) (leave_s1 sem))"

definition up :: "u32 \<Rightarrow> ('x uthst_scheme, unit) K" where
  "up sem = kbind (kget (\<lambda>s. cs_s1 (csems s sem))) (\<lambda>s1. kthen (bsem_down s1) (up_2 sem))"

section \<open>The other side of the merge\<close>

record bisem =
  bi_s :: int
  bi_waitingThreads :: "nat \<Rightarrow> nat"
  bi_lastWaitingInd :: nat
  bi_totalWaitingThreads :: nat

record uthst_theirs = uthst +
  bisemtable :: "nat \<Rightarrow> u32"
  bisems :: "u32 \<Rightarrow> bisem"

definition uthread_init_theirs :: "u32 \<Rightarrow> ('x uthst_scheme, u32) K" where
  "uthread_init_theirs schedule_addr =
     kthen (kmod (\<lambda>s. (upd_ut 0 (\<lambda>u. u\<lparr>t_tid := nexttid s, t_pid := u_pid s, t_state := T_RUNNING, t_stack := 0, t_ind := 0\<rparr>) s)
        \<lparr>nexttid := nexttid s + 1, numOfThreads := numOfThreads s + 1, current := 0\<rparr>))
     (kthen (kmod (\<lambda>s. s\<lparr>usignal := schedule_addr\<rparr>))
     enter_schedule)"

definition uthread_create_theirs :: "nat \<Rightarrow> u32 \<Rightarrow> u32 \<Rightarrow> u32 \<Rightarrow> ('x uthst_scheme, u32) K" where
  "uthread_create_theirs fuel exit_addr start_func arg =
     kthen (alarm_u 0)
     (kbind (kget find_unused) (\<lambda>r.
     case r of
       None \<Rightarrow> kret (-1)
     | Some i \<Rightarrow>
         kthen (kmod (\<lambda>s. (upd_ut i (\<lambda>u. u\<lparr>t_ind := i, t_tid := nexttid s, t_pid := u_pid s, t_tf := t_tf (cur_ut s)\<rparr>) s)
           \<lparr>numOfThreads := numOfThreads s + 1, nexttid := nexttid s + 1\<rparr>))
         (kbind (kget (\<lambda>s. t_stack (u_table s i))) (\<lambda>stk.
         if stk \<noteq> 0 then uthread_start exit_addr i start_func arg
         else
         kbind (malloc fuel STACKSIZE) (\<lambda>stk.
         kthen (kmod (upd_ut i (\<lambda>u. u\<lparr>t_stack := stk\<rparr>)))
         (if stk = 0 then kthen (kmod (upd_ut i (\<lambda>u. u\<lparr>t_state := T_UNUSED\<rparr>))) enter_schedule
          else uthread_start exit_addr i start_func arg))))))"

definition schedule_switch_theirs :: "u32 \<Rightarrow> nat \<Rightarrow> ('x uthst_scheme, unit) K" where
  "schedule_switch_theirs tfadd i =
     kthen (kmod (\<lambda>s. s\<lparr>umem := u_put (umem s) tfadd (tf_bytes (t_tf (u_table s i)))\<rparr>))
     (kthen (kmod (\<lambda>s. s\<lparr>current := i\<rparr>))
     (kthen (kmod (upd_ut i (\<lambda>u. u\<lparr>t_state := T_RUNNING\<rparr>)))
     (alarm_u UTHREAD_QUANTA)))"

definition uthread_schedule_theirs :: "nat \<Rightarrow> u32 \<Rightarrow> ('x uthst_scheme, unit) K" where
  "uthread_schedule_theirs fuel sp =
     kbind uptime (\<lambda>now.
     kthen (kmod (\<lambda>s. s\<lparr>uprinted := uprinted s @ [(''-------------ticks are:%d'', [now])]\<rparr>))
     (kthen (alarm_u 0)
     (kbind (kget current) (\<lambda>c.
     kthen (kmod (upd_ut c (\<lambda>u. if t_state u = T_RUNNING then u\<lparr>t_state := T_RUNNABLE\<rparr> else u)))
     (kbind (u_findTrapframe fuel sp) (\<lambda>tfadd.
     kthen (kmod (\<lambda>s. upd_ut c (\<lambda>u. u\<lparr>t_tf := tf_of_bytes (u_get (umem s) tfadd 76)\<rparr>) s))
     (kbind (schedule_loop fuel fuel (next_ut c))
     (schedule_switch_theirs tfadd))))))))"

definition wake_joining_theirs :: "nat \<Rightarrow> ('x uthst_scheme, unit) K" where
  "wake_joining_theirs i =
     kbind (kget (\<lambda>s. t_state (u_table s i) = T_SLEEPING \<and> t_joining (u_table s i) = t_tid (cur_ut s))) (\<lambda>b.
     kwhen b (kmod (upd_ut i (\<lambda>u. u\<lparr>t_joining := 0, t_state := T_RUNNABLE\<rparr>))))"

definition uthread_exit_theirs :: "nat \<Rightarrow> ('x uthst_scheme, unit) K" where
  "uthread_exit_theirs fuel =
     kthen (alarm_u 0)
     (kthen (kmod (\<lambda>s. s\<lparr>numOfThreads := numOfThreads s - 1\<rparr>))
     (kbind (kget numOfThreads) (\<lambda>n.
     kthen (kwhen (n \<le> 1) (kthen (kfor [0..<MAX_UTHREADS] (free_stack fuel)) (kfail Exits)))
     (kthen (kfor [0..<MAX_UTHREADS] wake_joining_theirs)
     (kthen (kmod (\<lambda>s. upd_ut (current s) (\<lambda>u. u\<lparr>t_state := T_UNUSED\<rparr>) s))
     enter_schedule)))))"

definition uthread_join_theirs :: "u32 \<Rightarrow> ('x uthst_scheme, u32) K" where
  "uthread_join_theirs tid =
     kthen (alarm_u 0)
     (kbind (kget (find_tid tid)) (\<lambda>r.
     case r of
       None \<Rightarrow> kthen (alarm_u UTHREAD_QUANTA) (kret (-1))
     | Some i \<Rightarrow>
         kthen (kmod (\<lambda>s. upd_ut (current s) (\<lambda>u. u\<lparr>t_joining := tid, t_state := T_SLEEPING\<rparr>) s)) enter_schedule))"

text \<open>This side's table has \<open>MAX_BSEM + 1\<close> entries; the result \<open>-1\<close> is used as an index.\<close>

definition findNextDecriptor_theirs :: "('x uthst_theirs_scheme, int) K" where
  "findNextDecriptor_theirs =
     kget (\<lambda>s. case find (\<lambda>i. bisemtable s i = 0) [1..<MAX_BSEM + 1] of Some i \<Rightarrow> int i | None \<Rightarrow> -1)"

definition upd_bisem :: "u32 \<Rightarrow> (bisem \<Rightarrow> bisem) \<Rightarrow> 'x uthst_theirs_scheme \<Rightarrow> 'x uthst_theirs_scheme" where
  "upd_bisem p f s = s\<lparr>bisems := (bisems s)(p := f (bisems s p))\<rparr>"

definition bisem_at :: "int \<Rightarrow> ('x uthst_theirs_scheme, u32) K" where
  "bisem_at sem =
     (if 0 \<le> sem \<and> sem \<le> int MAX_BSEM
      then kbind (kget (\<lambda>s. bisemtable s (nat sem))) (\<lambda>p. if p = 0 then kfail Wild else kret p)
      else kfail Wild)"

definition bsem_alloc_theirs :: "nat \<Rightarrow> ('x uthst_theirs_scheme, int) K" where
  "bsem_alloc_theirs fuel =
     kbind findNextDecriptor_theirs (\<lambda>desc.
     kbind (malloc fuel (12 + 4 * of_nat MAX_UTHREADS)) (\<lambda>p.
     if desc < 0 then kfail Wild
     else
     kthen (kmod (\<lambda>s. s\<lparr>bisemtable := (bisemtable s)(nat desc := p)\<rparr>))
     (if p = 0 then kfail Wild else kthen (kmod (upd_bisem p (\<lambda>b. b\<lparr>bi_s := 1, bi_lastWaitingInd := 0, bi_totalWaitingThreads := 0\<rparr>)))
     (kret desc))))"

text \<open>A semaphore with waiting threads is not freed; a message is printed instead.\<close>

definition bsem_free_theirs :: "nat \<Rightarrow> int \<Rightarrow> ('x uthst_theirs_scheme, unit) K" where
  "bsem_free_theirs fuel sem =
     kbind (bisem_at sem) (\<lambda>p.
     kbind (kget (\<lambda>s. bi_totalWaitingThreads (bisems s p))) (\<lambda>n.
     if n = 0 then kthen (free fuel p) (kmod (\<lambda>s. s\<lparr>bisemtable := (bisemtable s)(nat sem := 0)\<rparr>))
     else kmod (\<lambda>s. s\<lparr>uprinted := uprinted s @ [(''There are still threads waiting on semaphore'', [])]\<rparr>)))"

definition bsem_down_theirs :: "int \<Rightarrow> ('x uthst_theirs_scheme, unit) K" where
  "bsem_down_theirs sem =
     kthen (alarm_u 0)
     (kbind (bisem_at sem) (\<lambda>p.
     kbind (kget (\<lambda>s. bisems s p)) (\<lambda>b.
     if bi_s b = 0 then kthen (kmod (upd_bisem p (\<lambda>b. b\<lparr>bi_s := 1\<rparr>))) (alarm_u UTHREAD_QUANTA)
     else if bi_lastWaitingInd b \<ge> MAX_UTHREADS then kfail Wild
     else
     kthen (kmod (\<lambda>s. upd_bisem p (\<lambda>b. b\<lparr>bi_waitingThreads := (bi_waitingThreads b)(bi_lastWaitingInd b := t_ind (cur_ut s))\<rparr>) s))
     (kthen (uthread_sleep 0) (kret ())))))"

definition bsem_down_theirs_resume :: "u32 \<Rightarrow> ('x uthst_theirs_scheme, unit) K" where
  "bsem_down_theirs_resume p =
     kthen (kmod (upd_bisem p (\<lambda>b. b\<lparr>bi_lastWaitingInd := bi_lastWaitingInd b + 1,
        bi_totalWaitingThreads := bi_totalWaitingThreads b + 1\<rparr>)))
     (alarm_u UTHREAD_QUANTA)"

text \<open>The loop that should move the queue up changes neither of its variables.\<close>

fun shift_queue :: "nat \<Rightarrow> u32 \<Rightarrow> nat \<Rightarrow> nat \<Rightarrow> ('x uthst_theirs_scheme, unit) K" where
  "shift_queue 0 p i j = kfail Diverges"
| "shift_queue (Suc n) p i j =
     kbind (kget (\<lambda>s. j < bi_lastWaitingInd (bisems s p))) (\<lambda>go.
     if go then
       kthen (kmod (upd_bisem p (\<lambda>b. b\<lparr>bi_waitingThreads := (bi_waitingThreads b)(i := bi_waitingThreads b j)\<rparr>)))
       (shift_queue n p i j)
     else kret ())"

definition bsem_up_theirs :: "nat \<Rightarrow> int \<Rightarrow> ('x uthst_theirs_scheme, unit) K" where
  "bsem_up_theirs fuel sem =
     kbind (bisem_at sem) (\<lambda>p.
     kthen (alarm_u 0)
     (kbind (kget (\<lambda>s. bisems s p)) (\<lambda>b.
     kthen (kwhen (bi_totalWaitingThreads b > 0)
      (let firstInQ = bi_waitingThreads b 0 in
       if firstInQ \<ge> MAX_UTHREADS \<or> bi_lastWaitingInd b \<ge> MAX_UTHREADS then kfail Wild
       else
       kthen (kmod (upd_ut firstInQ (\<lambda>u. u\<lparr>t_state := T_RUNNABLE\<rparr>)))
       (kthen (shift_queue fuel p 0 1)
       (kthen (kmod (upd_bisem p (\<lambda>b. b\<lparr>bi_waitingThreads := (bi_waitingThreads b)(bi_lastWaitingInd b := 0),
          bi_lastWaitingInd := bi_lastWaitingInd b - 1, bi_totalWaitingThreads := bi_totalWaitingThreads b - 1\<rparr>)))
       (kmod (upd_bisem p (\<lambda>b. if bi_totalWaitingThreads b = 0 then b\<lparr>bi_s := 1\<rparr> else b)))))))
     (alarm_u UTHREAD_QUANTA))))"

definition csem_alloc_theirs :: "nat \<Rightarrow> int \<Rightarrow> ('x uthst_theirs_scheme, u32) K" where
  "csem_alloc_theirs fuel init_val =
     kbind (malloc fuel 12) (\<lambda>sem.
     kbind (bsem_alloc_theirs fuel) (\<lambda>s1.
     if sem = 0 then kfail Wild
     else
     kthen (kmod (upd_csem sem (\<lambda>c. c\<lparr>cs_s1 := s1\<rparr>)))
     (kbind (bsem_alloc_theirs fuel) (\<lambda>s2.
     kthen (kmod (upd_csem sem (\<lambda>c. c\<lparr>cs_s2 := s2\<rparr>)))
     (kthen (kwhen (init_val < 1) (bsem_down_theirs s2))
     (kthen (kmod (upd_csem sem (\<lambda>c. c\<lparr>cs_val := init_val\<rparr>)))
     (kret sem)))))))"

definition csem_free_theirs :: "nat \<Rightarrow> u32 \<Rightarrow> ('x uthst_theirs_scheme, unit) K" where
  "csem_free_theirs fuel sem =
     kbind (kget (\<lambda>s. csems s sem)) (\<lambda>c.
     kthen (bsem_free_theirs fuel (cs_s1 c))
     (kthen (bsem_free_theirs fuel (cs_s2 c))
     (free fuel sem)))"

definition down_theirs_3 :: "nat \<Rightarrow> u32 \<Rightarrow> ('x uthst_theirs_scheme, unit) K" where
  "down_theirs_3 fuel sem =
     kthen (kmod (upd_csem sem (\<lambda>c. c\<lparr>cs_val := cs_val c - 1\<rparr>)))
     (kbind (kget (\<lambda>s. csems s sem)) (\<lambda>c.
     kthen (kwhen (cs_val c > 0) (bsem_up_theirs fuel (cs_s2 c)))
     (bsem_up_theirs fuel (cs_s1 c))))"

definition down_theirs :: "nat \<Rightarrow> u32 \<Rightarrow> ('x uthst_theirs_scheme, unit) K" where
  "down_theirs fuel sem =
     kbind (kget (\<lambda>s. csems s sem)) (\<lambda>c.
     kthen (bsem_down_theirs (cs_s2 c)) (kthen (bsem_down_theirs (cs_s1 c)) (down_theirs_3 fuel sem)))"

definition up_theirs_2 :: "nat \<Rightarrow> u32 \<Rightarrow> ('x uthst_theirs_scheme, unit) K" where
  "up_theirs_2 fuel sem =
     kthen (kmod (upd_csem sem (\<lambda>c. c\<lparr>cs_val := cs_val c + 1\<rparr>)))
     (kbind (kget (\<lambda>s. csems s sem)) (\<lambda>c.
     kthen (kwhen (cs_val c = 1) (bsem_up_theirs fuel (cs_s2 c)))
     (bsem_up_theirs fuel (cs_s1 c))))"

definition up_theirs :: "nat \<Rightarrow> u32 \<Rightarrow> ('x uthst_theirs_scheme, unit) K" where
  "up_theirs fuel sem =
     kbind (kget (\<lambda>s. csems s sem)) (\<lambda>c. kthen (bsem_down_theirs (cs_s1 c)) (up_theirs_2 fuel sem))"

end
