(* ===== verification/Xv6_Usched.thy ===== *)
theory Xv6_Usched
  imports Xv6_Uthread
begin

text \<open>
  Switching user-level threads.  \<open>uthread_schedule\<close> ends when a thread can run, saves the registers of the
  interrupted thread, takes the next thread in turn and puts its registers where \<open>sigreturn\<close> will find
  them; a thread that stays runnable gets its turn.
\<close>

section \<open>Turns\<close>

text \<open>The thread that the search meets after \<open>k\<close> steps, and the number of steps to a thread.\<close>

definition turn :: "nat \<Rightarrow> nat \<Rightarrow> nat" where
  "turn c k = (c + 1 + k) mod MAX_UTHREADS"

definition steps_to :: "nat \<Rightarrow> nat \<Rightarrow> nat" where
  "steps_to c i = (i + (MAX_UTHREADS - 1) - c) mod MAX_UTHREADS"

lemma mod_twice: "x < 2 * n \<Longrightarrow> x mod n = (if x < n then x else x - n)" for x n :: nat
  by (auto simp: not_less le_mod_geq)

lemma turn_next: "next_ut (turn c k) = turn c (Suc k)"
proof -
  have "turn c k < 64" by (simp add: turn_def param_defs)
  moreover have "turn c (Suc k) = Suc (turn c k) mod 64" by (simp add: turn_def param_defs mod_Suc_eq)
  ultimately show ?thesis by (simp add: next_ut_def param_defs mod_Suc)
qed

lemma turn_first: "c < MAX_UTHREADS \<Longrightarrow> next_ut c = turn c 0"
  by (auto simp: next_ut_def turn_def param_defs mod_Suc)

lemma turn_less: "turn c k < MAX_UTHREADS"
  by (simp add: turn_def param_defs)

lemma steps_turn: "c < MAX_UTHREADS \<Longrightarrow> k < MAX_UTHREADS \<Longrightarrow> steps_to c (turn c k) = k"
  by (auto simp: steps_to_def turn_def param_defs mod_twice)

lemma turn_steps: "c < MAX_UTHREADS \<Longrightarrow> i < MAX_UTHREADS \<Longrightarrow> turn c (steps_to c i) = i"
  by (auto simp: steps_to_def turn_def param_defs mod_twice)

lemma steps_less: "steps_to c i < MAX_UTHREADS"
  by (simp add: steps_to_def param_defs)

lemma steps_decrease:
  assumes "c < MAX_UTHREADS" "i < MAX_UTHREADS" "j < MAX_UTHREADS" "steps_to c j \<le> steps_to c i" "j \<noteq> i"
  shows "steps_to j i < steps_to c i"
  using assms by (auto simp: steps_to_def param_defs mod_twice split: if_splits)

section \<open>The search\<close>

text \<open>
  Each stack is a block of its own from \<open>malloc\<close>; the main thread has none.
\<close>

definition stacks_ok :: "'x uthst_scheme \<Rightarrow> (u32 \<times> nat) list \<Rightarrow> bool" where
  "stacks_ok s L =
     (uinv s L \<and> distinct (map fst L) \<and>
      (\<forall>i < MAX_UTHREADS. t_stack (u_table s i) \<noteq> 0 \<longrightarrow> (t_stack (u_table s i), unat STACKSIZE) \<in> set L) \<and>
      (\<forall>i < MAX_UTHREADS. \<forall>j < MAX_UTHREADS. i \<noteq> j \<longrightarrow> t_stack (u_table s i) \<noteq> 0 \<longrightarrow>
         t_stack (u_table s i) \<noteq> t_stack (u_table s j)))"

text \<open>The search frees stacks of other threads that have ended and reads the clock; it changes nothing else.\<close>

definition same_but_stack :: "u32 \<Rightarrow> uthread \<Rightarrow> uthread \<Rightarrow> bool" where
  "same_but_stack c u v = (\<exists>x. v = u\<lparr>t_stack := x\<rparr> \<and> (x = t_stack u \<or> t_state u = T_UNUSED \<and> t_tid u \<noteq> c))"

definition sframe :: "'x uthst_scheme \<Rightarrow> 'x uthst_scheme \<Rightarrow> bool" where
  "sframe s t = (\<exists>m b g f ut k. t = s\<lparr>umem := m, ubrk := b, ugrants := g, freep := f, u_table := ut, uclock_ix := k\<rparr> \<and>
     (\<forall>i. same_but_stack (t_tid (cur_ut s)) (u_table s i) (ut i)))"

lemma same_but_stack_refl: "same_but_stack c u u"
  unfolding same_but_stack_def by (intro exI [of _ "t_stack u"]) simp

lemma same_but_stack_trans: "same_but_stack c u v \<Longrightarrow> same_but_stack c v w \<Longrightarrow> same_but_stack c u w"
proof -
  assume "same_but_stack c u v" "same_but_stack c v w"
  then obtain x y where "v = u\<lparr>t_stack := x\<rparr>" "x = t_stack u \<or> t_state u = T_UNUSED \<and> t_tid u \<noteq> c" "w = v\<lparr>t_stack := y\<rparr>"
    "y = t_stack v \<or> t_state v = T_UNUSED \<and> t_tid v \<noteq> c"
    unfolding same_but_stack_def by blast
  then show ?thesis unfolding same_but_stack_def by (intro exI [of _ y]) auto
qed

lemma same_but_stack_fields:
  assumes "same_but_stack c u v"
  shows "t_state v = t_state u" "t_tf v = t_tf u" "t_tid v = t_tid u" "t_wakeup v = t_wakeup u" "t_ind v = t_ind u"
  using assms by (auto simp: same_but_stack_def)

lemma sframe_fields:
  assumes "sframe s t"
  shows "current t = current s" "u_base t = u_base s" "same_but_stack (t_tid (cur_ut s)) (u_table s i) (u_table t i)" "bsems t = bsems s"
    "bsemtable t = bsemtable s" "blists t = blists s" "csems t = csems s"
  using assms by (auto simp: sframe_def)

lemma sframe_refl: "sframe s s"
  unfolding sframe_def
  by (intro exI [of _ "umem s"] exI [of _ "ubrk s"] exI [of _ "ugrants s"] exI [of _ "freep s"] exI [of _ "u_table s"] exI [of _ "uclock_ix s"])
    (simp add: same_but_stack_refl)

lemma sframe_trans: "sframe s t \<Longrightarrow> sframe t u \<Longrightarrow> sframe s u"
proof -
  assume st: "sframe s t" and tu: "sframe t u"
  then obtain m b g f ut k m' b' g' f' ut' k' where
    t: "t = s\<lparr>umem := m, ubrk := b, ugrants := g, freep := f, u_table := ut, uclock_ix := k\<rparr>" and
    u: "u = t\<lparr>umem := m', ubrk := b', ugrants := g', freep := f', u_table := ut', uclock_ix := k'\<rparr>"
    unfolding sframe_def by blast
  have "t_tid (cur_ut t) = t_tid (cur_ut s)"
    using sframe_fields(1) [OF st] same_but_stack_fields(3) [OF sframe_fields(3) [OF st, of "current s"]] by (simp add: cur_ut_def)
  then have "\<forall>i. same_but_stack (t_tid (cur_ut s)) (u_table s i) (u_table u i)"
    using sframe_fields(3) [OF st] sframe_fields(3) [OF tu] same_but_stack_trans by metis
  then show ?thesis
    unfolding sframe_def using t u
    by (intro exI [of _ m'] exI [of _ b'] exI [of _ g'] exI [of _ f'] exI [of _ ut'] exI [of _ k']) simp
qed

lemma stacks_ok_clock [simp]: "stacks_ok (s\<lparr>uclock_ix := k\<rparr>) L = stacks_ok s L"
proof -
  have "uinv (s\<lparr>uclock_ix := k\<rparr>) L = uinv s L" by (simp add: uinv_def heap_inv_def heap_fresh_def)
  then show ?thesis by (simp add: stacks_ok_def)
qed

lemma sframe_clock: "sframe s (s\<lparr>uclock_ix := k\<rparr>)"
  unfolding sframe_def
  by (intro exI [of _ "umem s"] exI [of _ "ubrk s"] exI [of _ "ugrants s"] exI [of _ "freep s"] exI [of _ "u_table s"] exI [of _ k])
    (simp add: same_but_stack_refl)

lemma uinv_ut [simp]: "uinv (upd_ut i f s) L = uinv s L"
  by (simp add: uinv_def heap_inv_def heap_fresh_def upd_ut_def)

text \<open>Freeing the stack of a thread that has ended.\<close>

lemma free_dead_stack:
  assumes ok: "stacks_ok s L" and i: "i < MAX_UTHREADS" "t_stack (u_table s i) \<noteq> 0" "t_state (u_table s i) = T_UNUSED"
      "t_tid (u_table s i) \<noteq> t_tid (cur_ut s)" and fuel: "2 ^ 30 \<le> fuel"
  shows "\<exists>t L'. kthen (free fuel (t_stack (u_table s i))) (kmod (upd_ut i (\<lambda>u. u\<lparr>t_stack := 0\<rparr>))) s = (Val (), t) \<and>
    stacks_ok t L' \<and> sframe s t"
proof -
  let ?st = "t_stack (u_table s i)"
  have "(?st, unat STACKSIZE) \<in> set L" using ok i by (simp add: stacks_ok_def)
  then obtain L1 L2 where L: "L = L1 @ (?st, unat STACKSIZE) # L2" by (meson split_list)
  have u: "uinv s ((?st, unat STACKSIZE) # L1 @ L2)" using ok uinv_pull unfolding L by (auto simp: stacks_ok_def)
  obtain t where t: "free fuel ?st s = (Val (), t)" "uinv t (L1 @ L2)" "uframe s t" using uinv_free [OF u fuel] by auto
  obtain m b g f where f: "t = s\<lparr>umem := m, ubrk := b, ugrants := g, freep := f\<rparr>" using t(3) by (auto simp: uframe_def)
  let ?t = "upd_ut i (\<lambda>u. u\<lparr>t_stack := 0\<rparr>) t"
  have "kthen (free fuel ?st) (kmod (upd_ut i (\<lambda>u. u\<lparr>t_stack := 0\<rparr>))) s = (Val (), ?t)"
    using t(1) by (simp add: kbind_def kmod_def)
  moreover have "stacks_ok ?t (L1 @ L2)"
  proof -
    have "uinv ?t (L1 @ L2)" using t(2) by simp
    moreover have "(t_stack (u_table ?t j), unat STACKSIZE) \<in> set (L1 @ L2)" if j: "j < MAX_UTHREADS" "t_stack (u_table ?t j) \<noteq> 0" for j
    proof -
      have "j \<noteq> i" "t_stack (u_table ?t j) = t_stack (u_table s j)" using j by (auto simp: upd_ut_def f)
      moreover have "t_stack (u_table s j) \<noteq> ?st" using ok i j calculation by (auto simp: stacks_ok_def)
      moreover have "(t_stack (u_table s j), unat STACKSIZE) \<in> set L" using ok j calculation(2) by (simp add: stacks_ok_def)
      ultimately show ?thesis unfolding L by auto
    qed
    moreover have "t_stack (u_table ?t j) \<noteq> t_stack (u_table ?t k)"
      if "j < MAX_UTHREADS" "k < MAX_UTHREADS" "j \<noteq> k" "t_stack (u_table ?t j) \<noteq> 0" for j k
      using ok that by (auto simp: stacks_ok_def upd_ut_def f split: if_splits)
    moreover have "distinct (map fst (L1 @ L2))" using ok unfolding L by (simp add: stacks_ok_def)
    ultimately show ?thesis unfolding stacks_ok_def by blast
  qed
  moreover have kept: "same_but_stack (t_tid (cur_ut s)) (u_table s j) (((u_table s)(i := (u_table s i)\<lparr>t_stack := 0\<rparr>)) j)" for j
  proof (cases "j = i")
    case True
    then show ?thesis using i(3,4) by (auto simp: same_but_stack_def)
  qed (simp add: same_but_stack_refl)
  moreover have "sframe s ?t"
    unfolding sframe_def
    by (intro exI [of _ m] exI [of _ b] exI [of _ g] exI [of _ f] exI [of _ "(u_table s)(i := (u_table s i)\<lparr>t_stack := 0\<rparr>)"]
        exI [of _ "uclock_ix s"]) (use kept in \<open>simp add: f upd_ut_def\<close>)
  ultimately show ?thesis by blast
qed

lemma schedule_step:
  assumes ok: "stacks_ok s L" and i: "i < MAX_UTHREADS" "t_state (u_table s i) \<noteq> T_RUNNABLE" and fuel: "2 ^ 30 \<le> fuel"
  shows "(\<exists>t. schedule_loop (Suc n) fuel i s = (Val i, upd_ut i (\<lambda>u. u\<lparr>t_wakeup := 0, t_state := T_RUNNABLE\<rparr>) t) \<and>
      sframe s t \<and> stacks_ok t L \<and> t_state (u_table s i) = T_SLEEPING \<and> 0 < sint (t_wakeup (u_table s i))) \<or>
    (\<exists>t L'. schedule_loop (Suc n) fuel i s = schedule_loop n fuel (next_ut i) t \<and> sframe s t \<and> stacks_ok t L')"
proof -
  let ?u = "u_table s i"
  show ?thesis
  proof (cases "t_state ?u = T_SLEEPING \<and> sint (t_wakeup ?u) > 0")
    case True
    let ?t = "s\<lparr>uclock_ix := Suc (uclock_ix s)\<rparr>"
    show ?thesis
    proof (cases "sint (t_wakeup ?u) \<le> sint (uclock s (uclock_ix s))")
      case due: True
      have "schedule_loop (Suc n) fuel i s = (Val i, upd_ut i (\<lambda>u. u\<lparr>t_wakeup := 0, t_state := T_RUNNABLE\<rparr>) ?t)"
        using True due by (simp add: uptime_def kbind_def kget_def kmod_def kret_def)
      then show ?thesis using True sframe_clock ok by (intro disjI1 exI [of _ ?t]) simp
    next
      case False
      then have "schedule_loop (Suc n) fuel i s = schedule_loop n fuel (next_ut i) ?t"
        using True by (simp add: uptime_def kbind_def kget_def kmod_def kret_def)
      then show ?thesis using sframe_clock ok by (intro disjI2 exI [of _ ?t] exI [of _ L]) simp
    qed
  next
    case False
    show ?thesis
    proof (cases "t_state ?u = T_UNUSED \<and> t_stack ?u \<noteq> 0 \<and> t_tid ?u \<noteq> t_tid (cur_ut s) \<and> t_tid ?u \<noteq> 1")
      case True
      then obtain t L' where t: "kthen (free fuel (t_stack ?u)) (kmod (upd_ut i (\<lambda>u. u\<lparr>t_stack := 0\<rparr>))) s = (Val (), t)"
        "stacks_ok t L'" "sframe s t"
        using free_dead_stack [OF ok i(1) _ _ _ fuel] by blast
      have "schedule_loop (Suc n) fuel i s =
          kbind (kthen (free fuel (t_stack ?u)) (kmod (upd_ut i (\<lambda>u. u\<lparr>t_stack := 0\<rparr>)))) (\<lambda>_. schedule_loop n fuel (next_ut i)) s"
        using True i(2) False by simp
      also have "\<dots> = schedule_loop n fuel (next_ut i) t"
        by (rule kbind_Val [where f = "kthen (free fuel (t_stack ?u)) (kmod (upd_ut i (\<lambda>u. u\<lparr>t_stack := 0\<rparr>)))", OF t(1)])
      finally have "schedule_loop (Suc n) fuel i s = schedule_loop n fuel (next_ut i) t" .
      then show ?thesis using t(2,3) by blast
    next
      case none: False
      have "schedule_loop (Suc n) fuel i s = schedule_loop n fuel (next_ut i) s"
        using False none i(2) by (auto simp: kwhen_def)
      then show ?thesis using ok sframe_refl by blast
    qed
  qed
qed

lemma schedule_loop_ok:
  assumes "stacks_ok s L" and "k \<le> d" and "t_state (u_table s (turn c d)) = T_RUNNABLE" and "d - k < n" and fuel: "2 ^ 30 \<le> fuel"
  shows "\<exists>t e L'. k \<le> e \<and> e \<le> d \<and> sframe s t \<and> stacks_ok t L' \<and>
    (\<forall>x. k \<le> x \<and> x < e \<longrightarrow> t_state (u_table s (turn c x)) \<noteq> T_RUNNABLE) \<and>
    (schedule_loop n fuel (turn c k) s = (Val (turn c e), t) \<and> t_state (u_table s (turn c e)) = T_RUNNABLE \<or>
     schedule_loop n fuel (turn c k) s = (Val (turn c e), upd_ut (turn c e) (\<lambda>u. u\<lparr>t_wakeup := 0, t_state := T_RUNNABLE\<rparr>) t) \<and>
     t_state (u_table s (turn c e)) = T_SLEEPING \<and> 0 < sint (t_wakeup (u_table s (turn c e))))"
  using assms(1-4)
proof (induction "d - k" arbitrary: k n s L)
  case 0
  then have "k = d" by simp
  moreover obtain n' where "n = Suc n'" using 0 by (cases n) auto
  ultimately have "schedule_loop n fuel (turn c k) s = (Val (turn c k), s)" using 0 by (simp add: kret_def)
  then show ?case using 0 sframe_refl \<open>k = d\<close> by (intro exI [of _ s] exI [of _ k] exI [of _ L]) auto
next
  case (Suc m)
  obtain n' where n: "n = Suc n'" "d - Suc k < n'" using Suc.prems(4) Suc.hyps(2) by (cases n) auto
  show ?case
  proof (cases "t_state (u_table s (turn c k)) = T_RUNNABLE")
    case True
    then have "schedule_loop n fuel (turn c k) s = (Val (turn c k), s)" using n by (simp add: kret_def)
    then show ?thesis using True Suc.prems sframe_refl by (intro exI [of _ s] exI [of _ k] exI [of _ L]) auto
  next
    case False
    from schedule_step [OF Suc.prems(1) turn_less False fuel, of n']
    show ?thesis
    proof (elim disjE exE conjE)
      fix t
      assume "schedule_loop (Suc n') fuel (turn c k) s = (Val (turn c k), upd_ut (turn c k) (\<lambda>u. u\<lparr>t_wakeup := 0, t_state := T_RUNNABLE\<rparr>) t)"
        "sframe s t" "stacks_ok t L" "t_state (u_table s (turn c k)) = T_SLEEPING" "0 < sint (t_wakeup (u_table s (turn c k)))"
      then show ?thesis using Suc.prems n(1) by (intro exI [of _ t] exI [of _ k] exI [of _ L]) auto
    next
      fix t L'
      assume t: "schedule_loop (Suc n') fuel (turn c k) s = schedule_loop n' fuel (next_ut (turn c k)) t" "sframe s t" "stacks_ok t L'"
      have st: "t_state (u_table t x) = t_state (u_table s x)" "t_wakeup (u_table t x) = t_wakeup (u_table s x)" for x
        using same_but_stack_fields [OF sframe_fields(3) [OF t(2), of x]] by simp_all
      have "m = d - Suc k" "Suc k \<le> d" using Suc.hyps(2) by simp_all
      from Suc.hyps(1) [OF this(1) t(3) this(2) _ n(2)] Suc.prems(3)
      obtain u e L'' where u: "Suc k \<le> e" "e \<le> d" "sframe t u" "stacks_ok u L''"
        "\<forall>x. Suc k \<le> x \<and> x < e \<longrightarrow> t_state (u_table t (turn c x)) \<noteq> T_RUNNABLE"
        "schedule_loop n' fuel (turn c (Suc k)) t = (Val (turn c e), u) \<and> t_state (u_table t (turn c e)) = T_RUNNABLE \<or>
         schedule_loop n' fuel (turn c (Suc k)) t = (Val (turn c e), upd_ut (turn c e) (\<lambda>u. u\<lparr>t_wakeup := 0, t_state := T_RUNNABLE\<rparr>) u) \<and>
         t_state (u_table t (turn c e)) = T_SLEEPING \<and> 0 < sint (t_wakeup (u_table t (turn c e)))"
        unfolding st by blast
      have e: "schedule_loop n fuel (turn c k) s = schedule_loop n' fuel (turn c (Suc k)) t"
        using t(1) n(1) turn_next by simp
      have "\<forall>x. k \<le> x \<and> x < e \<longrightarrow> t_state (u_table s (turn c x)) \<noteq> T_RUNNABLE"
        using u(5) False unfolding st by (metis Suc_leI le_neq_implies_less)
      then show ?thesis
        using u sframe_trans [OF t(2) u(3)] unfolding e st by (intro exI [of _ u] exI [of _ e] exI [of _ L'']) auto
    qed
  qed
qed

section \<open>The switch\<close>

text \<open>The marker is \<open>k\<close> words above \<open>sp\<close>, no word before it looks like it, and the saved registers are below it.\<close>

definition handler_frame :: "(u32 \<Rightarrow> u8) \<Rightarrow> u32 \<Rightarrow> nat \<Rightarrow> u32 \<Rightarrow> bool" where
  "handler_frame m sp k a =
     (load32 m (sp + 4 * of_nat k) = 0xABCDEF \<and> (\<forall>j < k. load32 m (sp + 4 * of_nat j) \<noteq> 0xABCDEF) \<and> a = sp + 4 * of_nat k - 76)"

lemma find_frame:
  "handler_frame (umem s) sp k a \<Longrightarrow> k < n \<Longrightarrow> u_findTrapframe n sp s = (Val a, s)"
proof (induction k arbitrary: sp n)
  case 0
  then obtain n' where "n = Suc n'" by (cases n) auto
  then show ?case using 0 by (simp add: handler_frame_def kret_def)
next
  case (Suc k)
  then obtain n' where n: "n = Suc n'" "k < n'" by (cases n) auto
  have "handler_frame (umem s) (sp + 4) k a"
    unfolding handler_frame_def
  proof (intro conjI allI impI)
    show "load32 (umem s) (sp + 4 + 4 * of_nat k) = 0xABCDEF" "a = sp + 4 + 4 * of_nat k - 76"
      using Suc.prems(1) by (simp_all add: handler_frame_def algebra_simps)
    fix j assume "j < k"
    then have "load32 (umem s) (sp + 4 * of_nat (Suc j)) \<noteq> 0xABCDEF" using Suc.prems(1) unfolding handler_frame_def by blast
    then show "load32 (umem s) (sp + 4 + 4 * of_nat j) \<noteq> 0xABCDEF" by (simp add: algebra_simps)
  qed
  moreover have "load32 (umem s) (sp + 4 * of_nat 0) \<noteq> 0xABCDEF" using Suc.prems(1) unfolding handler_frame_def by blast
  ultimately show ?case using Suc.IH [of "sp + 4" n'] n by simp
qed

lemma u_get_put:
  assumes "length bs < 2 ^ 32" shows "u_get (u_put m a bs) a (length bs) = bs"
proof (rule nth_equalityI)
  fix i assume "i < length (u_get (u_put m a bs) a (length bs))"
  then have i: "i < length bs" by (simp add: u_get_def)
  then have "unat (of_nat i :: u32) = i" using assms by (simp add: unat_of_nat)
  then show "u_get (u_put m a bs) a (length bs) ! i = bs ! i" using i by (simp add: u_get_def u_put_def)
qed (simp add: u_get_def)

text \<open>The interrupted thread counts as runnable.\<close>

definition can_run :: "'x uthst_scheme \<Rightarrow> nat \<Rightarrow> bool" where
  "can_run s i = (t_state (u_table s i) = T_RUNNABLE \<or> i = current s \<and> t_state (u_table s i) = T_RUNNING)"

definition ready :: "'x uthst_scheme \<Rightarrow> u32 \<Rightarrow> u32 \<Rightarrow> nat \<Rightarrow> bool" where
  "ready s sp a fuel = (current s < MAX_UTHREADS \<and> (\<exists>L. stacks_ok s L) \<and> (\<exists>k < fuel. handler_frame (umem s) sp k a) \<and> 2 ^ 30 \<le> fuel)"

lemma stacks_ok_saved:
  assumes "stacks_ok s L" and "\<And>i. t_stack (ut i) = t_stack (u_table s i)"
  shows "stacks_ok (s\<lparr>ualarm := x, u_table := ut\<rparr>) L"
  using assms by (simp add: stacks_ok_def uinv_def heap_inv_def heap_fresh_def)

lemma schedule_switches:
  assumes r: "ready s sp a fuel" and i: "i < MAX_UTHREADS" "can_run s i"
  shows "\<exists>t. uthread_schedule fuel sp s = (Val (), t) \<and> current t < MAX_UTHREADS \<and>
    (can_run s (current t) \<or> t_state (u_table s (current t)) = T_SLEEPING \<and> 0 < sint (t_wakeup (u_table s (current t)))) \<and>
    (\<forall>x < MAX_UTHREADS. steps_to (current s) x < steps_to (current s) (current t) \<longrightarrow> \<not> can_run s x) \<and>
    t_tf (u_table t (current s)) = tf_of_bytes (u_get (umem s) a 76) \<and>
    (\<forall>x. x \<noteq> current s \<longrightarrow> t_tf (u_table t x) = t_tf (u_table s x)) \<and>
    u_get (umem t) a 76 = tf_bytes (t_tf (u_table t (current t))) \<and>
    t_state (u_table t (current t)) = T_RUNNING \<and>
    (\<forall>x. x \<noteq> current t \<longrightarrow> t_state (u_table t x) = (if can_run s x then T_RUNNABLE else t_state (u_table s x))) \<and>
    t_stack (u_table t (current s)) = t_stack (u_table s (current s)) \<and> ualarm t = UTHREAD_QUANTA \<and>
    bsems t = bsems s \<and> bsemtable t = bsemtable s \<and> blists t = blists s \<and> csems t = csems s \<and>
    (\<forall>x. x \<noteq> current t \<longrightarrow> t_wakeup (u_table t x) = t_wakeup (u_table s x))"
proof -
  let ?c = "current s"
  obtain L k where c: "?c < MAX_UTHREADS" and L: "stacks_ok s L" and k: "k < fuel" "handler_frame (umem s) sp k a" and fuel: "2 ^ 30 \<le> fuel"
    using r by (auto simp: ready_def)
  define ut where "ut = (u_table s)(?c := (u_table s ?c)\<lparr>t_tf := tf_of_bytes (u_get (umem s) a 76),
    t_state := (if t_state (u_table s ?c) = T_RUNNING then T_RUNNABLE else t_state (u_table s ?c))\<rparr>)"
  define s1 where "s1 = s\<lparr>ualarm := 0, u_table := ut\<rparr>"
  have ok1: "stacks_ok s1 L" unfolding s1_def by (rule stacks_ok_saved [OF L]) (simp add: ut_def)
  have st1: "t_state (u_table s1 x) = (if can_run s x then T_RUNNABLE else t_state (u_table s x))" for x
    by (auto simp: s1_def ut_def can_run_def)
  have run1: "t_state (u_table s1 x) = T_RUNNABLE \<longleftrightarrow> can_run s x" for x
    by (auto simp: st1 can_run_def)
  have wk: "t_wakeup (u_table s1 x) = t_wakeup (u_table s x)" for x by (simp add: s1_def ut_def)
  let ?d = "steps_to ?c i"
  have d: "t_state (u_table s1 (turn ?c ?d)) = T_RUNNABLE" using i c by (simp add: turn_steps st1)
  have fl: "?d - 0 < fuel" using steps_less [of ?c i] fuel by (simp add: param_defs)
  obtain t e L' where t: "e \<le> ?d" "sframe s1 t" "\<forall>x. 0 \<le> x \<and> x < e \<longrightarrow> t_state (u_table s1 (turn ?c x)) \<noteq> T_RUNNABLE"
    "schedule_loop fuel fuel (turn ?c 0) s1 = (Val (turn ?c e), t) \<and> t_state (u_table s1 (turn ?c e)) = T_RUNNABLE \<or>
     schedule_loop fuel fuel (turn ?c 0) s1 = (Val (turn ?c e), upd_ut (turn ?c e) (\<lambda>u. u\<lparr>t_wakeup := 0, t_state := T_RUNNABLE\<rparr>) t) \<and>
     t_state (u_table s1 (turn ?c e)) = T_SLEEPING \<and> 0 < sint (t_wakeup (u_table s1 (turn ?c e)))"
    using schedule_loop_ok [OF ok1 le0 d fl fuel] by blast
  let ?j = "turn ?c e"
  have e64: "e < MAX_UTHREADS" using t(1) steps_less le_less_trans by blast
  have sj: "steps_to ?c ?j = e" using steps_turn [OF c e64] .
  obtain u where u: "schedule_loop fuel fuel (turn ?c 0) s1 = (Val ?j, u)"
    "u = t \<or> u = upd_ut ?j (\<lambda>u. u\<lparr>t_wakeup := 0, t_state := T_RUNNABLE\<rparr>) t" using t(4) by blast
  note f = sframe_fields [OF t(2)]
  have uf: "t_tf (u_table u x) = t_tf (u_table s1 x)" "x \<noteq> ?j \<Longrightarrow> t_state (u_table u x) = t_state (u_table s1 x)"
    "t_stack (u_table u x) = t_stack (u_table t x)" "x \<noteq> ?j \<Longrightarrow> t_wakeup (u_table u x) = t_wakeup (u_table s1 x)" for x
    using u(2) same_but_stack_fields [OF f(3) [of x]] by (auto simp: upd_ut_def)
  have sem: "bsems u = bsems s" "bsemtable u = bsemtable s" "blists u = blists s" "csems u = csems s"
    using u(2) f(4-7) by (auto simp: upd_ut_def s1_def)
  let ?t = "(upd_ut ?j (\<lambda>u. u\<lparr>t_state := T_RUNNING\<rparr>) (u\<lparr>umem := u_put (umem u) a (tf_bytes (t_tf (u_table u ?j))),
      current := ?j, currentInd := t_ind (u_table u ?j)\<rparr>))\<lparr>ualarm := UTHREAD_QUANTA\<rparr>"
  have run: "uthread_schedule fuel sp s = (Val (), ?t)"
  proof -
    have "u_findTrapframe fuel sp (s\<lparr>ualarm := 0\<rparr>) = (Val a, s\<lparr>ualarm := 0\<rparr>)" 
      by (rule find_frame [OF _ k(1)]) (use k(2) in simp)
    then have "uthread_schedule fuel sp s = kbind (schedule_loop fuel fuel (turn ?c 0)) (schedule_switch a) s1"
      by (simp add: uthread_schedule_def alarm_u_def kbind_def kget_def kmod_def upd_ut_def s1_def ut_def turn_first [OF c])
    then show ?thesis
      by (simp add: kbind_def u(1) schedule_switch_def alarm_u_def kmod_def upd_ut_def)
  qed
  have stk: "t_stack (u_table t ?c) = t_stack (u_table s ?c)"
  proof -
    have "t_stack (u_table t ?c) = t_stack (u_table s1 ?c)" using f(3) [of ?c] by (auto simp: same_but_stack_def cur_ut_def s1_def)
    then show ?thesis by (simp add: s1_def ut_def)
  qed
  have pick: "can_run s ?j \<or> t_state (u_table s ?j) = T_SLEEPING \<and> 0 < sint (t_wakeup (u_table s ?j))"
    using t(4) run1 [of ?j] st1 [of ?j] wk [of ?j] by (auto split: if_splits)
  have before: "\<not> can_run s x" if "x < MAX_UTHREADS" "steps_to ?c x < e" for x
    using t(3) run1 [of x] that c turn_steps [of ?c x] by auto
  show ?thesis
  proof (intro exI [of _ ?t] conjI allI impI)
    show "uthread_schedule fuel sp s = (Val (), ?t)" by (rule run)
  qed (use turn_less pick before sj uf stk st1 sem u_get_put [of "tf_bytes _"] in \<open>auto simp: upd_ut_def s1_def ut_def\<close>)
qed


text \<open>
  C32: A thread that stays runnable gets its turn within \<open>MAX_UTHREADS\<close> runs of \<open>uthread_schedule\<close>, whatever
  the threads do in between: \<open>\<sigma> k\<close> is any state in which the \<open>k\<close>-th alarm finds the thread that the previous
  run of the scheduler started.
\<close>

theorem runnable_thread_gets_turn:
  assumes i: "i < MAX_UTHREADS" and r: "\<forall>k < MAX_UTHREADS. ready (\<sigma> k) (sp k) (a k) fuel \<and> t_state (u_table (\<sigma> k) i) = T_RUNNABLE"
    and nx: "\<forall>k < MAX_UTHREADS. current (\<sigma> (Suc k)) = current (snd (uthread_schedule fuel (sp k) (\<sigma> k)))"
  shows "\<exists>k < MAX_UTHREADS. current (snd (uthread_schedule fuel (sp k) (\<sigma> k))) = i"
proof (rule ccontr)
  assume no: "\<not> ?thesis"
  have "steps_to (current (\<sigma> k)) i + k < MAX_UTHREADS" if "k \<le> MAX_UTHREADS" for k
    using that
  proof (induction k)
    case 0
    then show ?case using steps_less by simp
  next
    case (Suc k)
    then have k: "k < MAX_UTHREADS" by simp
    have rd: "ready (\<sigma> k) (sp k) (a k) fuel" and run: "can_run (\<sigma> k) i" using r k by (auto simp: can_run_def)
    obtain t where t: "uthread_schedule fuel (sp k) (\<sigma> k) = (Val (), t)" "current t < MAX_UTHREADS"
      "\<forall>x < MAX_UTHREADS. steps_to (current (\<sigma> k)) x < steps_to (current (\<sigma> k)) (current t) \<longrightarrow> \<not> can_run (\<sigma> k) x"
      using schedule_switches [OF rd i run] by blast
    have "current t \<noteq> i" using no k t(1) by auto
    moreover have "steps_to (current (\<sigma> k)) (current t) \<le> steps_to (current (\<sigma> k)) i" using t(3) i run not_less by blast
    moreover have "current (\<sigma> k) < MAX_UTHREADS" using rd by (simp add: ready_def)
    ultimately have "steps_to (current t) i < steps_to (current (\<sigma> k)) i" using steps_decrease i t(2) by blast
    moreover have "current (\<sigma> (Suc k)) = current t" using nx k t(1) by simp
    ultimately show ?case using Suc by simp
  qed
  from this [of MAX_UTHREADS] show False by simp
qed

section \<open>An example\<close>

text \<open>Thread 0 sleeps, thread 1 can run, and there are no others; the frame of the handler is at \<open>0x5000\<close>.\<close>

definition ut_ex :: "nat \<Rightarrow> uthst" where
  "ut_ex c = ust.extend (heap_ex\<lparr>umem := store32 (\<lambda>_. 0) 0x5000 0xABCDEF\<rparr>)
     \<lparr>nexttid = 3, numOfThreads = 2, current = c,
      u_table = (\<lambda>i. \<lparr>t_tid = of_nat i + 1, t_stack = 0,
        t_state = (if i = 0 then T_SLEEPING else if i = 1 then T_RUNNABLE else T_UNUSED),
        t_tf = tf_of_bytes (replicate 76 0), t_pid = 4, t_numOfJoining = 0, t_joiningList = (\<lambda>_. 0), t_wakeup = 0, t_ind = i,
        t_joining = 0\<rparr>),
      currentInd = c, bsemtable = (\<lambda>_. 0), bsems = (\<lambda>_. \<lparr>bs_s = 0, bs_insert = 0, bs_toOut = 0, bs_size = 0, bs_waiting = 0, bs_list = 0\<rparr>),
      blists = (\<lambda>_ _. None), csems = (\<lambda>_. \<lparr>cs_val = 0, cs_s1 = 0, cs_s2 = 0\<rparr>), ualarm = 0, usignal = 0, u_pid = 4,
      uclock = (\<lambda>_. 0), uclock_ix = 0, uprinted = []\<rparr>"

lemma ut_ex_ready:
  assumes "c < MAX_UTHREADS" shows "ready (ut_ex c) 0x5000 (0x5000 - 76) (2 ^ 30)"
proof -
  have "heap_fresh (ut_ex c)"
    by (simp add: heap_fresh_def ut_ex_def ust.defs heap_ex_def header_at_def word_aligned_def KERNBASE_def)
  then have "stacks_ok (ut_ex c) []" by (simp add: stacks_ok_def uinv_def) (simp add: ut_ex_def ust.defs)
  moreover have "handler_frame (umem (ut_ex c)) 0x5000 0 (0x5000 - 76)"
    by (simp add: handler_frame_def ut_ex_def ust.defs heap_ex_def)
  moreover have "current (ut_ex c) = c" by (simp add: ut_ex_def ust.defs)
  ultimately show ?thesis using assms by (force simp: ready_def)
qed

lemma ut_ex_states:
  "can_run (ut_ex 0) 1" "can_run (ut_ex 1) 1" "t_state (u_table (ut_ex c) 1) = T_RUNNABLE" "current (ut_ex c) = c"
  "c \<le> 1 \<Longrightarrow> can_run (ut_ex c) i \<or> t_state (u_table (ut_ex c) i) = T_SLEEPING \<and> 0 < sint (t_wakeup (u_table (ut_ex c) i)) \<Longrightarrow> i = 1"
  by (auto simp: can_run_def ut_ex_def ust.defs split: if_splits)

lemma ut_ex_next:
  assumes "c \<le> 1" shows "current (snd (uthread_schedule (2 ^ 30) 0x5000 (ut_ex c))) = 1"
proof -
  have c: "c < MAX_UTHREADS" using assms by (simp add: param_defs)
  have run: "can_run (ut_ex c) 1" using assms ut_ex_states(1,2) by (cases c) auto
  obtain t where "uthread_schedule (2 ^ 30) 0x5000 (ut_ex c) = (Val (), t)"
    "can_run (ut_ex c) (current t) \<or> t_state (u_table (ut_ex c) (current t)) = T_SLEEPING \<and> 0 < sint (t_wakeup (u_table (ut_ex c) (current t)))"
    using schedule_switches [OF ut_ex_ready [OF c] _ run] by (auto simp: param_defs)
  then show ?thesis using ut_ex_states(5) [OF assms] by simp
qed


theorem runnable_thread_gets_turn_witness:
  "\<exists>k < MAX_UTHREADS. current (snd (uthread_schedule (2 ^ 30) 0x5000 (ut_ex (min k 1)))) = 1"
proof (rule runnable_thread_gets_turn)
  show "1 < MAX_UTHREADS" by (simp add: param_defs)
  show "\<forall>k < MAX_UTHREADS. ready (ut_ex (min k 1)) 0x5000 (0x5000 - 76) (2 ^ 30) \<and> t_state (u_table (ut_ex (min k 1)) 1) = T_RUNNABLE"
    using ut_ex_ready ut_ex_states(3) by (simp add: param_defs)
  show "\<forall>k < MAX_UTHREADS. current (ut_ex (min (Suc k) 1)) = current (snd (uthread_schedule (2 ^ 30) 0x5000 (ut_ex (min k 1))))"
    using ut_ex_next ut_ex_states(4) by simp
qed

end
