(* ===== verification/Xv6_Usync.thy ===== *)
theory Xv6_Usync
  imports Xv6_Usched
begin

text \<open>
  The semaphores of \<open>uthread.c\<close>.  A binary semaphore with its circular array of waiting threads is a flag
  and a first-in first-out queue.  Threads that use it, switched by \<open>uthread_schedule\<close> between any two
  calls, exclude each other; the counting semaphore built from two of them never hands out more than it has.
\<close>

section \<open>A binary semaphore is a flag and a queue\<close>

definition sem_at :: "'x uthst_scheme \<Rightarrow> int \<Rightarrow> nat list \<Rightarrow> bool \<Rightarrow> bool" where
  "sem_at s sem ws v =
     (0 \<le> sem \<and> sem < int MAX_BSEM \<and> bsemtable s (nat sem) \<noteq> 0 \<and>
      (let b = bsems s (bsemtable s (nat sem)) in
       bs_list b \<noteq> 0 \<and> bs_s b = (if v then 1 else 0) \<and> (v \<longrightarrow> ws = []) \<and> length ws \<le> MAX_UTHREADS \<and>
       bs_waiting b = length ws \<and> bs_toOut b < MAX_UTHREADS \<and> bs_insert b = (bs_toOut b + length ws) mod MAX_UTHREADS \<and>
       (\<forall>k < length ws. blists s (bs_list b) ((bs_toOut b + k) mod MAX_UTHREADS) = Some (ws ! k))))"

text \<open>What an operation on one semaphore leaves alone.\<close>

definition sem_frame :: "'x uthst_scheme \<Rightarrow> 'x uthst_scheme \<Rightarrow> int \<Rightarrow> bool" where
  "sem_frame s t sem =
     (current t = current s \<and> csems t = csems s \<and> bsemtable t = bsemtable s \<and>
      (\<forall>p. bs_list (bsems t p) = bs_list (bsems s p)) \<and>
      (\<forall>p. p \<noteq> bsemtable s (nat sem) \<longrightarrow> bsems t p = bsems s p) \<and>
      (\<forall>l. l \<noteq> bs_list (bsems s (bsemtable s (nat sem))) \<longrightarrow> blists t l = blists s l))"

definition sem_sep :: "'x uthst_scheme \<Rightarrow> int \<Rightarrow> int \<Rightarrow> bool" where
  "sem_sep s a b =
     (bsemtable s (nat a) \<noteq> bsemtable s (nat b) \<and>
      bs_list (bsems s (bsemtable s (nat a))) \<noteq> bs_list (bsems s (bsemtable s (nat b))))"

lemma sem_sep_sym: "sem_sep s a b = sem_sep s b a"
  by (auto simp: sem_sep_def)

lemma sem_frame_sep: "sem_frame s t c \<Longrightarrow> sem_sep t a b = sem_sep s a b"
  by (simp add: sem_frame_def sem_sep_def)

lemma sem_frame_other: "sem_frame s t a \<Longrightarrow> sem_sep s a b \<Longrightarrow> sem_at s b ws v \<Longrightarrow> sem_at t b ws v"
  by (auto simp: sem_frame_def sem_sep_def sem_at_def Let_def)

lemmas u_defs = kbind_def kget_def kmod_def kret_def kfail_def alarm_u_def uptime_def enter_schedule_def

lemma ring_slot_inj:
  "a < n \<Longrightarrow> i < n \<Longrightarrow> j < n \<Longrightarrow> (a + i) mod n = (a + j) mod n \<Longrightarrow> i = j" for a n :: nat
  by (auto simp: mod_twice split: if_splits)

lemma ring_shift: "(Suc a mod n + k) mod n = (a + Suc k) mod n" for a n :: nat
  by (simp add: mod_simps)

lemma slot_less: "x mod MAX_UTHREADS < MAX_UTHREADS"
  by (simp add: param_defs)

lemma down_free:
  assumes "sem_at s sem ws True"
  shows "\<exists>t. bsem_down sem s = (Val (), t) \<and> sem_at t sem [] False \<and> u_table t = u_table s \<and> sem_frame s t sem"
  using assms
  by (auto simp: sem_at_def Let_def bsem_down_def bsem_at_def bsem_index_def u_defs upd_bsem_def sem_frame_def)

lemma down_wait:
  assumes "sem_at s sem ws False" "length ws < MAX_UTHREADS"
  shows "\<exists>t. bsem_down sem s = (Fault Yields, t) \<and> sem_at t sem (ws @ [current s]) False \<and>
    u_table t = (u_table s)(current s := (u_table s (current s))\<lparr>t_wakeup := 0, t_state := T_SLEEPING\<rparr>) \<and> sem_frame s t sem"
proof -
  let ?p = "bsemtable s (nat sem)"
  let ?b = "bsems s ?p"
  have out: "bs_toOut ?b < MAX_UTHREADS" using assms(1) by (simp add: sem_at_def Let_def)
  have other: "(bs_toOut ?b + k) mod MAX_UTHREADS \<noteq> (bs_toOut ?b + length ws) mod MAX_UTHREADS" if "k < length ws" for k
    using ring_slot_inj [OF out, of k "length ws"] that assms(2) by auto
  show ?thesis
    using assms slot_less other
    by (auto simp: sem_at_def Let_def bsem_down_def bsem_at_def bsem_index_def set_list_def uthread_sleep_def u_defs upd_bsem_def
        upd_ut_def sem_frame_def nth_append less_Suc_eq mod_Suc_eq not_le)
qed

lemma up_none:
  assumes "sem_at s sem [] v"
  shows "\<exists>t. bsem_up sem s = (Val (), t) \<and> sem_at t sem [] True \<and> u_table t = u_table s \<and> sem_frame s t sem"
  using assms
  by (auto simp: sem_at_def Let_def bsem_up_def bsem_at_def bsem_index_def u_defs upd_bsem_def sem_frame_def)

lemma up_wake:
  assumes "sem_at s sem (w # ws) v"
  shows "\<exists>t. bsem_up sem s = (Val (), t) \<and> sem_at t sem ws False \<and>
    u_table t = (u_table s)(w := (u_table s w)\<lparr>t_state := T_RUNNABLE\<rparr>) \<and> sem_frame s t sem"
proof -
  let ?p = "bsemtable s (nat sem)"
  let ?b = "bsems s ?p"
  have out: "bs_toOut ?b < MAX_UTHREADS" and len: "Suc (length ws) \<le> MAX_UTHREADS"
    using assms by (simp_all add: sem_at_def Let_def)
  have other: "(bs_toOut ?b + Suc k) mod MAX_UTHREADS \<noteq> bs_toOut ?b" if "k < length ws" for k
    using ring_slot_inj [OF out, of "Suc k" 0] out that len by auto
  have front: "blists s (bs_list ?b) (bs_toOut ?b) = Some w" "\<forall>k < length ws. blists s (bs_list ?b) ((bs_toOut ?b + Suc k) mod MAX_UTHREADS) = Some (ws ! k)"
    using assms out by (force simp: sem_at_def Let_def)+
  have v: "\<not> v" using assms by (auto simp: sem_at_def)
  show ?thesis
    using assms slot_less other v front
    by (auto simp: sem_at_def Let_def bsem_up_def bsem_at_def bsem_index_def set_list_def u_defs upd_bsem_def upd_ut_def sem_frame_def
      ring_shift not_le)
qed





section \<open>Tokens\<close>

text \<open>
  \<open>W\<close> is the set of threads in a call of \<open>bsem_down\<close> that has put them into the queue, \<open>G\<close> the set of
  threads that have returned from it and hold the semaphore.  A thread of \<open>W\<close> that does not sleep has been
  woken and holds the semaphore as well.  The flag and the holders together are \<open>n\<close> tokens.
\<close>

definition granted :: "'x uthst_scheme \<Rightarrow> nat set \<Rightarrow> nat set \<Rightarrow> nat set" where
  "granted s W G = G \<union> {i \<in> W. t_state (u_table s i) \<noteq> T_SLEEPING}"

definition bin_inv :: "'x uthst_scheme \<Rightarrow> int \<Rightarrow> nat set \<Rightarrow> nat set \<Rightarrow> nat \<Rightarrow> bool" where
  "bin_inv s sem W G n =
     (W \<inter> G = {} \<and>
      (\<exists>ws v. sem_at s sem ws v \<and> distinct ws \<and> set ws = {i \<in> W. t_state (u_table s i) = T_SLEEPING} \<and>
        (\<forall>i \<in> set ws. i < MAX_UTHREADS \<and> t_wakeup (u_table s i) = 0) \<and>
        finite (granted s W G) \<and> card (granted s W G) + of_bool v = n))"

lemma bin_invE:
  assumes "bin_inv s sem W G n"
  obtains ws v where "sem_at s sem ws v" "distinct ws" "set ws = {i \<in> W. t_state (u_table s i) = T_SLEEPING}"
    "\<forall>i \<in> set ws. i < MAX_UTHREADS \<and> t_wakeup (u_table s i) = 0" "finite (granted s W G)" "card (granted s W G) + of_bool v = n"
    "W \<inter> G = {}"
  using assms by (auto simp: bin_inv_def)

text \<open>A step that leaves the semaphore and the sleep of its waiting threads alone.\<close>

lemma bin_keep:
  assumes "bin_inv s sem W G n" and "\<And>ws v. sem_at s sem ws v \<Longrightarrow> sem_at t sem ws v"
    and "\<And>i. i \<in> W \<Longrightarrow> t_state (u_table t i) = T_SLEEPING \<longleftrightarrow> t_state (u_table s i) = T_SLEEPING"
    and "\<And>i. i \<in> W \<Longrightarrow> t_state (u_table s i) = T_SLEEPING \<Longrightarrow> t_wakeup (u_table s i) = 0 \<Longrightarrow> t_wakeup (u_table t i) = 0"
  shows "bin_inv t sem W G n"
proof -
  have "{i \<in> W. t_state (u_table t i) = T_SLEEPING} = {i \<in> W. t_state (u_table s i) = T_SLEEPING}"
    "granted t W G = granted s W G" using assms(3) by (auto simp: granted_def)
  moreover from assms(1) obtain ws v where a: "sem_at s sem ws v" "distinct ws" "set ws = {i \<in> W. t_state (u_table s i) = T_SLEEPING}"
    "\<forall>i \<in> set ws. i < MAX_UTHREADS \<and> t_wakeup (u_table s i) = 0" "finite (granted s W G)" "card (granted s W G) + of_bool v = n"
    and d: "W \<inter> G = {}" by (rule bin_invE)
  moreover have "\<forall>i \<in> set ws. i < MAX_UTHREADS \<and> t_wakeup (u_table t i) = 0" using a(3,4) assms(4) by auto
  ultimately show ?thesis unfolding bin_inv_def using assms(2) by (intro conjI exI [of _ ws] exI [of _ v]) auto
qed

lemma bin_down:
  assumes inv: "bin_inv s sem W G n" and c: "current s < MAX_UTHREADS" "current s \<notin> W" "current s \<notin> G"
  shows "(\<exists>t. bsem_down sem s = (Val (), t) \<and> bin_inv t sem W (insert (current s) G) n \<and> u_table t = u_table s \<and> sem_frame s t sem) \<or>
    (\<exists>t. bsem_down sem s = (Fault Yields, t) \<and> bin_inv t sem (insert (current s) W) G n \<and> sem_frame s t sem \<and>
      u_table t = (u_table s)(current s := (u_table s (current s))\<lparr>t_wakeup := 0, t_state := T_SLEEPING\<rparr>))"
proof -
  let ?c = "current s"
  from inv obtain ws v where a: "sem_at s sem ws v" "distinct ws" "set ws = {i \<in> W. t_state (u_table s i) = T_SLEEPING}"
    "\<forall>i \<in> set ws. i < MAX_UTHREADS \<and> t_wakeup (u_table s i) = 0" "finite (granted s W G)" "card (granted s W G) + of_bool v = n"
    and d: "W \<inter> G = {}" by (rule bin_invE)
  show ?thesis
  proof (cases v)
    case True
    then obtain t where t: "bsem_down sem s = (Val (), t)" "sem_at t sem [] False" "u_table t = u_table s" "sem_frame s t sem"
      using down_free [of s sem ws] a(1) by auto
    have "ws = []" using a(1) True by (simp add: sem_at_def Let_def)
    have g: "granted t W (insert ?c G) = insert ?c (granted s W G)" "?c \<notin> granted s W G"
      using t(3) c by (auto simp: granted_def)
    have "bin_inv t sem W (insert ?c G) n"
      unfolding bin_inv_def using a(3,5,6) d c t(2,3) g True \<open>ws = []\<close>
      by (intro conjI exI [of _ "[]"] exI [of _ False]) auto
    then show ?thesis using t by blast
  next
    case False
    have "set ws \<subseteq> {..<MAX_UTHREADS} - {?c}" using a(3,4) c by auto
    then have "card (set ws) \<le> card ({..<MAX_UTHREADS} - {?c})" by (intro card_mono) auto
    then have "length ws < MAX_UTHREADS" using a(2) c(1) by (simp add: distinct_card)
    then obtain t where t: "bsem_down sem s = (Fault Yields, t)" "sem_at t sem (ws @ [?c]) False" "sem_frame s t sem"
        "u_table t = (u_table s)(?c := (u_table s ?c)\<lparr>t_wakeup := 0, t_state := T_SLEEPING\<rparr>)"
      using down_wait [of s sem ws] a(1) False by auto
    have g: "granted t (insert ?c W) G = granted s W G" using t(4) c by (auto simp: granted_def)
    have "bin_inv t sem (insert ?c W) G n"
      unfolding bin_inv_def g
    proof (intro conjI exI [of _ "ws @ [?c]"] exI [of _ False])
      show "distinct (ws @ [?c])" "set (ws @ [?c]) = {i \<in> insert ?c W. t_state (u_table t i) = T_SLEEPING}"
        using a(2,3) c t(4) by auto
      show "\<forall>i \<in> set (ws @ [?c]). i < MAX_UTHREADS \<and> t_wakeup (u_table t i) = 0" using a(4) c t(4) by auto
    qed (use a(5,6) d c t(2) False in auto)
    then show ?thesis using t by blast
  qed
qed

lemma bin_up:
  assumes inv: "bin_inv s sem W G n" and c: "c \<in> G \<and> n = 1 \<or> c \<notin> G \<and> n = 0" "c \<notin> W"
  shows "\<exists>t. bsem_up sem s = (Val (), t) \<and> bin_inv t sem W (G - {c}) 1 \<and> sem_frame s t sem \<and>
    (u_table t = u_table s \<or> (\<exists>w \<in> W. t_state (u_table s w) = T_SLEEPING \<and> u_table t = (u_table s)(w := (u_table s w)\<lparr>t_state := T_RUNNABLE\<rparr>)))"
proof -
  from inv obtain ws v where a: "sem_at s sem ws v" "distinct ws" "set ws = {i \<in> W. t_state (u_table s i) = T_SLEEPING}"
    "\<forall>i \<in> set ws. i < MAX_UTHREADS \<and> t_wakeup (u_table s i) = 0" "finite (granted s W G)" "card (granted s W G) + of_bool v = n"
    and d: "W \<inter> G = {}" by (rule bin_invE)
  have none: "granted s W G - {c} = {}" "\<not> v"
  proof -
    have "card (granted s W G - {c}) = 0 \<and> \<not> v"
    proof (cases "c \<in> G")
      case True
      then have "c \<in> granted s W G" "n = 1" using c by (auto simp: granted_def)
      then have "0 < card (granted s W G)" using a(5) card_gt_0_iff by blast
      then show ?thesis using a(5,6) \<open>c \<in> granted s W G\<close> \<open>n = 1\<close> by (cases v) (auto simp: card_Diff_singleton)
    next
      case False
      then show ?thesis using c(1) a(5,6) by (cases v) auto
    qed
    then show "granted s W G - {c} = {}" "\<not> v" using a(5) by auto
  qed
  have rest: "\<forall>i \<in> W. t_state (u_table s i) = T_SLEEPING" "G - {c} = {}" using none(1) c(2) unfolding granted_def by blast+
  show ?thesis
  proof (cases ws)
    case Nil
    then obtain t where t: "bsem_up sem s = (Val (), t)" "sem_at t sem [] True" "u_table t = u_table s" "sem_frame s t sem"
      using up_none [of s sem v] a(1) by auto
    have g: "granted t W (G - {c}) = {}" unfolding granted_def t(3) using rest by blast
    have "bin_inv t sem W (G - {c}) 1"
      unfolding bin_inv_def g using t(2,3) a(3) Nil d
      by (intro conjI exI [of _ "[]"] exI [of _ True]) auto
    then show ?thesis using t by blast
  next
    case (Cons w ws')
    then obtain t where t: "bsem_up sem s = (Val (), t)" "sem_at t sem ws' False"
      "u_table t = (u_table s)(w := (u_table s w)\<lparr>t_state := T_RUNNABLE\<rparr>)" "sem_frame s t sem"
      using up_wake [of s sem w ws' v] a(1) by auto
    have w: "w \<in> W" "t_state (u_table s w) = T_SLEEPING" "w \<notin> set ws'" using a(2,3) Cons by auto
    have g: "granted t W (G - {c}) = {w}" using rest w t(3) by (auto simp: granted_def)
    have "bin_inv t sem W (G - {c}) 1"
      unfolding bin_inv_def g
    proof (intro conjI exI [of _ ws'] exI [of _ False])
      show "distinct ws'" "set ws' = {i \<in> W. t_state (u_table t i) = T_SLEEPING}" using a(2,3) w t(3) unfolding Cons by auto
      show "\<forall>i \<in> set ws'. i < MAX_UTHREADS \<and> t_wakeup (u_table t i) = 0" using a(4) w t(3) unfolding Cons by auto
    qed (use t(2) d in auto)
    then show ?thesis using t w by blast
  qed
qed

text \<open>A thread that waited and runs has been woken: it holds the semaphore.\<close>

lemma bin_resume:
  assumes "bin_inv s sem W G n" and "c \<in> W" "t_state (u_table s c) \<noteq> T_SLEEPING"
  shows "bin_inv s sem (W - {c}) (insert c G) n"
proof -
  have "granted s (W - {c}) (insert c G) = granted s W G"
    "{i \<in> W - {c}. t_state (u_table s i) = T_SLEEPING} = {i \<in> W. t_state (u_table s i) = T_SLEEPING}"
    using assms(2,3) by (auto simp: granted_def)
  then show ?thesis using assms(1) unfolding bin_inv_def by auto
qed

lemma bin_release: \<comment> \<open>a holder forgets its token\<close>
  assumes "bin_inv s sem W G 1" and "c \<in> G" "c \<notin> W"
  shows "bin_inv s sem W (G - {c}) 0"
proof -
  from assms(1) obtain ws v where a: "sem_at s sem ws v" "distinct ws" "set ws = {i \<in> W. t_state (u_table s i) = T_SLEEPING}"
    "\<forall>i \<in> set ws. i < MAX_UTHREADS \<and> t_wakeup (u_table s i) = 0" "finite (granted s W G)" "card (granted s W G) + of_bool v = 1"
    and d: "W \<inter> G = {}" by (rule bin_invE)
  have g: "granted s W (G - {c}) = granted s W G - {c}" "c \<in> granted s W G" using assms(2,3) by (auto simp: granted_def)
  then have "0 < card (granted s W G)" using a(5) card_gt_0_iff by blast
  then have "card (granted s W (G - {c})) + of_bool v = 0" using a(5,6) g by (cases v) (auto simp: card_Diff_singleton)
  then show ?thesis unfolding bin_inv_def using a(1-5) d g by (intro conjI exI [of _ ws] exI [of _ v]) auto
qed


lemma bin_one:
  assumes "bin_inv s sem W G 1" "i \<in> G" "j \<in> G"
  shows "i = j"
proof -
  from assms(1) obtain v where "finite (granted s W G)" "card (granted s W G) + of_bool v = 1" by (rule bin_invE)
  then have "card (granted s W G) \<le> Suc 0" by simp
  moreover have "i \<in> granted s W G" "j \<in> granted s W G" using assms(2,3) by (auto simp: granted_def)
  ultimately show ?thesis using card_le_Suc0_iff_eq \<open>finite _\<close> by blast
qed

lemma bin_schedule:
  assumes inv: "bin_inv s sem W G n" and r: "ready s sp a fuel" "i < MAX_UTHREADS" "can_run s i"
    and t: "uthread_schedule fuel sp s = (Val (), t)"
  shows "bin_inv t sem W G n"
proof -
  from schedule_switches [OF r] t have t: "current t < MAX_UTHREADS"
    "can_run s (current t) \<or> t_state (u_table s (current t)) = T_SLEEPING \<and> 0 < sint (t_wakeup (u_table s (current t)))"
    "t_state (u_table t (current t)) = T_RUNNING"
    "\<forall>x. x \<noteq> current t \<longrightarrow> t_state (u_table t x) = (if can_run s x then T_RUNNABLE else t_state (u_table s x))"
    "bsems t = bsems s" "bsemtable t = bsemtable s" "blists t = blists s"
    "\<forall>x. x \<noteq> current t \<longrightarrow> t_wakeup (u_table t x) = t_wakeup (u_table s x)"
    by auto
  from inv obtain ws v where ws: "set ws = {i \<in> W. t_state (u_table s i) = T_SLEEPING}" "\<forall>i \<in> set ws. i < MAX_UTHREADS \<and> t_wakeup (u_table s i) = 0"
    by (rule bin_invE)
  have cur: "t_state (u_table s (current t)) \<noteq> T_SLEEPING" if "current t \<in> W"
    using t(2) ws that by (auto simp: can_run_def)
  show ?thesis
  proof (rule bin_keep [OF inv])
    show "sem_at t sem ws v" if "sem_at s sem ws v" for ws v using that t(5-7) by (simp add: sem_at_def)
    show "t_state (u_table t i) = T_SLEEPING \<longleftrightarrow> t_state (u_table s i) = T_SLEEPING" if "i \<in> W" for i
      using t(3,4) cur that by (cases "i = current t") (auto simp: can_run_def)
    show "t_wakeup (u_table t i) = 0" if "i \<in> W" "t_state (u_table s i) = T_SLEEPING" "t_wakeup (u_table s i) = 0" for i
      using t(8) cur that by (cases "i = current t") auto
  qed
qed

lemma sleep_effect:
  "\<exists>t. uthread_sleep ticks s = (Fault Yields, t) \<and> bsems t = bsems s \<and> bsemtable t = bsemtable s \<and> blists t = blists s \<and>
     csems t = csems s \<and> current t = current s \<and> (\<forall>i. i \<noteq> current s \<longrightarrow> u_table t i = u_table s i)"
  by (auto simp: uthread_sleep_def u_defs upd_ut_def)

lemma bin_sleep:
  assumes inv: "bin_inv s sem W G n" and "current s \<notin> W" and "uthread_sleep ticks s = (r, t)"
  shows "bin_inv t sem W G n"
proof (rule bin_keep [OF inv])
  note e = sleep_effect [of ticks s] assms(3)
  show "sem_at t sem ws v" if "sem_at s sem ws v" for ws v using that e by (auto simp: sem_at_def)
  show "t_state (u_table t i) = T_SLEEPING \<longleftrightarrow> t_state (u_table s i) = T_SLEEPING" if "i \<in> W" for i
    using that e assms(2) by (cases "i = current s") auto
  show "t_wakeup (u_table t i) = 0" if "i \<in> W" "t_wakeup (u_table s i) = 0" for i
    using that e assms(2) by (cases "i = current s") auto
qed

section \<open>Mutual exclusion\<close>

text \<open>
  Threads that guard a section of code with one semaphore.  Each step is a whole call of the library, since
  the calls disable the alarm; between two of them the scheduler can run.
\<close>

datatype phase = Outside | Waits | Inside

inductive mutex_step :: "int \<Rightarrow> uthst \<times> (nat \<Rightarrow> phase) \<Rightarrow> uthst \<times> (nat \<Rightarrow> phase) \<Rightarrow> bool" for sem where
  enter: "t_state (cur_ut s) = T_RUNNING \<Longrightarrow> ph (current s) = Outside \<Longrightarrow> bsem_down sem s = (Val (), t) \<Longrightarrow>
    mutex_step sem (s, ph) (t, ph(current s := Inside))"
| wait: "t_state (cur_ut s) = T_RUNNING \<Longrightarrow> ph (current s) = Outside \<Longrightarrow> bsem_down sem s = (Fault Yields, t) \<Longrightarrow>
    mutex_step sem (s, ph) (t, ph(current s := Waits))"
| woken: "t_state (cur_ut s) = T_RUNNING \<Longrightarrow> ph (current s) = Waits \<Longrightarrow>
    mutex_step sem (s, ph) (s, ph(current s := Inside))"
| leave: "t_state (cur_ut s) = T_RUNNING \<Longrightarrow> ph (current s) = Inside \<Longrightarrow> bsem_up sem s = (Val (), t) \<Longrightarrow>
    mutex_step sem (s, ph) (t, ph(current s := Outside))"
| sleep: "t_state (cur_ut s) = T_RUNNING \<Longrightarrow> ph (current s) \<noteq> Waits \<Longrightarrow> uthread_sleep ticks s = (Fault Yields, t) \<Longrightarrow>
    mutex_step sem (s, ph) (t, ph)"
| switch: "ready s sp a fuel \<Longrightarrow> i < MAX_UTHREADS \<Longrightarrow> can_run s i \<Longrightarrow> uthread_schedule fuel sp s = (Val (), t) \<Longrightarrow>
    mutex_step sem (s, ph) (t, ph)"

definition in_phase :: "(nat \<Rightarrow> phase) \<Rightarrow> phase \<Rightarrow> nat set" where
  "in_phase ph p = {i. ph i = p}"

definition mutex_inv :: "int \<Rightarrow> uthst \<times> (nat \<Rightarrow> phase) \<Rightarrow> bool" where
  "mutex_inv sem = (\<lambda>(s, ph). current s < MAX_UTHREADS \<and> bin_inv s sem (in_phase ph Waits) (in_phase ph Inside) 1)"

lemma in_phase_upd: "in_phase (ph(c := p)) q = (if p = q then insert c (in_phase ph q) else in_phase ph q - {c})"
  by (auto simp: in_phase_def)

lemma in_phase_other: "ph c \<noteq> p \<Longrightarrow> c \<notin> in_phase ph p" "ph c = p \<Longrightarrow> c \<in> in_phase ph p"
  by (simp_all add: in_phase_def)

lemma mutex_inv_step:
  assumes "mutex_step sem x y" "mutex_inv sem x"
  shows "mutex_inv sem y"
  using assms
proof (induction rule: mutex_step.induct)
  case (enter s ph t)
  then show ?case
    using bin_down [of s sem "in_phase ph Waits" "in_phase ph Inside" 1]
    by (auto simp: mutex_inv_def in_phase_upd in_phase_other sem_frame_def)
next
  case (wait s ph t)
  then show ?case
    using bin_down [of s sem "in_phase ph Waits" "in_phase ph Inside" 1]
    by (auto simp: mutex_inv_def in_phase_upd in_phase_other sem_frame_def)
next
  case (woken s ph)
  then show ?case
    using bin_resume [of s sem "in_phase ph Waits" "in_phase ph Inside" 1 "current s"]
    by (auto simp: mutex_inv_def in_phase_upd in_phase_other cur_ut_def)
next
  case (leave s ph t)
  then show ?case
    using bin_up [of s sem "in_phase ph Waits" "in_phase ph Inside" 1 "current s"]
    by (auto simp: mutex_inv_def in_phase_upd in_phase_other sem_frame_def)
next
  case (sleep s ph ticks t)
  then show ?case
    using bin_sleep [of s sem "in_phase ph Waits" "in_phase ph Inside" 1 ticks] sleep_effect [of ticks s]
    by (auto simp: mutex_inv_def in_phase_other)
next
  case (switch s sp a fuel i t ph)
  then show ?case
    using bin_schedule [of s sem "in_phase ph Waits" "in_phase ph Inside" 1 sp a fuel i t] schedule_switches [of s sp a fuel i]
    by (auto simp: mutex_inv_def)
qed

lemma mutex_inv_steps: "(mutex_step sem)\<^sup>*\<^sup>* x y \<Longrightarrow> mutex_inv sem x \<Longrightarrow> mutex_inv sem y"
  by (induction rule: rtranclp_induct) (auto intro: mutex_inv_step)

lemma mutex_inv_start:
  assumes "sem_at s sem [] True" "current s < MAX_UTHREADS"
  shows "mutex_inv sem (s, \<lambda>_. Outside)"
  using assms unfolding mutex_inv_def bin_inv_def
  by (auto simp: in_phase_def granted_def intro!: exI [of _ "[]"] exI [of _ True])

lemma mutex_inv_one:
  assumes "mutex_inv sem (s, ph)" "ph i = Inside" "ph j = Inside"
  shows "i = j"
proof -
  from assms(1) have "bin_inv s sem (in_phase ph Waits) (in_phase ph Inside) 1" by (simp add: mutex_inv_def)
  then show ?thesis by (rule bin_one) (use assms(2,3) in \<open>simp_all add: in_phase_def\<close>)
qed

text \<open>
  C6: threads that guard a section of code by bsem_down and bsem_up of one semaphore are never two in it at a
  time, whatever threads run, sleep, wait and are switched in between.  While a thread is inside or woken to
  go inside the flag is down; while no thread is, the flag is up and nobody waits.
\<close>

theorem bsem_mutual_exclusion:
  assumes "sem_at s sem [] True" "current s < MAX_UTHREADS" "(mutex_step sem)\<^sup>*\<^sup>* (s, \<lambda>_. Outside) (t, ph)"
  shows "(\<forall>i j. ph i = Inside \<and> ph j = Inside \<longrightarrow> i = j) \<and>
    (\<exists>ws v. sem_at t sem ws v \<and> distinct ws \<and> set ws = {i. ph i = Waits \<and> t_state (u_table t i) = T_SLEEPING} \<and>
      (v \<longleftrightarrow> (\<forall>i. ph i = Outside)))"
proof -
  have inv: "mutex_inv sem (t, ph)" using mutex_inv_steps [OF assms(3)] mutex_inv_start assms by blast
  then have "bin_inv t sem (in_phase ph Waits) (in_phase ph Inside) 1" by (simp add: mutex_inv_def)
  then obtain ws v where ws: "sem_at t sem ws v" "distinct ws" "set ws = {i \<in> in_phase ph Waits. t_state (u_table t i) = T_SLEEPING}"
    "finite (granted t (in_phase ph Waits) (in_phase ph Inside))" "card (granted t (in_phase ph Waits) (in_phase ph Inside)) + of_bool v = 1"
    by (rule bin_invE)
  have "v \<longleftrightarrow> (\<forall>i. ph i = Outside)"
  proof
    assume v
    then have "granted t (in_phase ph Waits) (in_phase ph Inside) = {}" "ws = []" using ws by (auto simp: sem_at_def Let_def)
    then have "ph i \<noteq> Inside \<and> ph i \<noteq> Waits" for i using ws(3) by (auto simp: granted_def in_phase_def)
    then show "\<forall>i. ph i = Outside" using phase.exhaust by blast
  next
    assume "\<forall>i. ph i = Outside"
    then have "granted t (in_phase ph Waits) (in_phase ph Inside) = {}" by (simp add: granted_def in_phase_def)
    then show v using ws(5) by (cases v) simp_all
  qed
  moreover have "set ws = {i. ph i = Waits \<and> t_state (u_table t i) = T_SLEEPING}" using ws(3) by (simp add: in_phase_def)
  ultimately show ?thesis using ws(1,2) mutex_inv_one [OF inv] by blast
qed


section \<open>The counting semaphore\<close>

text \<open>
  Where a thread is in \<open>down\<close> or \<open>up\<close>: before a call, blocked in a call of \<open>bsem_down\<close>, or between two parts.
\<close>

datatype cpc = C_idle | D_start | D_gate | D_in | D_mutex | D_dec | D_test | D_rel | U_start | U_mutex | U_inc | U_test | U_rel

fun csem_op :: "u32 \<Rightarrow> cpc \<Rightarrow> (uthst, unit) K" where
  "csem_op sem D_start = kbind (kget (\<lambda>s. cs_s2 (csems s sem))) bsem_down"
| "csem_op sem D_in = kbind (kget (\<lambda>s. cs_s1 (csems s sem))) bsem_down"
| "csem_op sem D_dec = add_val (-1) sem"
| "csem_op sem D_test = open_gate (\<lambda>v. v > 0) sem"
| "csem_op sem D_rel = leave_s1 sem"
| "csem_op sem U_start = kbind (kget (\<lambda>s. cs_s1 (csems s sem))) bsem_down"
| "csem_op sem U_inc = add_val 1 sem"
| "csem_op sem U_test = open_gate (\<lambda>v. v = 1) sem"
| "csem_op sem U_rel = leave_s1 sem"
| "csem_op sem _ = kret ()"

text \<open>\<open>down\<close> and \<open>up\<close> are these operations in a row.\<close>

lemma down_parts:
  "down sem = kthen (csem_op sem D_start) (kthen (csem_op sem D_in) (kthen (csem_op sem D_dec) (kthen (csem_op sem D_test) (csem_op sem D_rel))))"
  by (rule ext) (simp add: down_def down_2_def down_3_def kbind_def kget_def split: prod.splits outcome.splits)

lemma up_parts:
  "up sem = kthen (csem_op sem U_start) (kthen (csem_op sem U_inc) (kthen (csem_op sem U_test) (csem_op sem U_rel)))"
  by (rule ext) (simp add: up_def up_2_def kbind_def kget_def split: prod.splits outcome.splits)


fun csem_next :: "cpc \<Rightarrow> cpc" where
  "csem_next D_start = D_in"
| "csem_next D_in = D_dec"
| "csem_next D_dec = D_test"
| "csem_next D_test = D_rel"
| "csem_next U_start = U_inc"
| "csem_next U_inc = U_test"
| "csem_next U_test = U_rel"
| "csem_next _ = C_idle"

text \<open>Where a thread is when a call of \<open>bsem_down\<close> puts it to sleep, and where it goes on.\<close>

fun csem_blocked :: "cpc \<Rightarrow> cpc option" where
  "csem_blocked D_start = Some D_gate"
| "csem_blocked D_in = Some D_mutex"
| "csem_blocked U_start = Some U_mutex"
| "csem_blocked _ = None"

fun csem_woken :: "cpc \<Rightarrow> cpc option" where
  "csem_woken D_gate = Some D_in"
| "csem_woken D_mutex = Some D_dec"
| "csem_woken U_mutex = Some U_inc"
| "csem_woken _ = None"

text \<open>
  Threads that call \<open>down\<close> and \<open>up\<close> of one counting semaphore.  The two numbers count the units taken and
  the units given back.
\<close>

type_synonym csem_cfg = "uthst \<times> (nat \<Rightarrow> cpc) \<times> nat \<times> nat"

inductive csem_step :: "u32 \<Rightarrow> csem_cfg \<Rightarrow> csem_cfg \<Rightarrow> bool" for sem where
  call: "t_state (cur_ut s) = T_RUNNING \<Longrightarrow> pc (current s) = C_idle \<Longrightarrow> p = D_start \<or> p = U_start \<Longrightarrow>
    csem_step sem (s, pc, nd, nu) (s, pc(current s := p), nd, nu)"
| run: "t_state (cur_ut s) = T_RUNNING \<Longrightarrow> pc (current s) = p \<Longrightarrow> p \<noteq> C_idle \<Longrightarrow> csem_woken p = None \<Longrightarrow>
    csem_op sem p s = (Val (), t) \<Longrightarrow>
    csem_step sem (s, pc, nd, nu) (t, pc(current s := csem_next p), nd + of_bool (p = D_dec), nu + of_bool (p = U_inc))"
| block: "t_state (cur_ut s) = T_RUNNING \<Longrightarrow> csem_blocked (pc (current s)) = Some p \<Longrightarrow>
    csem_op sem (pc (current s)) s = (Fault Yields, t) \<Longrightarrow> csem_step sem (s, pc, nd, nu) (t, pc(current s := p), nd, nu)"
| woken: "t_state (cur_ut s) = T_RUNNING \<Longrightarrow> csem_woken (pc (current s)) = Some p \<Longrightarrow>
    csem_step sem (s, pc, nd, nu) (s, pc(current s := p), nd, nu)"
| sleep: "t_state (cur_ut s) = T_RUNNING \<Longrightarrow> csem_woken (pc (current s)) = None \<Longrightarrow> uthread_sleep ticks s = (Fault Yields, t) \<Longrightarrow>
    csem_step sem (s, pc, nd, nu) (t, pc, nd, nu)"
| switch: "ready s sp a fuel \<Longrightarrow> i < MAX_UTHREADS \<Longrightarrow> can_run s i \<Longrightarrow> uthread_schedule fuel sp s = (Val (), t) \<Longrightarrow>
    csem_step sem (s, pc, nd, nu) (t, pc, nd, nu)"

definition at_pc :: "(nat \<Rightarrow> cpc) \<Rightarrow> cpc set \<Rightarrow> nat set" where
  "at_pc pc A = {i. pc i \<in> A}"

text \<open>The threads that wait for and hold the mutex \<open>s1\<close>, and the gate \<open>s2\<close>.\<close>

definition W1 :: "cpc set" where "W1 = {D_mutex, U_mutex}"

definition G1 :: "cpc set" where "G1 = {D_dec, D_test, D_rel, U_inc, U_test, U_rel}"

definition W2 :: "cpc set" where "W2 = {D_gate}"

definition G2 :: "cpc set" where "G2 = {D_in, D_mutex, D_dec}"

lemmas pc_sets = W1_def G1_def W2_def G2_def

text \<open>The gate is open, or one thread has passed it, when there are units; a thread inside the mutex can be late to open it.\<close>

definition gate_tokens :: "(nat \<Rightarrow> cpc) \<Rightarrow> int \<Rightarrow> nat" where
  "gate_tokens pc val =
     (if \<exists>i. pc i = D_test then 0 else if \<exists>i. pc i = U_test then of_bool (val > 1) else of_bool (val > 0))"

definition csem_inv :: "u32 \<Rightarrow> int \<Rightarrow> csem_cfg \<Rightarrow> bool" where
  "csem_inv sem n = (\<lambda>(s, pc, nd, nu). let c = csems s sem in
     current s < MAX_UTHREADS \<and> sem_sep s (cs_s1 c) (cs_s2 c) \<and>
     bin_inv s (cs_s1 c) (at_pc pc W1) (at_pc pc G1) 1 \<and> bin_inv s (cs_s2 c) (at_pc pc W2) (at_pc pc G2) (gate_tokens pc (cs_val c)) \<and>
     cs_val c = n + int nu - int nd \<and> 0 \<le> cs_val c \<and> ((\<exists>i. pc i = U_test) \<longrightarrow> 1 \<le> cs_val c))"

lemma at_pc_upd: "at_pc (pc(c := p)) A = (if p \<in> A then insert c (at_pc pc A) else at_pc pc A - {c})"
  by (auto simp: at_pc_def)

lemma at_pc_iff: "c \<in> at_pc pc A \<longleftrightarrow> pc c \<in> A"
  by (simp add: at_pc_def)

lemma at_pc_same: "(p \<in> A \<longleftrightarrow> pc c \<in> A) \<Longrightarrow> at_pc (pc(c := p)) A = at_pc pc A"
  by (auto simp: at_pc_def)

text \<open>An operation on one semaphore, seen from another.\<close>

lemma bin_other:
  assumes "bin_inv s b W G n" "sem_frame s t a" "sem_sep s a b" "\<forall>i. i \<noteq> x \<longrightarrow> u_table t i = u_table s i" "x \<notin> W"
  shows "bin_inv t b W G n"
  by (rule bin_keep [OF assms(1)]) (use assms(2-5) sem_frame_other in \<open>metis+\<close>)

lemma bin_inv_csem [simp]: "bin_inv (upd_csem p f s) sem W G n = bin_inv s sem W G n"
  by (simp add: bin_inv_def sem_at_def granted_def upd_csem_def)

lemma sem_sep_csem [simp]: "sem_sep (upd_csem p f s) a b = sem_sep s a b"
  by (simp add: sem_sep_def upd_csem_def)

lemma inside_alone:
  assumes "bin_inv s sem (at_pc pc W1) (at_pc pc G1) 1" "pc c \<in> G1" "pc i \<in> G1"
  shows "i = c"
  using bin_one [OF assms(1), of i c] assms(2,3) by (simp add: at_pc_iff)

lemma bin_pos:
  assumes "bin_inv s sem W G n" "i \<in> G"
  shows "0 < n"
proof -
  from assms(1) obtain v where "finite (granted s W G)" "card (granted s W G) + of_bool v = n" by (rule bin_invE)
  moreover have "i \<in> granted s W G" using assms(2) by (auto simp: granted_def)
  ultimately show ?thesis using card_gt_0_iff by (metis add_gr_0 empty_iff)
qed


lemma late_same:
  assumes "pc c \<notin> {D_test, U_test}" "q \<notin> {D_test, U_test}"
  shows "gate_tokens (pc(c := q)) v = gate_tokens pc v" "(\<exists>i. (pc(c := q)) i = U_test) \<longleftrightarrow> (\<exists>i. pc i = U_test)"
proof -
  have "(\<exists>i. (pc(c := q)) i = x) \<longleftrightarrow> (\<exists>i. pc i = x)" if "x \<in> {D_test, U_test}" for x
    using assms that by (metis fun_upd_apply)
  then show "gate_tokens (pc(c := q)) v = gate_tokens pc v" "(\<exists>i. (pc(c := q)) i = U_test) \<longleftrightarrow> (\<exists>i. pc i = U_test)"
    by (simp_all add: gate_tokens_def)
qed

lemma csem_invE:
  assumes "csem_inv sem n (s, pc, nd, nu)"
  obtains "current s < MAX_UTHREADS" "sem_sep s (cs_s1 (csems s sem)) (cs_s2 (csems s sem))"
    "bin_inv s (cs_s1 (csems s sem)) (at_pc pc W1) (at_pc pc G1) 1"
    "bin_inv s (cs_s2 (csems s sem)) (at_pc pc W2) (at_pc pc G2) (gate_tokens pc (cs_val (csems s sem)))"
    "cs_val (csems s sem) = n + int nu - int nd" "0 \<le> cs_val (csems s sem)" "(\<exists>i. pc i = U_test) \<longrightarrow> 1 \<le> cs_val (csems s sem)"
  using assms unfolding csem_inv_def Let_def prod.case by blast

text \<open>A call of \<open>bsem_down\<close>, on the gate and on the mutex.\<close>

lemma csem_down_gate:
  assumes inv: "csem_inv sem n (s, pc, nd, nu)" and pc: "pc (current s) = D_start"
    and r: "bsem_down (cs_s2 (csems s sem)) s = (r, t)"
  shows "csem_inv sem n (t, pc(current s := (if r = Val () then D_in else D_gate)), nd, nu)"
proof -
  let ?c = "current s"
  let ?s1 = "cs_s1 (csems s sem)" and ?s2 = "cs_s2 (csems s sem)"
  from inv have i: "?c < MAX_UTHREADS" "sem_sep s ?s1 ?s2" "bin_inv s ?s1 (at_pc pc W1) (at_pc pc G1) 1"
    "bin_inv s ?s2 (at_pc pc W2) (at_pc pc G2) (gate_tokens pc (cs_val (csems s sem)))" by (rule csem_invE, blast)+
  have nin: "?c \<notin> at_pc pc W2" "?c \<notin> at_pc pc G2" "?c \<notin> at_pc pc W1" by (simp_all add: at_pc_iff pc pc_sets)
  have fr: "sem_frame s t ?s2" and ut: "\<forall>i. i \<noteq> ?c \<longrightarrow> u_table t i = u_table s i" and
    b2: "bin_inv t ?s2 (at_pc (pc(?c := (if r = Val () then D_in else D_gate))) W2) (at_pc (pc(?c := (if r = Val () then D_in else D_gate))) G2)
      (gate_tokens pc (cs_val (csems s sem)))"
    using bin_down [OF i(4) i(1) nin(1,2)] r nin by (auto simp: at_pc_upd pc_sets)
  have b1: "bin_inv t ?s1 (at_pc pc W1) (at_pc pc G1) 1"
    using bin_other [OF i(3) fr _ ut nin(3)] i(2) by (simp add: sem_sep_sym)
  show ?thesis
    using inv fr b1 b2 i(1) sem_frame_sep [OF fr]
    by (auto simp: csem_inv_def Let_def sem_frame_def late_same at_pc_same pc pc_sets)
qed

lemma csem_down_mutex:
  assumes inv: "csem_inv sem n (s, pc, nd, nu)"
    and pc: "pc (current s) = D_in \<and> q = D_dec \<and> w = D_mutex \<or> pc (current s) = U_start \<and> q = U_inc \<and> w = U_mutex"
    and r: "bsem_down (cs_s1 (csems s sem)) s = (r, t)"
  shows "csem_inv sem n (t, pc(current s := (if r = Val () then q else w)), nd, nu)"
proof -
  let ?c = "current s"
  let ?s1 = "cs_s1 (csems s sem)" and ?s2 = "cs_s2 (csems s sem)"
  from inv have i: "?c < MAX_UTHREADS" "sem_sep s ?s1 ?s2" "bin_inv s ?s1 (at_pc pc W1) (at_pc pc G1) 1"
    "bin_inv s ?s2 (at_pc pc W2) (at_pc pc G2) (gate_tokens pc (cs_val (csems s sem)))" by (rule csem_invE, blast)+
  have nin: "?c \<notin> at_pc pc W1" "?c \<notin> at_pc pc G1" "?c \<notin> at_pc pc W2" using pc by (auto simp: at_pc_iff pc_sets)
  have fr: "sem_frame s t ?s1" and ut: "\<forall>i. i \<noteq> ?c \<longrightarrow> u_table t i = u_table s i" and
    b1: "bin_inv t ?s1 (at_pc (pc(?c := (if r = Val () then q else w))) W1) (at_pc (pc(?c := (if r = Val () then q else w))) G1) 1"
    using bin_down [OF i(3) i(1) nin(1,2)] r nin pc by (auto simp: at_pc_upd pc_sets)
  have b2: "bin_inv t ?s2 (at_pc pc W2) (at_pc pc G2) (gate_tokens pc (cs_val (csems s sem)))"
    using bin_other [OF i(4) fr i(2) ut nin(3)] .
  show ?thesis
    using inv fr b1 b2 i(1) sem_frame_sep [OF fr] pc
    by (auto simp: csem_inv_def Let_def sem_frame_def late_same at_pc_same pc_sets)
qed

lemma one_changed:
  assumes "ut' = ut \<or> (\<exists>w \<in> A. P w \<and> ut' = ut(w := f w))" "c \<notin> B" "A \<inter> B = {}"
  shows "\<exists>x. (\<forall>i. i \<noteq> x \<longrightarrow> ut' i = ut i) \<and> x \<notin> B"
  using assms(1)
proof
  assume "ut' = ut"
  then show ?thesis using assms(2) by blast
next
  assume "\<exists>w \<in> A. P w \<and> ut' = ut(w := f w)"
  then obtain w where "w \<in> A" "ut' = ut(w := f w)" by blast
  then show ?thesis using assms(3) by (intro exI [of _ w]) auto
qed

text \<open>Releasing the mutex.\<close>

lemma csem_leave:
  assumes inv: "csem_inv sem n (s, pc, nd, nu)" and pc: "pc (current s) = D_rel \<or> pc (current s) = U_rel"
  shows "\<exists>t. leave_s1 sem s = (Val (), t) \<and> csem_inv sem n (t, pc(current s := C_idle), nd, nu)"
proof -
  let ?c = "current s"
  let ?s1 = "cs_s1 (csems s sem)" and ?s2 = "cs_s2 (csems s sem)"
  from inv have i: "?c < MAX_UTHREADS" "sem_sep s ?s1 ?s2" "bin_inv s ?s1 (at_pc pc W1) (at_pc pc G1) 1"
    "bin_inv s ?s2 (at_pc pc W2) (at_pc pc G2) (gate_tokens pc (cs_val (csems s sem)))" by (rule csem_invE, blast)+
  have nin: "?c \<notin> at_pc pc W1" "?c \<in> at_pc pc G1" using pc by (auto simp: at_pc_iff pc_sets)
  then obtain t where t: "bsem_up ?s1 s = (Val (), t)" "bin_inv t ?s1 (at_pc pc W1) (at_pc pc G1 - {?c}) 1" and fr: "sem_frame s t ?s1" and
    ut: "u_table t = u_table s \<or> (\<exists>w \<in> at_pc pc W1. t_state (u_table s w) = T_SLEEPING \<and> u_table t = (u_table s)(w := (u_table s w)\<lparr>t_state := T_RUNNABLE\<rparr>))"
    using bin_up [OF i(3) _ nin(1)] by blast
  have "\<exists>x. (\<forall>i. i \<noteq> x \<longrightarrow> u_table t i = u_table s i) \<and> x \<notin> at_pc pc W2"
    by (rule one_changed [OF ut, where c = ?c]) (use pc in \<open>auto simp: at_pc_def pc_sets\<close>)
  then have b2: "bin_inv t ?s2 (at_pc pc W2) (at_pc pc G2) (gate_tokens pc (cs_val (csems s sem)))"
    using bin_other [OF i(4) fr i(2)] by blast
  have same: "at_pc (pc(?c := C_idle)) W1 = at_pc pc W1" "at_pc (pc(?c := C_idle)) G1 = at_pc pc G1 - {?c}"
    "at_pc (pc(?c := C_idle)) W2 = at_pc pc W2" "at_pc (pc(?c := C_idle)) G2 = at_pc pc G2"
    using pc by (auto simp: at_pc_def pc_sets)
  have late: "pc ?c \<notin> {D_test, U_test}" "C_idle \<notin> {D_test, U_test}" using pc by auto
  have cs: "csems t = csems s" "current t = ?c" using fr by (simp_all add: sem_frame_def)
  have "csem_inv sem n (t, pc(?c := C_idle), nd, nu)"
    using inv t(2) b2 unfolding csem_inv_def Let_def prod.case same late_same [of pc ?c, OF late] cs sem_frame_sep [OF fr] by blast
  then show ?thesis using t(1) by (auto simp: leave_s1_def kbind_def kget_def)
qed


text \<open>Counting, and opening the gate.\<close>

lemma csem_take:
  assumes inv: "csem_inv sem n (s, pc, nd, nu)" and pc: "pc (current s) = D_dec"
  shows "\<exists>t. add_val (-1) sem s = (Val (), t) \<and> csem_inv sem n (t, pc(current s := D_test), Suc nd, nu)"
proof -
  let ?c = "current s"
  let ?s1 = "cs_s1 (csems s sem)" and ?s2 = "cs_s2 (csems s sem)"
  from inv have i: "?c < MAX_UTHREADS" "sem_sep s ?s1 ?s2" "bin_inv s ?s1 (at_pc pc W1) (at_pc pc G1) 1"
    "bin_inv s ?s2 (at_pc pc W2) (at_pc pc G2) (gate_tokens pc (cs_val (csems s sem)))" "cs_val (csems s sem) = n + int nu - int nd"
    by (rule csem_invE, blast)+
  have alone: "pc i \<noteq> U_test \<and> pc i \<noteq> D_test" for i
    using inside_alone [OF i(3), of ?c i] pc by (auto simp: pc_sets)
  have "0 < gate_tokens pc (cs_val (csems s sem))" using bin_pos [OF i(4), of ?c] by (simp add: at_pc_iff pc pc_sets)
  then have pos: "0 < cs_val (csems s sem)" "gate_tokens pc (cs_val (csems s sem)) = 1"
    using alone by (auto simp: gate_tokens_def split: if_splits)
  have "?c \<in> at_pc pc G2" "?c \<notin> at_pc pc W2" by (simp_all add: at_pc_iff pc pc_sets)
  then have b2: "bin_inv s ?s2 (at_pc pc W2) (at_pc pc G2 - {?c}) 0" using bin_release i(4) pos(2) by metis
  let ?t = "upd_csem sem (\<lambda>c. c\<lparr>cs_val := cs_val c + -1\<rparr>) s"
  have same: "at_pc (pc(?c := D_test)) W1 = at_pc pc W1" "at_pc (pc(?c := D_test)) G1 = at_pc pc G1"
    "at_pc (pc(?c := D_test)) W2 = at_pc pc W2" "at_pc (pc(?c := D_test)) G2 = at_pc pc G2 - {?c}"
    using pc by (auto simp: at_pc_def pc_sets)
  have t: "current ?t = ?c" "cs_s1 (csems ?t sem) = ?s1" "cs_s2 (csems ?t sem) = ?s2" "cs_val (csems ?t sem) = cs_val (csems s sem) - 1"
    by (simp_all add: upd_csem_def)
  have "gate_tokens (pc(?c := D_test)) (cs_val (csems s sem) - 1) = 0" by (auto simp: gate_tokens_def)
  then have "csem_inv sem n (?t, pc(?c := D_test), Suc nd, nu)"
    using i b2 pos(1) alone unfolding csem_inv_def Let_def prod.case same t by simp
  then show ?thesis by (simp add: add_val_def kmod_def)
qed

lemma csem_give:
  assumes inv: "csem_inv sem n (s, pc, nd, nu)" and pc: "pc (current s) = U_inc"
  shows "\<exists>t. add_val 1 sem s = (Val (), t) \<and> csem_inv sem n (t, pc(current s := U_test), nd, Suc nu)"
proof -
  let ?c = "current s"
  let ?s1 = "cs_s1 (csems s sem)" and ?s2 = "cs_s2 (csems s sem)"
  from inv have i: "?c < MAX_UTHREADS" "sem_sep s ?s1 ?s2" "bin_inv s ?s1 (at_pc pc W1) (at_pc pc G1) 1"
    "bin_inv s ?s2 (at_pc pc W2) (at_pc pc G2) (gate_tokens pc (cs_val (csems s sem)))" "cs_val (csems s sem) = n + int nu - int nd"
    "0 \<le> cs_val (csems s sem)"
    by (rule csem_invE, blast)+
  have alone: "pc i \<noteq> U_test \<and> pc i \<noteq> D_test" for i
    using inside_alone [OF i(3), of ?c i] pc by (auto simp: pc_sets)
  have tok: "gate_tokens (pc(?c := U_test)) (cs_val (csems s sem) + 1) = gate_tokens pc (cs_val (csems s sem))"
    using alone by (auto simp: gate_tokens_def)
  let ?t = "upd_csem sem (\<lambda>c. c\<lparr>cs_val := cs_val c + 1\<rparr>) s"
  have same: "at_pc (pc(?c := U_test)) W1 = at_pc pc W1" "at_pc (pc(?c := U_test)) G1 = at_pc pc G1"
    "at_pc (pc(?c := U_test)) W2 = at_pc pc W2" "at_pc (pc(?c := U_test)) G2 = at_pc pc G2"
    using pc by (auto simp: at_pc_def pc_sets)
  have t: "current ?t = ?c" "cs_s1 (csems ?t sem) = ?s1" "cs_s2 (csems ?t sem) = ?s2" "cs_val (csems ?t sem) = cs_val (csems s sem) + 1"
    by (simp_all add: upd_csem_def)
  have "csem_inv sem n (?t, pc(?c := U_test), nd, Suc nu)"
    using i tok unfolding csem_inv_def Let_def prod.case same t by simp
  then show ?thesis by (simp add: add_val_def kmod_def)
qed

lemma csem_gate:
  assumes inv: "csem_inv sem n (s, pc, nd, nu)"
    and pc: "pc (current s) = D_test \<and> q = D_rel \<and> f = (\<lambda>v. v > 0) \<or> pc (current s) = U_test \<and> q = U_rel \<and> f = (\<lambda>v. v = 1)"
  shows "\<exists>t. open_gate f sem s = (Val (), t) \<and> csem_inv sem n (t, pc(current s := q), nd, nu)"
proof -
  let ?c = "current s"
  let ?s1 = "cs_s1 (csems s sem)" and ?s2 = "cs_s2 (csems s sem)" and ?v = "cs_val (csems s sem)"
  from inv have i: "?c < MAX_UTHREADS" "sem_sep s ?s1 ?s2" "bin_inv s ?s1 (at_pc pc W1) (at_pc pc G1) 1"
    "bin_inv s ?s2 (at_pc pc W2) (at_pc pc G2) (gate_tokens pc ?v)" "?v = n + int nu - int nd"
    "0 \<le> ?v" "(\<exists>i. pc i = U_test) \<longrightarrow> 1 \<le> ?v"
    by (rule csem_invE, blast)+
  have alone: "pc i \<noteq> U_test \<and> pc i \<noteq> D_test" if "i \<noteq> ?c" for i
    using inside_alone [OF i(3), of ?c i] pc that by (auto simp: pc_sets)
  then have none: "(\<exists>i. (pc(?c := q)) i = U_test) = False" "(\<exists>i. (pc(?c := q)) i = D_test) = False" using pc by auto
  have late: "(\<exists>i. pc i = x) = (pc ?c = x)" if "x \<in> {D_test, U_test}" for x using alone that by (metis empty_iff insert_iff)
  have after: "gate_tokens (pc(?c := q)) ?v = of_bool (?v > 0)" unfolding gate_tokens_def none by simp
  have before: "gate_tokens pc ?v = of_bool (?v > 0 \<and> \<not> f ?v)"
    using pc i(7) by (auto simp: gate_tokens_def late)
  have same: "at_pc (pc(?c := q)) W1 = at_pc pc W1" "at_pc (pc(?c := q)) G1 = at_pc pc G1"
    "at_pc (pc(?c := q)) W2 = at_pc pc W2" "at_pc (pc(?c := q)) G2 = at_pc pc G2"
    using pc by (auto simp: at_pc_def pc_sets)
  have nin: "?c \<notin> at_pc pc G2" "?c \<notin> at_pc pc W2" "?c \<notin> at_pc pc W1" using pc by (auto simp: at_pc_iff pc_sets)
  show ?thesis
  proof (cases "f ?v")
    case False
    then have "csem_inv sem n (s, pc(?c := q), nd, nu)"
      using i before after unfolding csem_inv_def Let_def prod.case same none by simp
    then show ?thesis using False by (simp add: open_gate_def kbind_def kget_def kwhen_def kret_def)
  next
    case True
    then have pos: "?v > 0" "gate_tokens pc ?v = 0" using pc before by auto
    then obtain t where t: "bsem_up ?s2 s = (Val (), t)" "bin_inv t ?s2 (at_pc pc W2) (at_pc pc G2 - {?c}) 1" and fr: "sem_frame s t ?s2" and
      ut: "u_table t = u_table s \<or> (\<exists>w \<in> at_pc pc W2. t_state (u_table s w) = T_SLEEPING \<and> u_table t = (u_table s)(w := (u_table s w)\<lparr>t_state := T_RUNNABLE\<rparr>))"
      using bin_up [OF i(4) _ nin(2)] nin(1) by blast
    have "\<exists>x. (\<forall>i. i \<noteq> x \<longrightarrow> u_table t i = u_table s i) \<and> x \<notin> at_pc pc W1"
      by (rule one_changed [OF ut nin(3)]) (auto simp: at_pc_def pc_sets)
    then have b1: "bin_inv t ?s1 (at_pc pc W1) (at_pc pc G1) 1"
      using bin_other [OF i(3) fr] i(2) sem_sep_sym by blast
    have "csem_inv sem n (t, pc(?c := q), nd, nu)"
      using i(1,2,5,6) pos t(2) b1 after nin(1) fr sem_frame_sep [OF fr] unfolding csem_inv_def Let_def prod.case same none
      by (simp add: sem_frame_def)
    then show ?thesis using t(1) True by (auto simp: open_gate_def kbind_def kget_def kwhen_def)
  qed
qed


lemma csem_run:
  assumes inv: "csem_inv sem n (s, pc, nd, nu)" and p: "pc (current s) \<noteq> C_idle" "csem_woken (pc (current s)) = None"
    and r: "csem_op sem (pc (current s)) s = (Val (), t)"
  shows "csem_inv sem n (t, pc(current s := csem_next (pc (current s))), nd + of_bool (pc (current s) = D_dec), nu + of_bool (pc (current s) = U_inc))"
proof (cases "pc (current s)")
  case D_start
  then show ?thesis using csem_down_gate [OF inv D_start] r by (auto simp: kbind_def kget_def)
next
  case D_in
  then show ?thesis using csem_down_mutex [OF inv, of D_dec D_mutex] r by (auto simp: kbind_def kget_def)
next
  case D_dec
  then show ?thesis using csem_take [OF inv] r by auto
next
  case D_test
  then show ?thesis using csem_gate [OF inv, of D_rel "\<lambda>v. v > 0"] r by auto
next
  case D_rel
  then show ?thesis using csem_leave [OF inv] r by auto
next
  case U_start
  then show ?thesis using csem_down_mutex [OF inv, of U_inc U_mutex] r by (auto simp: kbind_def kget_def)
next
  case U_inc
  then show ?thesis using csem_give [OF inv] r by auto
next
  case U_test
  then show ?thesis using csem_gate [OF inv, of U_rel "\<lambda>v. v = 1"] r by auto
next
  case U_rel
  then show ?thesis using csem_leave [OF inv] r by auto
qed (use p in auto)

lemma csem_block:
  assumes inv: "csem_inv sem n (s, pc, nd, nu)" and p: "csem_blocked (pc (current s)) = Some p"
    and r: "csem_op sem (pc (current s)) s = (Fault Yields, t)"
  shows "csem_inv sem n (t, pc(current s := p), nd, nu)"
proof (cases "pc (current s)")
  case D_start
  then show ?thesis using csem_down_gate [OF inv D_start] r p by (auto simp: kbind_def kget_def)
next
  case D_in
  then show ?thesis using csem_down_mutex [OF inv, of D_dec D_mutex] r p by (auto simp: kbind_def kget_def)
next
  case U_start
  then show ?thesis using csem_down_mutex [OF inv, of U_inc U_mutex] r p by (auto simp: kbind_def kget_def)
qed (use p in auto)

lemma csem_resume:
  assumes inv: "csem_inv sem n (s, pc, nd, nu)" and p: "csem_woken (pc (current s)) = Some p" and run: "t_state (cur_ut s) = T_RUNNING"
  shows "csem_inv sem n (s, pc(current s := p), nd, nu)"
proof -
  let ?c = "current s"
  let ?s1 = "cs_s1 (csems s sem)" and ?s2 = "cs_s2 (csems s sem)" and ?v = "cs_val (csems s sem)"
  from inv have i: "bin_inv s ?s1 (at_pc pc W1) (at_pc pc G1) 1" "bin_inv s ?s2 (at_pc pc W2) (at_pc pc G2) (gate_tokens pc ?v)"
    by (rule csem_invE, blast)+
  have run: "t_state (u_table s ?c) \<noteq> T_SLEEPING" using run by (simp add: cur_ut_def)
  have late: "pc ?c \<notin> {D_test, U_test}" "p \<notin> {D_test, U_test}" using p by (cases "pc ?c"; auto)+
  have "bin_inv s ?s1 (at_pc (pc(?c := p)) W1) (at_pc (pc(?c := p)) G1) 1 \<and>
      bin_inv s ?s2 (at_pc (pc(?c := p)) W2) (at_pc (pc(?c := p)) G2) (gate_tokens pc ?v)"
  proof (cases "pc ?c = D_gate")
    case True
    then have "p = D_in" "?c \<in> at_pc pc W2" using p by (auto simp: at_pc_iff pc_sets)
    moreover have "at_pc (pc(?c := D_in)) W2 = at_pc pc W2 - {?c}" "at_pc (pc(?c := D_in)) G2 = insert ?c (at_pc pc G2)"
      "at_pc (pc(?c := D_in)) W1 = at_pc pc W1" "at_pc (pc(?c := D_in)) G1 = at_pc pc G1"
      using True by (auto simp: at_pc_def pc_sets)
    ultimately show ?thesis using i(1) bin_resume [OF i(2) _ run] by simp
  next
    case False
    then have c: "?c \<in> at_pc pc W1" "pc ?c = D_mutex \<and> p = D_dec \<or> pc ?c = U_mutex \<and> p = U_inc"
      using p by (cases "pc ?c"; auto simp: at_pc_iff pc_sets)+
    moreover have "at_pc (pc(?c := p)) W1 = at_pc pc W1 - {?c}" "at_pc (pc(?c := p)) G1 = insert ?c (at_pc pc G1)"
      "at_pc (pc(?c := p)) W2 = at_pc pc W2" "at_pc (pc(?c := p)) G2 = at_pc pc G2"
      using c(2) by (auto simp: at_pc_def pc_sets)
    ultimately show ?thesis using i(2) bin_resume [OF i(1) _ run] by simp
  qed
  then show ?thesis using inv unfolding csem_inv_def Let_def prod.case late_same [of pc ?c, OF late] by blast
qed

lemma csem_waits: "csem_woken p = None \<Longrightarrow> p \<notin> W1 \<and> p \<notin> W2"
  by (cases p) (auto simp: pc_sets)

lemma csem_inv_step: "csem_step sem x y \<Longrightarrow> csem_inv sem n x \<Longrightarrow> csem_inv sem n y"
proof (induction rule: csem_step.induct)
  case (call s pc p nd nu)
  then have late: "pc (current s) \<notin> {D_test, U_test}" "p \<notin> {D_test, U_test}" by auto
  have same: "at_pc (pc(current s := p)) W1 = at_pc pc W1" "at_pc (pc(current s := p)) G1 = at_pc pc G1"
    "at_pc (pc(current s := p)) W2 = at_pc pc W2" "at_pc (pc(current s := p)) G2 = at_pc pc G2"
    using call(2,3) by (auto simp: at_pc_def pc_sets)
  show ?case using call(4) unfolding csem_inv_def Let_def prod.case late_same [of pc "current s", OF late] same .
next
  case (run s pc p t nd nu)
  then show ?case using csem_run by blast
next
  case (block s pc p t nd nu)
  then show ?case using csem_block by blast
next
  case (woken s pc p nd nu)
  then show ?case using csem_resume by blast
next
  case (sleep s pc ticks t nd nu)
  then have "current s \<notin> at_pc pc W1" "current s \<notin> at_pc pc W2" using csem_waits by (auto simp: at_pc_iff)
  then show ?case
    using bin_sleep [OF _ _ sleep(3)] sleep(3,4) sleep_effect [of ticks s] unfolding csem_inv_def Let_def prod.case
    by (auto simp: sem_sep_def)
next
  case (switch s sp a fuel i t pc nd nu)
  then show ?case
    using bin_schedule [OF _ switch(1-4)] schedule_switches [OF switch(1-3)] unfolding csem_inv_def Let_def prod.case
    by (auto simp: sem_sep_def)
qed

lemma csem_inv_steps: "(csem_step sem)\<^sup>*\<^sup>* x y \<Longrightarrow> csem_inv sem n x \<Longrightarrow> csem_inv sem n y"
  by (induction rule: rtranclp_induct) (auto intro: csem_inv_step)

lemma csem_inv_start:
  assumes "0 \<le> n" "current s < MAX_UTHREADS" "sem_at s (cs_s1 (csems s sem)) [] True" "sem_at s (cs_s2 (csems s sem)) [] (n > 0)"
    "sem_sep s (cs_s1 (csems s sem)) (cs_s2 (csems s sem))" "cs_val (csems s sem) = n"
  shows "csem_inv sem n (s, \<lambda>_. C_idle, 0, 0)"
proof -
  have none: "at_pc (\<lambda>_. C_idle) W1 = {}" "at_pc (\<lambda>_. C_idle) G1 = {}" "at_pc (\<lambda>_. C_idle) W2 = {}" "at_pc (\<lambda>_. C_idle) G2 = {}"
    by (simp_all add: at_pc_def pc_sets)
  have b: "bin_inv s x {} {} (of_bool v)" if "sem_at s x [] v" for x v
    using that unfolding bin_inv_def by (intro conjI exI [of _ "[]"] exI [of _ v]) (auto simp: granted_def)
  have g: "gate_tokens (\<lambda>_. C_idle) n = of_bool (n > 0)" by (simp add: gate_tokens_def)
  show ?thesis
    using b [OF assms(3)] b [OF assms(4)] assms(1,2,5) unfolding csem_inv_def Let_def prod.case none assms(6) g by simp
qed

text \<open>
  C7: the counting semaphore hands out at most what it has.  When threads call down and up of a semaphore of
  initial value n in any order, and are switched between any two of the calls that these make, then at every
  moment the number of units taken is at most n plus the number of units given back, the difference is the
  value of the semaphore, and at most one thread is in the part of the code that changes it.
\<close>

theorem csem_never_negative:
  assumes "0 \<le> n" "current s < MAX_UTHREADS" "sem_at s (cs_s1 (csems s sem)) [] True" "sem_at s (cs_s2 (csems s sem)) [] (n > 0)"
    "sem_sep s (cs_s1 (csems s sem)) (cs_s2 (csems s sem))" "cs_val (csems s sem) = n"
    and "(csem_step sem)\<^sup>*\<^sup>* (s, \<lambda>_. C_idle, 0, 0) (t, pc, nd, nu)"
  shows "int nd \<le> n + int nu \<and> cs_val (csems t sem) = n + int nu - int nd \<and>
    (\<forall>i j. pc i \<in> {D_dec, D_test, U_inc, U_test} \<and> pc j \<in> {D_dec, D_test, U_inc, U_test} \<longrightarrow> i = j)"
proof -
  have inv: "csem_inv sem n (t, pc, nd, nu)" using csem_inv_steps [OF assms(7)] csem_inv_start assms(1-6) by blast
  then have i: "bin_inv t (cs_s1 (csems t sem)) (at_pc pc W1) (at_pc pc G1) 1" "cs_val (csems t sem) = n + int nu - int nd"
    "0 \<le> cs_val (csems t sem)" by (rule csem_invE, blast)+
  have "i = j" if "pc i \<in> {D_dec, D_test, U_inc, U_test}" "pc j \<in> {D_dec, D_test, U_inc, U_test}" for i j
    using inside_alone [OF i(1), of j i] that by (auto simp: pc_sets)
  then show ?thesis using i(2,3) by auto
qed


section \<open>The other side of the merge\<close>

lemma shift_queue_diverges:
  "1 < bi_lastWaitingInd (bisems s p) \<Longrightarrow> \<exists>t. shift_queue n p 0 1 s = (Fault Diverges, t)"
proof (induction n arbitrary: s)
  case (Suc n)
  then show ?case
    using Suc.IH [of "upd_bisem p (\<lambda>b. b\<lparr>bi_waitingThreads := (bi_waitingThreads b)(0 := bi_waitingThreads b 1)\<rparr>) s"]
    by (simp add: kbind_def kget_def kmod_def upd_bisem_def)
qed (simp add: kfail_def)

text \<open>
  C38: the binary semaphore of the other side of the merge does not work.  A fresh semaphore counts as taken: the
  first bsem_down puts its caller to sleep without a timer, and since the thread enters itself into the queue
  only after it has been woken, no bsem_up wakes it.  With two threads in the queue bsem_up never ends.
\<close>

theorem bsem_theirs_deadlocks:
  assumes "0 \<le> sem" "sem \<le> int MAX_BSEM" "bisemtable s (nat sem) = p" "p \<noteq> 0"
  shows "(bi_s (bisems s p) = 1 \<and> bi_lastWaitingInd (bisems s p) = 0 \<and> bi_totalWaitingThreads (bisems s p) = 0 \<longrightarrow>
     (\<exists>t. bsem_down_theirs sem s = (Fault Yields, t) \<and>
        t_state (u_table t (current s)) = T_SLEEPING \<and> t_wakeup (u_table t (current s)) = 0 \<and>
        (\<exists>u. bsem_up_theirs fuel sem t = (Val (), u) \<and> u_table u = u_table t \<and> bisems u = bisems t))) \<and>
    (0 < bi_totalWaitingThreads (bisems s p) \<and> bi_lastWaitingInd (bisems s p) \<in> {2..<MAX_UTHREADS} \<and>
       bi_waitingThreads (bisems s p) 0 < MAX_UTHREADS \<longrightarrow> (\<exists>t. bsem_up_theirs fuel sem s = (Fault Diverges, t)))"
proof (intro conjI impI)
  assume "bi_s (bisems s p) = 1 \<and> bi_lastWaitingInd (bisems s p) = 0 \<and> bi_totalWaitingThreads (bisems s p) = 0"
  then show "\<exists>t. bsem_down_theirs sem s = (Fault Yields, t) \<and>
        t_state (u_table t (current s)) = T_SLEEPING \<and> t_wakeup (u_table t (current s)) = 0 \<and>
        (\<exists>u. bsem_up_theirs fuel sem t = (Val (), u) \<and> u_table u = u_table t \<and> bisems u = bisems t)"
    using assms by (auto simp: bsem_down_theirs_def bsem_up_theirs_def bisem_at_def uthread_sleep_def u_defs upd_bisem_def
      upd_ut_def kwhen_def param_defs)
next
  assume w: "0 < bi_totalWaitingThreads (bisems s p) \<and> bi_lastWaitingInd (bisems s p) \<in> {2..<MAX_UTHREADS} \<and>
       bi_waitingThreads (bisems s p) 0 < MAX_UTHREADS"
  let ?s = "upd_ut (bi_waitingThreads (bisems s p) 0) (\<lambda>u. u\<lparr>t_state := T_RUNNABLE\<rparr>) (s\<lparr>ualarm := 0\<rparr>)"
  have "bisems ?s = bisems s" by (simp add: upd_ut_def)
  then obtain t where "shift_queue fuel p 0 1 ?s = (Fault Diverges, t)" using shift_queue_diverges [of ?s p fuel] w by auto
  then show "\<exists>t. bsem_up_theirs fuel sem s = (Fault Diverges, t)"
    using assms w by (auto simp: bsem_up_theirs_def bisem_at_def alarm_u_def kbind_def kget_def kret_def kmod_def kwhen_def Let_def not_le)
qed

section \<open>Examples\<close>

text \<open>Thread 0 runs; descriptor 1 is a free mutex, descriptor 2 a gate, the counting semaphore at 12288 uses both.\<close>

definition sem_ex :: "bool \<Rightarrow> nat list \<Rightarrow> uthst" where
  "sem_ex v ws = (ut_ex 0)\<lparr>bsemtable := (\<lambda>_. 0)(1 := 4096, 2 := 8192),
     bsems := (\<lambda>p. \<lparr>bs_s = (if v then 1 else 0), bs_insert = length ws, bs_toOut = 0, bs_size = MAX_UTHREADS,
       bs_waiting = length ws, bs_list = p + 1024\<rparr>),
     blists := (\<lambda>_ i. if i < length ws then Some (ws ! i) else None),
     csems := (\<lambda>_. \<lparr>cs_val = 1, cs_s1 = 1, cs_s2 = 2\<rparr>),
     u_table := (\<lambda>i. (u_table (ut_ex 0) i)\<lparr>t_state := (if i = 0 then T_RUNNING else T_RUNNABLE)\<rparr>)\<rparr>"

lemma sem_ex_at:
  assumes "v \<longrightarrow> ws = []" "length ws < MAX_UTHREADS" "sem \<in> {1, 2}"
  shows "sem_at (sem_ex v ws) sem ws v"
  using assms by (auto simp: sem_at_def sem_ex_def param_defs Let_def)

lemma sem_ex_current: "current (sem_ex v ws) = 0" "t_state (cur_ut (sem_ex v ws)) = T_RUNNING"
  by (simp_all add: sem_ex_def ut_ex_def cur_ut_def ust.defs)



theorem bsem_mutual_exclusion_witness:
  "\<exists>t ph. (mutex_step 1)\<^sup>*\<^sup>* (sem_ex True [], \<lambda>_. Outside) (t, ph) \<and> ph 0 = Inside \<and> (\<forall>j. ph j = Inside \<longrightarrow> j = 0)"
proof -
  have a: "sem_at (sem_ex True []) 1 [] True" by (rule sem_ex_at) (simp_all add: param_defs)
  then obtain t where t: "bsem_down 1 (sem_ex True []) = (Val (), t)" using down_free by blast
  have "mutex_step 1 (sem_ex True [], \<lambda>_. Outside) (t, (\<lambda>_. Outside)(current (sem_ex True []) := Inside))"
    by (rule mutex_step.enter) (simp_all add: sem_ex_current t)
  then have st: "(mutex_step 1)\<^sup>*\<^sup>* (sem_ex True [], \<lambda>_. Outside) (t, (\<lambda>_. Outside)(0 := Inside))" by (simp add: sem_ex_current)
  have "current (sem_ex True []) < MAX_UTHREADS" by (simp add: sem_ex_current param_defs)
  note one = conjunct1 [OF bsem_mutual_exclusion [OF a this st], THEN spec, THEN spec, THEN mp]
  show ?thesis
  proof (intro exI [of _ t] exI [of _ "(\<lambda>_. Outside)(0 := Inside)"] conjI st allI impI)
    show "j = 0" if "((\<lambda>_. Outside)(0 := Inside)) j = Inside" for j :: nat by (rule one) (use that in simp)
  qed simp
qed

text \<open>Thread 0 takes the only unit.\<close>

lemma csem_ex_run:
  "\<exists>t pc. (csem_step 12288)\<^sup>*\<^sup>* (sem_ex True [], \<lambda>_. C_idle, 0, 0) (t, pc, 1, 0)"
proof -
  let ?s = "sem_ex True []"
  have c: "csems ?s 12288 = \<lparr>cs_val = 1, cs_s1 = 1, cs_s2 = 2\<rparr>" by (simp add: sem_ex_def)
  have a: "sem_at ?s 1 [] True" "sem_at ?s 2 [] True" by (rule sem_ex_at, simp_all add: param_defs)+
  have sep: "sem_sep ?s 2 1" by (simp add: sem_sep_def sem_ex_def)
  obtain t where t: "bsem_down 2 ?s = (Val (), t)" "u_table t = u_table ?s" "sem_frame ?s t 2" using down_free [OF a(2)] by blast
  then have at: "sem_at t 1 [] True" using sem_frame_other sep a(1) by blast
  obtain u where u: "bsem_down 1 t = (Val (), u)" "u_table u = u_table t" "sem_frame t u 1" using down_free [OF at] by blast
  have cu: "current t = 0" "current u = 0" "current ?s = 0" "csems t = csems ?s" "csems u = csems ?s"
    using t(3) u(3) by (simp_all add: sem_frame_def sem_ex_current)
  have r: "t_state (cur_ut ?s) = T_RUNNING" "t_state (cur_ut t) = T_RUNNING" "t_state (cur_ut u) = T_RUNNING"
    using sem_ex_current(2) [of True "[]"] t(2) u(2) cu by (simp_all add: cur_ut_def)
  define p1 where "p1 = (\<lambda>_ :: nat. C_idle)(0 := D_start)"
  define p2 where "p2 = p1(0 := D_in)"
  define p3 where "p3 = p2(0 := D_dec)"
  have "csem_step 12288 (?s, \<lambda>_. C_idle, 0, 0) (?s, p1, 0, 0)"
    using csem_step.call [of ?s "\<lambda>_. C_idle" D_start 12288 0 0] r cu by (simp add: p1_def)
  moreover have "csem_step 12288 (?s, p1, 0, 0) (t, p2, 0, 0)"
    using csem_step.run [of ?s p1 D_start 12288 t 0 0] r cu t c by (simp add: p1_def p2_def kbind_def kget_def)
  moreover have "csem_step 12288 (t, p2, 0, 0) (u, p3, 0, 0)"
    using csem_step.run [of t p2 D_in 12288 u 0 0] r cu u c by (simp add: p2_def p3_def kbind_def kget_def)
  moreover have "csem_step 12288 (u, p3, 0, 0) (snd (add_val (-1) 12288 u), p3(0 := D_test), 1, 0)"
    using csem_step.run [of u p3 D_dec 12288 "snd (add_val (-1) 12288 u)" 0 0] r cu by (simp add: p3_def add_val_def kmod_def)
  ultimately show ?thesis by (meson converse_rtranclp_into_rtranclp rtranclp.rtrancl_refl)
qed

theorem csem_never_negative_witness:
  "\<exists>t pc. (csem_step 12288)\<^sup>*\<^sup>* (sem_ex True [], \<lambda>_. C_idle, 0, 0) (t, pc, 1, 0) \<and> cs_val (csems t 12288) = 0"
proof -
  let ?s = "sem_ex True []"
  have c: "csems ?s 12288 = \<lparr>cs_val = 1, cs_s1 = 1, cs_s2 = 2\<rparr>" by (simp add: sem_ex_def)
  obtain t pc where st: "(csem_step 12288)\<^sup>*\<^sup>* (?s, \<lambda>_. C_idle, 0, 0) (t, pc, 1, 0)" using csem_ex_run by blast
  have "sem_at ?s 1 [] True" "sem_at ?s 2 [] ((1::int) > 0)" by (rule sem_ex_at, simp_all add: param_defs)+
  moreover have "sem_sep ?s 1 2" by (simp add: sem_sep_def sem_ex_def)
  moreover have "current ?s < MAX_UTHREADS" by (simp add: sem_ex_current param_defs)
  ultimately have "cs_val (csems t 12288) = 0"
    using csem_never_negative [of 1 ?s 12288 t pc 1 0, OF _ _ _ _ _ _ st] c by simp
  then show ?thesis using st by blast
qed

definition theirs_ex :: "nat \<Rightarrow> uthst_theirs" where
  "theirs_ex n = uthst.extend (ut_ex 1) \<lparr>bisemtable = (\<lambda>_. 4096),
     bisems = (\<lambda>_. \<lparr>bi_s = 1, bi_waitingThreads = (\<lambda>_. 2), bi_lastWaitingInd = n, bi_totalWaitingThreads = n\<rparr>)\<rparr>"

theorem bsem_theirs_deadlocks_witness:
  "(\<exists>t. bsem_down_theirs 1 (theirs_ex 0) = (Fault Yields, t) \<and> t_state (u_table t 1) = T_SLEEPING) \<and>
   (\<exists>t. bsem_up_theirs 1000 1 (theirs_ex 2) = (Fault Diverges, t))"
proof -
  have b: "bisemtable (theirs_ex n) (nat 1) = 4096" for n by (simp add: theirs_ex_def uthst.defs)
  have f: "bisems (theirs_ex n) 4096 = \<lparr>bi_s = 1, bi_waitingThreads = (\<lambda>_. 2), bi_lastWaitingInd = n, bi_totalWaitingThreads = n\<rparr>"
    "current (theirs_ex n) = 1" for n
    by (simp_all add: theirs_ex_def uthst.defs ut_ex_def ust.defs)
  show ?thesis
    using bsem_theirs_deadlocks [OF _ _ b, of 0 1000] bsem_theirs_deadlocks [OF _ _ b, of 2 1000] by (auto simp: f param_defs)
qed

end
