(* ===== verification/Xv6_Calls.thy ===== *)
theory Xv6_Calls
  imports Xv6_Trap
begin

text \<open>
  The border between user and kernel.  The functions that fetch the arguments of a system call (\<open>syscall.c\<close>)
  accept only addresses below the size of the process, whatever the process passes; returning from a
  signal handler through the system call \<open>sigreturn\<close> restores every register but one.
\<close>

section \<open>Arguments of system calls\<close>

text \<open>The current process is \<open>p\<close>, and user memory ends below the kernel.\<close>

definition user_ok :: "'x ptst_scheme \<Rightarrow> nat \<Rightarrow> bool" where
  "user_ok s p = (curproc s = Some p \<and> p_sz (ptable s p) \<le> KERNBASE)"

lemma no_wrap:
  assumes "sz \<le> KERNBASE" "a < sz" "0 \<le> n" "n \<le> 2 ^ 31" "\<not> a + of_int n > sz"
  shows "unat a + nat n \<le> unat sz"
proof -
  have b: "unat a < 2 ^ 31" using assms(1,2) by (simp add: KERNBASE_def word_le_nat_alt word_less_nat_alt)
  have n: "nat n \<le> 2 ^ 31" using assms(4) by simp
  have "of_int n = (of_nat (nat n) :: u32)" using assms(3) by simp
  moreover have "unat (a + of_nat (nat n)) = unat a + nat n"
    using b n by (simp add: unat_word_ariths unat_of_nat)
  ultimately show ?thesis using assms(5) by (simp add: word_less_nat_alt not_less)
qed

lemma fetchint_safe:
  assumes "user_ok s p" "fetchint a s = (r, t)"
  shows "t = s \<and> (r = Val None \<or> a < p_sz (ptable s p) \<and> unat a + 4 \<le> unat (p_sz (ptable s p)) \<and>
    (case get_bytes (uload (P2V (cr3 s))) (mem s) a 4 of None \<Rightarrow> r = Fault (Kfault a) | Some bs \<Rightarrow> r = Val (Some (word32_at bs 0))))"
  using assms no_wrap [of "p_sz (ptable s p)" a 4]
  by (auto simp: user_ok_def fetchint_def with_cur_def user_get_def kbind_def kget_def kret_def split: option.splits if_splits)

lemma fetchstr_loop_safe:
  assumes "fetchstr_loop n a s = (r, t)" "unat a + n < 2 ^ 32"
  shows "t = s \<and> (r = Val None \<or>
    (\<exists>bs. r = Val (Some bs) \<and> length bs < n \<and> 0 \<notin> set bs \<and> get_bytes (uload (P2V (cr3 s))) (mem s) a (Suc (length bs)) = Some (bs @ [0])) \<or>
    (\<exists>x. r = Fault (Kfault x) \<and> unat a \<le> unat x \<and> unat x < unat a + n))"
  using assms
proof (induction n arbitrary: a r t)
  case 0
  then show ?case by (simp add: kret_def)
next
  case (Suc n)
  show ?case
  proof (cases "uload (P2V (cr3 s)) (mem s) a")
    case None
    then show ?thesis using Suc.prems by (auto simp: user_get_def kbind_def)
  next
    case (Some b)
    show ?thesis
    proof (cases "b = 0")
      case True
      then show ?thesis using Suc.prems Some by (auto simp: user_get_def kbind_def kret_def)
    next
      case False
      obtain r' t' where r': "fetchstr_loop n (a + 1) s = (r', t')" by fastforce
      have a1: "unat (a + 1) = unat a + 1" using Suc.prems(2) by (simp add: unat_word_ariths)
      have e: "(r, t) = kbind (fetchstr_loop n (a + 1)) (\<lambda>x. kret (map_option ((#) b) x)) s"
        using Suc.prems(1) Some False by (simp add: user_get_def kbind_def)
      have "unat (a + 1) + n < 2 ^ 32" using Suc.prems(2) a1 by simp
      from Suc.IH [OF r' this] show ?thesis
      proof (elim conjE disjE exE)
        assume "t' = s" "r' = Val None"
        then show ?thesis using e r' by (simp add: kbind_def kret_def)
      next
        fix bs assume "t' = s" "r' = Val (Some bs)" "length bs < n" "0 \<notin> set bs"
          "get_bytes (uload (P2V (cr3 s))) (mem s) (a + 1) (Suc (length bs)) = Some (bs @ [0])"
        moreover from this have "get_bytes (uload (P2V (cr3 s))) (mem s) a (Suc (length (b # bs))) = Some ((b # bs) @ [0])"
          using get_bytes.simps(2) [of "uload (P2V (cr3 s))" "mem s" a "Suc (length bs)"] Some by simp
        ultimately show ?thesis
          using e r' False by (intro conjI disjI2 disjI1 exI [of _ "b # bs"]) (simp_all add: kbind_def kret_def del: get_bytes.simps(2))
      next
        fix x assume "t' = s" "r' = Fault (Kfault x)" "unat (a + 1) \<le> unat x" "unat x < unat (a + 1) + n"
        then show ?thesis using e r' a1 by (auto simp: kbind_def)
      qed
    qed
  qed
qed


lemma fetchstr_safe:
  assumes "user_ok s p" "fetchstr a s = (r, t)"
  shows "t = s \<and> (r = Val None \<or>
    (\<exists>bs. r = Val (Some bs) \<and> unat a + length bs < unat (p_sz (ptable s p)) \<and> 0 \<notin> set bs \<and>
      get_bytes (uload (P2V (cr3 s))) (mem s) a (Suc (length bs)) = Some (bs @ [0])) \<or>
    (\<exists>x. r = Fault (Kfault x) \<and> x < p_sz (ptable s p)))"
proof (cases "a < p_sz (ptable s p)")
  case True
  then have l: "unat a < unat (p_sz (ptable s p))" by (simp add: word_less_nat_alt)
  have "fetchstr_loop (unat (p_sz (ptable s p)) - unat a) a s = (r, t)"
    using assms True [unfolded not_le [symmetric]] by (auto simp: user_ok_def fetchstr_def with_cur_def kbind_def kget_def)
  moreover have "unat a + (unat (p_sz (ptable s p)) - unat a) < 2 ^ 32" using l unsigned_less [of "p_sz (ptable s p)"] by simp
  ultimately show ?thesis
    using fetchstr_loop_safe [of "unat (p_sz (ptable s p)) - unat a" a s r t] l by (auto simp: word_less_nat_alt)
next
  case False
  then show ?thesis using assms by (auto simp: user_ok_def fetchstr_def with_cur_def kbind_def kget_def kret_def not_less)
qed

lemma argint_safe:
  assumes "user_ok s p" "argint n s = (r, t)"
  shows "t = s \<and> ((\<exists>x. r = Val x) \<or> (\<exists>x. r = Fault (Kfault x) \<and> x < p_sz (ptable s p)))"
proof -
  have "fetchint (tf_esp (p_tf (ptable s p)) + 4 + 4 * of_nat n) s = (r, t)"
    using assms by (simp add: user_ok_def argint_def with_cur_def kbind_def kget_def)
  from fetchint_safe [OF assms(1) this] show ?thesis by (auto split: option.splits)
qed

text \<open>
  C34: whatever a process puts into its registers and on its stack, the kernel checks system call arguments
  against the size of the process.  argptr and argstr change nothing; they fail, or they touch an address below
  the size that is not mapped, or they return: argptr a pointer to a whole block below the size, argstr a
  string without NUL that stands with its NUL in the memory below the size.
\<close>

theorem arguments_stay_in_user_memory:
  assumes "user_ok s p" "sz = p_sz (ptable s p)"
  shows "(\<forall>n size r t. size < 2 ^ 31 \<longrightarrow> argptr n size s = (r, t) \<longrightarrow> t = s \<and>
      (r = Val None \<or> (\<exists>i. r = Val (Some i) \<and> 0 \<le> size \<and> unat i + nat size \<le> unat sz) \<or> (\<exists>x < sz. r = Fault (Kfault x)))) \<and>
    (\<forall>n r t. argstr n s = (r, t) \<longrightarrow> t = s \<and>
      (r = Val None \<or>
       (\<exists>a bs. argint n s = (Val (Some a), s) \<and> r = Val (Some bs) \<and> unat a + length bs < unat sz \<and> 0 \<notin> set bs \<and>
          get_bytes (uload (P2V (cr3 s))) (mem s) a (Suc (length bs)) = Some (bs @ [0])) \<or>
       (\<exists>x < sz. r = Fault (Kfault x))))"
proof ((rule conjI; intro allI impI), goal_cases)
  case (1 n size r t)
  obtain r' t' where a: "argint n s = (r', t')" by fastforce
  then show ?case
    using argint_safe [OF assms(1) a] 1 assms no_wrap [of sz _ size]
    by (auto simp: argptr_def kbind_def with_cur_def kget_def kret_def user_ok_def not_le split: option.splits if_splits)
next
  case (2 n r t)
  obtain r' t' where a: "argint n s = (r', t')" by fastforce
  have t': "t' = s" "(\<exists>x. r' = Val x) \<or> (\<exists>x. r' = Fault (Kfault x) \<and> x < sz)" using argint_safe [OF assms(1) a] assms(2) by auto
  show ?case
  proof (cases "\<exists>x. r' = Val (Some x)")
    case True
    then obtain x where x: "r' = Val (Some x)" by blast
    then have "fetchstr x s = (r, t)" using 2 a t' by (simp add: argstr_def kbind_def)
    from fetchstr_safe [OF assms(1) this] show ?thesis using a t' x assms(2) by auto
  next
    case False
    then show ?thesis using 2 a t' by (auto simp: argstr_def kbind_def kret_def split: option.splits)
  qed
qed

section \<open>Returning from a handler\<close>

text \<open>
  C35: when a process leaves a signal handler through the system call sigreturn (number 24), the kernel restores
  the registers saved in the frame and then stores the result of the call over the restored eax: the
  interrupted program goes on with 0 in eax, whatever it held.
\<close>

theorem sigreturn_syscall_loses_eax:
  assumes "curproc s = Some p" "lock_usable s" "tf_eax (p_tf (ptable s p)) = 24"
    and "get_bytes (uload (P2V (cr3 s))) (mem s) (tf_ebp (p_tf (ptable s p)) + 8) 76 = Some (tf_bytes tf)"
  shows "\<exists>t. syscall s = (Val (), t) \<and> p_tf (ptable t p) = tf\<lparr>tf_eax := 0\<rparr> \<and> (p_tf (ptable t p) = tf \<longleftrightarrow> tf_eax tf = 0)"
proof -
  let ?t = "upd_proc p (\<lambda>q. q\<lparr>p_tf := tf, p_isHandlingsignal := 0\<rparr>) s"
  have r: "sigreturn s = (Val 0, ?t)"
    using sigreturn_eq [OF assms(1,2) refl assms(4)] by (simp add: tf_roundtrip)
  have c: "curproc ?t = Some p" using assms(1) by (simp add: curproc_def upd_proc_def)
  have "sint (tf_eax (p_tf (ptable s p))) = 24" using assms(3) by simp
  then have "syscall s = kbind sigreturn set_eax s"
    using assms(1) by (simp add: syscall_def with_cur_def kbind_def kget_def syscalls_def sys_sigreturn_def)
  also have "\<dots> = set_eax 0 ?t" by (rule kbind_Val [where f = sigreturn, OF r])
  finally have "syscall s = (Val (), upd_proc p (\<lambda>q. q\<lparr>p_tf := (p_tf q)\<lparr>tf_eax := 0\<rparr>\<rparr>) ?t)"
    using c by (simp add: set_eax_def with_cur_def kbind_def kget_def kmod_def)
  moreover have "tf\<lparr>tf_eax := 0\<rparr> = tf \<longleftrightarrow> tf_eax tf = 0" by (metis trapframe.surjective trapframe.update_convs(8) trapframe.select_convs(8))
  ultimately show ?thesis by (simp add: upd_proc_def)
qed


section \<open>An example process\<close>

text \<open>A process in a handler that was entered with 7 in \<open>eax\<close> and now calls \<open>sigreturn\<close>.\<close>

definition call_ex :: "memory \<Rightarrow> u32 \<Rightarrow> u32 \<Rightarrow> tkst" where
  "call_ex m ebp eax = (consst.extend (cons_ex 0)
     \<lparr>sb = sb_of (\<lambda>_. 0), icache = (\<lambda>_. \<lparr>i_dev = 0, i_inum = 0, i_ref = 0, i_flags = 0, i_type = 0, i_major = 0, i_minor = 0,
        i_nlink = 0, i_size = 0, i_addrs = (\<lambda>_. 0)\<rparr>),
      devsw_read = (\<lambda>_. None), devsw_write = (\<lambda>_. None),
      ftable = (\<lambda>_. \<lparr>f_type = FD_NONE, f_ref = 0, f_readable = False, f_writable = False, f_pipe = 0, f_ip = 0, f_off = 0\<rparr>),
      pipes = (\<lambda>_. \<lparr>pi_data = (\<lambda>_. 0), pi_nread = 0, pi_nwrite = 0, pi_readopen = False, pi_writeopen = False\<rparr>),
      ticks = 0, forkret_first = False\<rparr>)
     \<lparr>me := 0, cpus := cpus sig_ex, locks := locks sig_ex, mem := m, cr3 := cr3 sig_ex, cur := cur sig_ex,
      ptable := (ptable sig_ex)(0 := (ptable sig_ex 0)\<lparr>p_tf := tf0\<lparr>tf_eax := eax, tf_ebp := ebp, tf_esp := 0x1800\<rparr>\<rparr>)\<rparr>"

lemma call_ex_simps:
  "curproc (call_ex m b e) = Some 0" "lock_usable (call_ex m b e)" "mem (call_ex m b e) = m" "cr3 (call_ex m b e) = 0x402000"
  "p_tf (ptable (call_ex m b e) 0) = tf0\<lparr>tf_eax := e, tf_ebp := b, tf_esp := 0x1800\<rparr>" "p_sz (ptable (call_ex m b e) 0) = 0x2000"
proof -
  show "lock_usable (call_ex m b e)"
    by (simp add: call_ex_def lock_usable_def can_take_def cpu_sane_def sig_ex_def)
qed (simp_all add: call_ex_def consst.defs curproc_def sig_ex_def pt_ex_def)

theorem arguments_stay_in_user_memory_witness:
  "\<exists>r. argptr 0 (16 :: int) (call_ex um_ex 0 5) = (r, call_ex um_ex 0 5) \<and>
     (r = Val None \<or> (\<exists>i. r = Val (Some i) \<and> unat i + 16 \<le> 0x2000) \<or> (\<exists>x < 0x2000. r = Fault (Kfault x)))"
proof -
  let ?s = "call_ex um_ex 0 5"
  obtain r t where a: "argptr 0 (16 :: int) ?s = (r, t)" by fastforce
  have "user_ok ?s 0" "0x2000 = p_sz (ptable ?s 0)" by (simp_all add: user_ok_def call_ex_simps KERNBASE_def)
  from arguments_stay_in_user_memory [OF this, THEN conjunct1, rule_format, OF _ a] show ?thesis using a by auto
qed

theorem sigreturn_syscall_loses_eax_witness:
  "\<exists>m b t. get_bytes (uload 0x80402000) m (b + 8) 76 = Some (tf_bytes (tf0\<lparr>tf_eax := 7, tf_esp := 0x1800\<rparr>)) \<and>
     syscall (call_ex m b 24) = (Val (), t) \<and> tf_eax (p_tf (ptable t 0)) = 0"
proof -
  let ?w = "replicate 8 0x90 :: u8 list" and ?tf = "tf0\<lparr>tf_eax := 7, tf_esp := 0x1800\<rparr>"
  let ?s = "call_ex um_ex 0 7" and ?b = "frame_sp (replicate 8 0x90) 0x1800"
  have tf: "p_tf (ptable ?s 0) = ?tf" by (simp add: call_ex_simps tf0_def)
  have pg: "0x80402000 = P2V (cr3 ?s)" by (simp add: call_ex_simps P2V_def KERNBASE_def)
  have "stack_room (mem ?s) 0x80402000 (tf_esp ?tf) (length ?w + 88)" using stack_room_ex by (simp add: call_ex_simps)
  from push_frame_ok [OF call_ex_simps(2) tf pg this, of 0]
  obtain m where m: "get_bytes (uload 0x80402000) m ?b (length ?w + 88) = Some (frame_bytes ?w ?tf 0)" by auto
  then have b: "get_bytes (uload 0x80402000) m (?b + 8) 76 = Some (tf_bytes ?tf)" by (rule get_frame_tf)
  let ?s = "call_ex m ?b 24"
  have "get_bytes (uload (P2V (cr3 ?s))) (mem ?s) (tf_ebp (p_tf (ptable ?s 0)) + 8) 76 = Some (tf_bytes ?tf)"
    using b by (simp add: call_ex_simps P2V_def KERNBASE_def)
  moreover have "tf_eax (p_tf (ptable ?s 0)) = 24" by (simp add: call_ex_simps)
  ultimately obtain t where "syscall ?s = (Val (), t)" "p_tf (ptable t 0) = ?tf\<lparr>tf_eax := 0\<rparr>"
    using sigreturn_syscall_loses_eax [OF call_ex_simps(1,2)] by blast
  then show ?thesis using b by (intro exI [of _ m] exI [of _ ?b] exI [of _ t]) simp
qed

end
