(* ===== verification/Xv6_Icache.thy ===== *)
theory Xv6_Icache
  imports Xv6_Fs "HOL-Library.Multiset"
begin

text \<open>
  Names and handles of files.  \<open>skipelem\<close>, called again and again as \<open>namex\<close> does, cuts a path into its
  elements; the inode cache of \<open>iget\<close>, \<open>idup\<close> and \<open>iput\<close> has one entry per file and counts its users.
\<close>

section \<open>Path elements\<close>

text \<open>The elements in the order in which \<open>namex\<close> looks them up.\<close>

function path_elems :: "u8 list \<Rightarrow> u8 list list" where
  "path_elems path = (case skipelem path of None \<Rightarrow> [] | Some (name, rest) \<Rightarrow> name # path_elems rest)"
  by pat_completeness auto
termination
  by (relation "measure length") (auto dest: skipelem_shorter)

declare path_elems.simps [simp del]

text \<open>The specification: the parts between slashes, without the empty ones.\<close>

fun split_at :: "'a \<Rightarrow> 'a list \<Rightarrow> 'a list list" where
  "split_at c [] = [[]]"
| "split_at c (x # xs) = (if x = c then [] # split_at c xs else (x # hd (split_at c xs)) # tl (split_at c xs))"

definition path_parts :: "u8 list \<Rightarrow> u8 list list" where
  "path_parts path = filter (\<lambda>e. e \<noteq> []) (split_at slash path)"

lemma split_at_not_Nil [simp]: "split_at c xs \<noteq> []"
  by (cases xs) auto

lemma split_at_run:
  "c \<notin> set xs \<Longrightarrow> split_at c (xs @ ys) = (xs @ hd (split_at c ys)) # tl (split_at c ys)"
  by (induction xs) auto

lemma path_parts_slashes: "path_parts (dropWhile (\<lambda>c. c = slash) path) = path_parts path"
  by (induction path) (auto simp: path_parts_def)

lemma path_parts_Nil: "path_parts [] = []"
  by (simp add: path_parts_def)

text \<open>One element and what follows.\<close>

lemma path_parts_elem:
  assumes "path \<noteq> []" "hd path \<noteq> slash"
  shows "path_parts path = takeWhile (\<lambda>c. c \<noteq> slash) path # path_parts (dropWhile (\<lambda>c. c \<noteq> slash) path)"
proof -
  let ?e = "takeWhile (\<lambda>c. c \<noteq> slash) path" and ?r = "dropWhile (\<lambda>c. c \<noteq> slash) path"
  have "?e \<noteq> []" using assms by (cases path) auto
  have "split_at slash path = (?e @ hd (split_at slash ?r)) # tl (split_at slash ?r)"
    using split_at_run [of slash ?e ?r] by (auto dest: set_takeWhileD)
  moreover have nil: "hd (split_at slash ?r) = []"
  proof (cases ?r)
    case Nil
    show ?thesis unfolding Nil by simp
  next
    case (Cons x xs)
    then have "x = slash" using hd_dropWhile [of "\<lambda>c. c \<noteq> slash" path] by auto
    then show ?thesis unfolding Cons by simp
  qed
  ultimately have "path_parts path = ?e # filter (\<lambda>e. e \<noteq> []) (tl (split_at slash ?r))"
    using \<open>?e \<noteq> []\<close> by (simp add: path_parts_def)
  moreover have "path_parts ?r = filter (\<lambda>e. e \<noteq> []) (tl (split_at slash ?r))"
    using nil by (cases "split_at slash ?r") (simp_all add: path_parts_def)
  ultimately show ?thesis by simp
qed

text \<open>
  C36: skipelem cuts a path into its elements.  Called until it finds no more, as namex does, it ends and gives
  exactly the parts of the path between slashes in their order, without empty ones, each cut to DIRSIZ bytes;
  the rest it returns never begins with a slash, so that an empty rest means the last element.
\<close>

theorem skipelem_splits_path:
  "path_elems path = map (take DIRSIZ) (path_parts path) \<and>
   (skipelem path = None \<longleftrightarrow> path_parts path = []) \<and>
   (\<forall>name rest. skipelem path = Some (name, rest) \<longrightarrow>
      (rest = [] \<or> hd rest \<noteq> slash) \<and> (rest = [] \<longleftrightarrow> length (path_parts path) = 1) \<and> path_parts path \<noteq> [] \<and>
      name = take DIRSIZ (hd (path_parts path)) \<and> path_parts rest = tl (path_parts path))"
proof -
  have one: "(skipelem p = None \<and> path_parts p = []) \<or>
      (\<exists>e rest. skipelem p = Some (take DIRSIZ e, rest) \<and> path_parts p = e # path_parts rest \<and> (rest = [] \<or> hd rest \<noteq> slash))" for p
  proof (cases "dropWhile (\<lambda>c. c = slash) p = []")
    case True
    have "path_parts p = []" using path_parts_slashes [of p] unfolding True path_parts_Nil ..
    then show ?thesis using True by (simp add: skipelem_def)
  next
    case False
    let ?p = "dropWhile (\<lambda>c. c = slash) p"
    have h: "hd ?p \<noteq> slash" using hd_dropWhile [OF False] by simp
    let ?e = "takeWhile (\<lambda>c. c \<noteq> slash) ?p" and ?r = "dropWhile (\<lambda>c. c = slash) (dropWhile (\<lambda>c. c \<noteq> slash) ?p)"
    have "skipelem p = Some (take DIRSIZ ?e, ?r)" using False by (simp add: skipelem_def Let_def)
    moreover have "path_parts p = ?e # path_parts ?r"
      using path_parts_elem [OF False h] path_parts_slashes by metis
    moreover have "?r = [] \<or> hd ?r \<noteq> slash" using hd_dropWhile [of "\<lambda>c. c = slash"] by blast
    ultimately show ?thesis by blast
  qed
  have empty: "rest = [] \<longleftrightarrow> path_parts rest = []" if "rest = [] \<or> hd rest \<noteq> slash" for rest
    using that path_parts_elem [of rest] by (cases "rest = []") (auto simp: path_parts_Nil)
  have "path_elems path = map (take DIRSIZ) (path_parts path)"
  proof (induction path rule: path_elems.induct)
    case (1 path)
    from one [of path] show ?case
      using 1 by (auto simp: path_elems.simps [of path])
  qed
  then show ?thesis using one [of path] empty by fastforce
qed

theorem skipelem_splits_path_witness:
  "path_elems [slash, 97, slash, slash, 98, 98] = [[97], [98, 98]] \<and> skipelem [slash, 97, slash, slash, 98, 98] = Some ([97], [98, 98])"
  using skipelem_splits_path [of "[slash, 97, slash, slash, 98, 98]"]
  by (simp add: path_parts_def slash_def skipelem_def DIRSIZ_def)


section \<open>The inode cache\<close>

text \<open>The operations as they act on the cache when the lock is free.\<close>

lemma upd_inode_icache [simp]: "icache (upd_inode ip f s) = (icache s)(ip := f (icache s ip))"
  by (simp add: upd_inode_def)

lemma can_take_inode [simp]: "can_take lk (upd_inode ip f s) = can_take lk s"
  by (simp add: can_take_def upd_inode_def)

lemma iget_run:
  assumes "can_take L_icache s"
  shows "iget dev inum s =
    (case iget_scan dev inum (icache s) of
       (Some ip, _) \<Rightarrow> (Val ip, upd_inode ip (\<lambda>q. q\<lparr>i_ref := i_ref q + 1\<rparr>) s)
     | (None, Some ip) \<Rightarrow> (Val ip, upd_inode ip (\<lambda>q. q\<lparr>i_dev := dev, i_inum := inum, i_ref := 1, i_flags := 0\<rparr>) s)
     | (None, None) \<Rightarrow> (Fault (Panic ''iget: no inodes''), grab L_icache s))"
proof -
  have obl: "oblivious (iget_body dev inum)"
    unfolding iget_body_def case_prod_beta by (intro obl) (simp_all add: upd_inode_def)
  obtain hit e where sc: "iget_scan dev inum (icache s) = (hit, e)" by fastforce
  note d = iget_body_def kbind_def kget_def kmod_def kret_def kfail_def sc
  show ?thesis
  proof (cases hit)
    case (Some ip)
    then have "iget_body dev inum s = (Val ip, upd_inode ip (\<lambda>q. q\<lparr>i_ref := i_ref q + 1\<rparr>) s)" by (simp add: d)
    then show ?thesis using with_lock_Val [OF obl assms] Some by (simp add: iget_def sc)
  next
    case None
    show ?thesis
    proof (cases e)
      case (Some ip)
      then have "iget_body dev inum s = (Val ip, upd_inode ip (\<lambda>q. q\<lparr>i_dev := dev, i_inum := inum, i_ref := 1, i_flags := 0\<rparr>) s)"
        using None by (simp add: d)
      then show ?thesis using with_lock_Val [OF obl assms] Some None by (simp add: iget_def sc)
    next
      case e: None
      then have "iget_body dev inum s = (Fault (Panic ''iget: no inodes''), s)" using None by (simp add: d)
      then show ?thesis using with_lock_Fault [OF obl assms] None e by (simp add: iget_def sc)
    qed
  qed
qed

lemma idup_run:
  assumes "can_take L_icache s"
  shows "idup ip s = (Val ip, upd_inode ip (\<lambda>q. q\<lparr>i_ref := i_ref q + 1\<rparr>) s)"
  unfolding idup_def
  by (rule with_lock_Val [OF _ assms], intro obl) (simp_all add: upd_inode_def kbind_def kmod_def kret_def)

lemma iput_run:
  assumes "can_take L_icache s" "i_flags (icache s ip) AND I_VALID = 0 \<or> i_nlink (icache s ip) \<noteq> 0"
  shows "iput ip s = (Val (), upd_inode ip (\<lambda>q. q\<lparr>i_ref := i_ref q - 1\<rparr>) s)"
proof -
  have "iput ip s = with_lock L_icache (kmod (upd_inode ip (\<lambda>q. q\<lparr>i_ref := i_ref q - 1\<rparr>))) s"
    using assms(2) unfolding iput_def with_lock_def acquire_grab [OF assms(1)]
    by (auto simp: kbind_def acquire_grab [OF assms(1)] kget_def kwhen_def kret_def kmod_def grab_def Let_def split: prod.splits outcome.splits)
  also have "\<dots> = (Val (), upd_inode ip (\<lambda>q. q\<lparr>i_ref := i_ref q - 1\<rparr>) s)"
    by (rule with_lock_Val [OF _ assms(1)], intro obl) (simp_all add: upd_inode_def kmod_def)
  finally show ?thesis .
qed

text \<open>
  Users of the cache.  \<open>M\<close> holds the handles that are in use, with their multiplicities.  Other code can
  change anything but the identity and the count of an entry, for instance load the inode from the disk.
\<close>

definition same_ids :: "icst \<Rightarrow> icst \<Rightarrow> bool" where
  "same_ids s t = (\<forall>i. i_dev (icache t i) = i_dev (icache s i) \<and> i_inum (icache t i) = i_inum (icache s i) \<and>
     i_ref (icache t i) = i_ref (icache s i))"

inductive icache_step :: "icst \<times> nat multiset \<Rightarrow> icst \<times> nat multiset \<Rightarrow> bool" where
  get: "can_take L_icache s \<Longrightarrow> iget dev inum s = (Val ip, t) \<Longrightarrow> icache_step (s, M) (t, add_mset ip M)"
| dup: "can_take L_icache s \<Longrightarrow> ip \<in># M \<Longrightarrow> idup ip s = (Val ip, t) \<Longrightarrow> icache_step (s, M) (t, add_mset ip M)"
| put: "can_take L_icache s \<Longrightarrow> ip \<in># M \<Longrightarrow> i_flags (icache s ip) AND I_VALID = 0 \<or> i_nlink (icache s ip) \<noteq> 0 \<Longrightarrow>
    iput ip s = (Val (), t) \<Longrightarrow> icache_step (s, M) (t, M - {#ip#})"
| other: "same_ids s t \<Longrightarrow> icache_step (s, M) (t, M)"

definition icache_inv :: "icst \<times> nat multiset \<Rightarrow> bool" where
  "icache_inv = (\<lambda>(s, M).
     (\<forall>i. if i < NINODE then i_ref (icache s i) = int (count M i) else i \<notin># M) \<and>
     (\<forall>i j. i \<in># M \<longrightarrow> j \<in># M \<longrightarrow> i_dev (icache s i) = i_dev (icache s j) \<longrightarrow> i_inum (icache s i) = i_inum (icache s j) \<longrightarrow> i = j))"

lemma icache_ref: "icache_inv (s, M) \<Longrightarrow> i < NINODE \<Longrightarrow> i_ref (icache s i) > 0 \<longleftrightarrow> i \<in># M"
  unfolding icache_inv_def by (auto simp: count_greater_zero_iff [symmetric] simp del: count_greater_zero_iff)

lemma scan_hit:
  assumes "iget_scan dev inum c = (Some ip, e)"
  shows "ip < NINODE" "i_ref (c ip) > 0" "i_dev (c ip) = dev" "i_inum (c ip) = inum"
  using assms by (auto simp: iget_scan_def find_Some_iff)

lemma scan_miss:
  assumes "iget_scan dev inum c = (None, Some ip)"
  shows "ip < NINODE" "i_ref (c ip) = 0" "\<And>i. i < NINODE \<Longrightarrow> i_ref (c i) > 0 \<Longrightarrow> \<not> (i_dev (c i) = dev \<and> i_inum (c i) = inum)"
  using assms by (auto simp: iget_scan_def find_Some_iff find_None_iff)

lemma icache_invD:
  assumes "icache_inv (s, M)"
  shows "i < NINODE \<Longrightarrow> i_ref (icache s i) = int (count M i)" "i \<in># M \<Longrightarrow> i < NINODE"
    "i \<in># M \<Longrightarrow> j \<in># M \<Longrightarrow> i_dev (icache s i) = i_dev (icache s j) \<Longrightarrow> i_inum (icache s i) = i_inum (icache s j) \<Longrightarrow> i = j"
  using assms unfolding icache_inv_def prod.case by metis+

lemma icache_invI:
  assumes "\<And>i. i < NINODE \<Longrightarrow> i_ref (icache s i) = int (count M i)" "\<And>i. i \<in># M \<Longrightarrow> i < NINODE"
    "\<And>i j. i \<in># M \<Longrightarrow> j \<in># M \<Longrightarrow> i_dev (icache s i) = i_dev (icache s j) \<Longrightarrow> i_inum (icache s i) = i_inum (icache s j) \<Longrightarrow> i = j"
  shows "icache_inv (s, M)"
  using assms unfolding icache_inv_def prod.case by metis

text \<open>A change of the count of one handle in use.\<close>

lemma icache_count:
  assumes inv: "icache_inv (s, M)" and t: "icache t = (icache s)(ip := (icache s ip)\<lparr>i_ref := int (count M' ip)\<rparr>)"
    and M: "\<And>i. i \<noteq> ip \<Longrightarrow> count M' i = count M i" "set_mset M' \<subseteq> set_mset M"
  shows "icache_inv (t, M')"
proof (rule icache_invI)
  have ids: "i_dev (icache t i) = i_dev (icache s i)" "i_inum (icache t i) = i_inum (icache s i)" for i by (simp_all add: t)
  show "i_ref (icache t i) = int (count M' i)" if "i < NINODE" for i
    using icache_invD(1) [OF inv that] M(1) [of i] by (simp add: t)
  show "i < NINODE" if "i \<in># M'" for i using icache_invD(2) [OF inv] M(2) that by blast
  show "i = j" if "i \<in># M'" "j \<in># M'" "i_dev (icache t i) = i_dev (icache t j)" "i_inum (icache t i) = i_inum (icache t j)" for i j
    using icache_invD(3) [OF inv, of i j] M(2) that unfolding ids by blast
qed

lemma iget_keeps:
  assumes inv: "icache_inv (s, M)" and r: "can_take L_icache s" "iget dev inum s = (Val ip, t)"
  shows "icache_inv (t, add_mset ip M) \<and> i_dev (icache t ip) = dev \<and> i_inum (icache t ip) = inum \<and>
    (\<forall>j. j \<in># M \<longrightarrow> i_dev (icache t j) = i_dev (icache s j) \<and> i_inum (icache t j) = i_inum (icache s j))"
proof -
  obtain hit e where sc: "iget_scan dev inum (icache s) = (hit, e)" by fastforce
  show ?thesis
  proof (cases hit)
    case (Some i)
    then have e: "i = ip" "t = upd_inode ip (\<lambda>q. q\<lparr>i_ref := i_ref q + 1\<rparr>) s" using r iget_run [OF r(1)] sc by auto
    note h = scan_hit [OF sc [unfolded Some e(1)]]
    have ip: "ip \<in># M" using icache_ref [OF inv] h by blast
    have "icache_inv (t, add_mset ip M)"
      by (rule icache_count [OF inv]) (use icache_invD(1) [OF inv h(1)] ip e(2) in \<open>auto simp: add.commute\<close>)
    then show ?thesis using h(3,4) e(2) by simp
  next
    case None
    then obtain i where i: "e = Some i" using r iget_run [OF r(1)] sc by (cases e) auto
    then have e: "i = ip" "t = upd_inode ip (\<lambda>q. q\<lparr>i_dev := dev, i_inum := inum, i_ref := 1, i_flags := 0\<rparr>) s"
      using r iget_run [OF r(1)] sc None by auto
    note h = scan_miss [OF sc [unfolded None i e(1)]]
    have n: "ip \<notin># M" using icache_ref [OF inv h(1)] h(2) by simp
    have d: "\<not> (i_dev (icache s j) = dev \<and> i_inum (icache s j) = inum)" if "j \<in># M" for j
      using h(3) icache_ref [OF inv icache_invD(2) [OF inv that]] icache_invD(2) [OF inv that] that by blast
    have t: "icache t j = icache s j" if "j \<in># M" for j using that n e(2) by auto
    have tip: "i_dev (icache t ip) = dev" "i_inum (icache t ip) = inum" "i_ref (icache t ip) = 1" using e(2) by simp_all
    have "icache_inv (t, add_mset ip M)"
    proof (rule icache_invI)
      show "i_ref (icache t j) = int (count (add_mset ip M) j)" if "j < NINODE" for j
        using icache_invD(1) [OF inv that] tip n e(2) by (cases "j = ip") (auto simp: not_in_iff)
      show "j < NINODE" if "j \<in># add_mset ip M" for j using that h(1) icache_invD(2) [OF inv] by auto
      show "j = k" if "j \<in># add_mset ip M" "k \<in># add_mset ip M" "i_dev (icache t j) = i_dev (icache t k)"
          "i_inum (icache t j) = i_inum (icache t k)" for j k
      proof (cases "j = ip"; cases "k = ip")
        assume "j \<noteq> ip" "k \<noteq> ip"
        then have "j \<in># M" "k \<in># M" using that(1,2) by auto
        then show "j = k" using icache_invD(3) [OF inv] that(3,4) t by simp
      next
        assume "j = ip" "k \<noteq> ip"
        then have "k \<in># M" using that(2) by auto
        then show "j = k" using d [of k] that(3,4) t [of k] tip \<open>j = ip\<close> by simp
      next
        assume "j \<noteq> ip" "k = ip"
        then have "j \<in># M" using that(1) by auto
        then show "j = k" using d [of j] that(3,4) t [of j] tip \<open>k = ip\<close> by simp
      qed simp
    qed
    then show ?thesis using t tip by simp
  qed
qed

lemma icache_inv_step: "icache_step x y \<Longrightarrow> icache_inv x \<Longrightarrow> icache_inv y"
proof (induction rule: icache_step.induct)
  case (get s dev inum ip t M)
  then show ?case using iget_keeps by blast
next
  case (dup s ip M t)
  then have t: "t = upd_inode ip (\<lambda>q. q\<lparr>i_ref := i_ref q + 1\<rparr>) s" using idup_run [of s ip] by simp
  show ?case
    by (rule icache_count [OF dup(4)]) (use icache_invD(1) [OF dup(4) icache_invD(2) [OF dup(4,2)]] dup(2) t in \<open>auto simp: add.commute\<close>)
next
  case (put s ip M t)
  then have t: "t = upd_inode ip (\<lambda>q. q\<lparr>i_ref := i_ref q - 1\<rparr>) s" using iput_run [of s ip] by simp
  have "1 \<le> count M ip" using put(2) by (simp add: Suc_le_eq)
  then show ?case
    by (intro icache_count [OF put(5)])
      (use icache_invD(1) [OF put(5) icache_invD(2) [OF put(5,2)]] t in \<open>auto simp: of_nat_diff dest: in_diffD\<close>)
next
  case (other s t M)
  then show ?case unfolding icache_inv_def prod.case same_ids_def by simp
qed

lemma icache_inv_steps: "icache_step\<^sup>*\<^sup>* x y \<Longrightarrow> icache_inv x \<Longrightarrow> icache_inv y"
  by (induction rule: rtranclp_induct) (auto intro: icache_inv_step)

lemma iget_finds:
  assumes inv: "icache_inv (s, M)" and "card (set_mset M) < NINODE"
  shows "\<exists>ip e. iget_scan dev inum (icache s) = (Some ip, e) \<or> iget_scan dev inum (icache s) = (None, Some ip)"
proof -
  have "set_mset M \<subseteq> {..<NINODE}" using icache_invD(2) [OF inv] by auto
  moreover have "set_mset M \<noteq> {..<NINODE}" using assms(2) card_lessThan [of NINODE] by (metis less_irrefl)
  ultimately obtain i where i: "i < NINODE" "i \<notin># M" by blast
  then have "i_ref (icache s i) = 0" using icache_invD(1) [OF inv i(1)] by (simp add: not_in_iff)
  then have "find (\<lambda>i. i_ref (icache s i) = 0) [0..<NINODE] \<noteq> None" using i(1) unfolding find_None_iff by (auto intro: exI [of _ i])
  then obtain k where "find (\<lambda>i. i_ref (icache s i) = 0) [0..<NINODE] = Some k" by blast
  then show ?thesis
    by (cases "find (\<lambda>i. i_ref (icache s i) > 0 \<and> i_dev (icache s i) = dev \<and> i_inum (icache s i) = inum) [0..<NINODE]")
      (simp_all add: iget_scan_def)
qed

text \<open>
  C37: the inode cache has one entry per file in use and counts its users.  Starting from an empty cache, after
  any sequence of iget, idup, iput of files that keep a link, and other work on the entries: two handles in use
  with the same device and inode number are the same entry, and the count of an entry is the number of its
  handles.  While fewer than NINODE entries are in use iget returns an entry for the file asked for and
  disturbs no handle in use.
\<close>

theorem icache_one_entry_per_file:
  assumes "\<forall>i. i_ref (icache s i) = 0" and "icache_step\<^sup>*\<^sup>* (s, {#}) (t, M)"
  shows "(\<forall>i j. i \<in># M \<and> j \<in># M \<and> i_dev (icache t i) = i_dev (icache t j) \<and> i_inum (icache t i) = i_inum (icache t j) \<longrightarrow> i = j) \<and>
    (\<forall>i < NINODE. i_ref (icache t i) = int (count M i)) \<and>
    (can_take L_icache t \<and> card (set_mset M) < NINODE \<longrightarrow>
      (\<exists>ip u. iget dev inum t = (Val ip, u) \<and> i_dev (icache u ip) = dev \<and> i_inum (icache u ip) = inum \<and>
         (\<forall>j. j \<in># M \<longrightarrow> i_dev (icache u j) = i_dev (icache t j) \<and> i_inum (icache u j) = i_inum (icache t j))))"
proof -
  have "icache_inv (s, {#})" using assms(1) by (simp add: icache_inv_def)
  then have inv: "icache_inv (t, M)" using icache_inv_steps [OF assms(2)] by simp
  have "\<exists>ip u. iget dev inum t = (Val ip, u) \<and> i_dev (icache u ip) = dev \<and> i_inum (icache u ip) = inum \<and>
         (\<forall>j. j \<in># M \<longrightarrow> i_dev (icache u j) = i_dev (icache t j) \<and> i_inum (icache u j) = i_inum (icache t j))"
    if c: "can_take L_icache t" "card (set_mset M) < NINODE"
  proof -
    obtain ip u where "iget dev inum t = (Val ip, u)"
      using iget_finds [OF inv c(2), of dev inum] iget_run [OF c(1), of dev inum] by auto
    then show ?thesis using iget_keeps [OF inv c(1)] by blast
  qed
  then show ?thesis using icache_invD [OF inv] by blast
qed


text \<open>An empty cache, and one file opened twice.\<close>

definition icache_ex :: icst where
  "icache_ex = consst.extend (cons_ex 0)
     \<lparr>sb = sb_of (\<lambda>_. 0), icache = (\<lambda>_. \<lparr>i_dev = 0, i_inum = 0, i_ref = 0, i_flags = 0, i_type = 0, i_major = 0, i_minor = 0,
        i_nlink = 0, i_size = 0, i_addrs = (\<lambda>_. 0)\<rparr>),
      devsw_read = (\<lambda>_. None), devsw_write = (\<lambda>_. None)\<rparr>"

lemma icache_ex_simps: "i_ref (icache icache_ex i) = 0" "can_take L_icache icache_ex"
proof -
  show "can_take L_icache icache_ex"
    using cons_ex_simps(3) [of L_icache 0] by (simp add: icache_ex_def consst.defs can_take_def)
qed (simp add: icache_ex_def consst.defs)

theorem icache_one_entry_per_file_witness:
  "\<exists>ip t u. iget 1 5 icache_ex = (Val ip, t) \<and> icache_step\<^sup>*\<^sup>* (icache_ex, {#}) (t, {#ip#}) \<and>
     iget 1 5 t = (Val ip, u) \<and> i_ref (icache t ip) = 1"
proof -
  have z: "\<forall>i. i_ref (icache icache_ex i) = 0" by (simp add: icache_ex_simps)
  note empty = icache_one_entry_per_file [OF z rtranclp.rtrancl_refl, of 1 5]
  obtain ip t where t: "iget 1 5 icache_ex = (Val ip, t)" "i_dev (icache t ip) = 1" "i_inum (icache t ip) = 5"
    using empty icache_ex_simps(2) by (auto simp: param_defs)
  have s1: "icache_step (icache_ex, {#}) (t, {#ip#})" by (rule icache_step.get [OF icache_ex_simps(2) t(1)])
  then have st: "icache_step\<^sup>*\<^sup>* (icache_ex, {#}) (t, {#ip#})" by blast
  have ct: "can_take L_icache t"
    using t(1) icache_ex_simps(2) iget_run [OF icache_ex_simps(2), of 1 5] by (auto split: prod.splits option.splits)
  note one = icache_one_entry_per_file [OF z st, of 1 5]
  obtain ip' u where u: "iget 1 5 t = (Val ip', u)" "i_dev (icache u ip') = 1" "i_inum (icache u ip') = 5"
    "i_dev (icache u ip) = i_dev (icache t ip)" "i_inum (icache u ip) = i_inum (icache t ip)"
    using one ct by (auto simp: param_defs)
  have "icache_step (t, {#ip#}) (u, {#ip', ip#})" by (rule icache_step.get [OF ct u(1)])
  then have "icache_step\<^sup>*\<^sup>* (icache_ex, {#}) (u, {#ip', ip#})" using st by auto
  note two = conjunct1 [OF icache_one_entry_per_file [OF z this, of 1 5], THEN spec, THEN spec, THEN mp]
  have "ip' = ip" by (rule two) (simp add: u t)
  moreover have "ip < NINODE" using t(1) iget_run [OF icache_ex_simps(2), of 1 5] scan_hit(1) scan_miss(1)
    by (auto split: prod.splits option.splits)
  moreover from this have "i_ref (icache t ip) = 1" using one [THEN conjunct2, THEN conjunct1] by simp
  ultimately show ?thesis using t(1) u(1) st by blast
qed

end
