(* ===== verification/Xv6_Balloc.thy ===== *)
theory Xv6_Balloc
  imports Xv6_Content
begin

text \<open>
  The block allocator.  The bitmap, seen through the buffer cache, says which blocks are free; \<open>balloc\<close> takes
  the first free one and \<open>bfree\<close> gives a block back.
\<close>

section \<open>The bitmap\<close>

definition block_free :: "superblock \<Rightarrow> disk \<Rightarrow> nat \<Rightarrow> bool" where
  "block_free q D b = bfree_bit (D (unat (BBLOCK (of_nat b) q))) (b mod BPB)"

lemma bfree_bit_iff: "bfree_bit d i \<longleftrightarrow> \<not> bit (d (i div 8)) (i mod 8)"
proof -
  have "i mod 8 < 8" by simp
  then show ?thesis
    by (simp add: bfree_bit_def bmask_def bit_iff_and_push_bit_not_eq_0)
qed

lemma bit_bmask: "j < 8 \<Longrightarrow> bit (bmask i) j \<longleftrightarrow> j = i mod 8"
  by (auto simp: bmask_def bit_simps)

lemma same_bit: "i div 8 = j div 8 \<Longrightarrow> i mod 8 = j mod 8 \<Longrightarrow> i = j" for i j :: nat
  by (metis div_mult_mod_eq)

lemma bfree_bit_set: "bfree_bit (d(i div 8 := d (i div 8) OR bmask i)) j \<longleftrightarrow> bfree_bit d j \<and> j \<noteq> i"
proof -
  have j: "j mod 8 < 8" by simp
  show ?thesis
    unfolding bfree_bit_iff using same_bit [of j i] by (auto simp: bit_or_iff bit_bmask [OF j])
qed

lemma bfree_bit_clear: "bfree_bit (d(i div 8 := d (i div 8) AND NOT (bmask i))) j \<longleftrightarrow> bfree_bit d j \<or> j = i"
proof -
  have j: "j mod 8 < 8" by simp
  show ?thesis
    unfolding bfree_bit_iff using same_bit [of j i] j by (auto simp: bit_and_iff bit_not_iff bit_bmask [OF j])
qed

lemma BPB_pos: "0 < BPB"
  by (simp add: BPB_def BSIZE_def)

lemma BBLOCK_same:
  assumes "b < 2 ^ 32" "k * BPB \<le> b" "b < k * BPB + BPB"
  shows "BBLOCK (of_nat b) q = BBLOCK (of_nat (k * BPB)) q"
proof -
  have k: "k * BPB < 2 ^ 32" using assms(1,2) by linarith
  have dv: "(of_nat x :: u32) div of_nat BPB = of_nat (x div BPB)" if "x < 2 ^ 32" for x
    using that by (intro word_unat_eq_iff [THEN iffD2])
      (simp add: unat_div unat_of_nat BPB_def BSIZE_def div_le_dividend le_less_trans)
  have "b div BPB = k" using assms(2,3) by (intro div_nat_eqI) (simp_all add: mult.commute)
  then show ?thesis using BPB_pos unfolding BBLOCK_def dv [OF assms(1)] dv [OF k] by simp
qed


section \<open>Allocation\<close>

text \<open>The bitmap blocks are on the disk and apart from the log; free blocks are neither in the log nor in the bitmap.\<close>

definition bitmap_ok :: "'x icst_scheme \<Rightarrow> nat \<Rightarrow> bool" where
  "bitmap_ok s start =
     (unat (sb_size (sb s)) \<le> disksize s \<and>
      (\<forall>b < unat (sb_size (sb s)). unat (BBLOCK (of_nat b) (sb s)) \<notin> log_area start \<and> unat (BBLOCK (of_nat b) (sb s)) < disksize s \<and>
        (block_free (sb s) (av (ablk_of s)) b \<longrightarrow> b \<notin> log_area start \<and>
          (\<forall>b' < unat (sb_size (sb s)). b \<noteq> unat (BBLOCK (of_nat b') (sb s))))))"

definition first_free :: "superblock \<Rightarrow> disk \<Rightarrow> nat \<Rightarrow> nat \<Rightarrow> bool" where
  "first_free q D lo b = (lo \<le> b \<and> b < unat (sb_size q) \<and> block_free q D b \<and> (\<forall>b'. lo \<le> b' \<and> b' < b \<longrightarrow> \<not> block_free q D b'))"

text \<open>What \<open>balloc\<close> does to the disk for the block \<open>b\<close>.\<close>

definition taken :: "superblock \<Rightarrow> nat \<Rightarrow> disk \<Rightarrow> disk" where
  "taken q b D =
     (let B = unat (BBLOCK (of_nat b) q); i = b mod BPB in
      (D(B := (D B)(i div 8 := D B (i div 8) OR bmask i)))(b := zero_bytes 0 BSIZE (D b)))"

lemma bread_known:
  assumes "in_trans s start bns" "unat bn < disksize s"
  shows "\<exists>b t. bread 1 bn s = (Val b, t) \<and> b_data (bufs t b) = av (ablk_of s) (unat bn) \<and>
    (\<exists>u. brelse b t = (Val (), u) \<and> same_view s u) \<and> sb t = sb s"
proof -
  have "wp (bread 1 bn) (\<lambda>b t. b_data (bufs t b) = av (ablk_of s) (unat bn) \<and>
      (\<exists>u. brelse b t = (Val (), u) \<and> same_view s u) \<and> sb t = sb s) (\<lambda>_ _. False) s"
  proof (rule wp_peek [OF in_trans_read [OF assms(1)] assms(2)], goal_cases)
    case (1 b t)
    have "wp (brelse b) (\<lambda>_ u. same_view s u) (\<lambda>_ _. False) t" by (rule 1(4))
    then have "\<exists>u. brelse b t = (Val (), u) \<and> same_view s u" by (auto simp: wp_returns)
    then show ?case using 1(3) bframe_fs [OF 1(2)] by simp
  qed
  then show ?thesis by (auto simp: wp_returns)
qed

lemma u32_bound: "unat w < 2 ^ 32" for w :: u32
  using unsigned_less [where 'a = nat, of w] by simp

lemma bitmap_index:
  assumes "i < BPB" "j * BPB + i < unat (sb_size q)"
  shows "BBLOCK (of_nat (j * BPB + i)) q = BBLOCK (of_nat (j * BPB)) q"
    "block_free q D (j * BPB + i) = bfree_bit (D (unat (BBLOCK (of_nat (j * BPB)) q))) i"
proof -
  have "j * BPB + i < 2 ^ 32" using assms(2) u32_bound [of "sb_size q"] by simp
  then show e: "BBLOCK (of_nat (j * BPB + i)) q = BBLOCK (of_nat (j * BPB)) q" using assms(1) by (intro BBLOCK_same) simp_all
  show "block_free q D (j * BPB + i) = bfree_bit (D (unat (BBLOCK (of_nat (j * BPB)) q))) i"
    using assms(1) unfolding block_free_def e by simp
qed

text \<open>The bits of one block of the bitmap, scanned for the first free one.\<close>

lemma scan_block:
  assumes f: "first_free q D (j * BPB) b"
  shows "case find (bfree_bit (D (unat (BBLOCK (of_nat (j * BPB)) q)))) [0..<min BPB (unat (sb_size q) - j * BPB)] of
      Some i \<Rightarrow> i < BPB \<and> b = j * BPB + i
    | None \<Rightarrow> first_free q D (Suc j * BPB) b"
proof -
  let ?n = "min BPB (unat (sb_size q) - j * BPB)" and ?P = "bfree_bit (D (unat (BBLOCK (of_nat (j * BPB)) q)))"
  have b: "j * BPB \<le> b" "b < unat (sb_size q)" "block_free q D b" "\<And>b'. j * BPB \<le> b' \<Longrightarrow> b' < b \<Longrightarrow> \<not> block_free q D b'"
    using f by (auto simp: first_free_def)
  have ix: "?P i \<longleftrightarrow> block_free q D (j * BPB + i)" if "i < ?n" for i
  proof -
    have "i < BPB" "j * BPB + i < unat (sb_size q)" using that by linarith+
    then show ?thesis using bitmap_index(2) by blast
  qed
  show ?thesis
  proof (cases "find ?P [0..<?n]")
    case None
    then have none: "\<not> ?P i" if "i < ?n" for i using that by (simp add: find_None_iff)
    have "j * BPB + BPB \<le> b"
    proof (rule ccontr)
      assume "\<not> j * BPB + BPB \<le> b"
      then have "b - j * BPB < ?n" using b(1,2) by linarith
      then show False using none ix [of "b - j * BPB"] b(1,3) by simp
    qed
    then show ?thesis using None b by (simp add: first_free_def add.commute)
  next
    case (Some i)
    then have i: "i < ?n" "?P i" "\<And>k. k < i \<Longrightarrow> \<not> ?P k" by (auto simp: find_Some_iff)
    have "\<not> j * BPB + i < b" using b(4) [of "j * BPB + i"] ix [OF i(1)] i(2) by auto
    moreover have "\<not> b < j * BPB + i"
    proof
      assume "b < j * BPB + i"
      then have "b - j * BPB < i" using b(1) by simp
      then show False using i(3) [of "b - j * BPB"] i(1) ix [of "b - j * BPB"] b(1,3) by simp
    qed
    ultimately show ?thesis using Some i(1) by simp
  qed
qed

lemma lframe_room: "lframe s t \<Longrightarrow> room_for t n = room_for s n" "lframe s t \<Longrightarrow> disksize t = disksize s"
  using lframe_keeps [of s t] by (simp_all add: room_for_def)

lemma room_for_mono: "room_for s n \<Longrightarrow> k \<le> n \<Longrightarrow> room_for s k"
  by (auto simp: room_for_def)

lemma bzero_update: "bzero 1 b = update_block (b, zero_bytes 0 BSIZE)"
  by (simp add: bzero_def update_block_def)

lemma wp_take:
  assumes tr: "in_trans s start bns" and ok: "bitmap_ok s start" and room: "room_for s (Suc (length bns))"
    and b: "b < unat (sb_size (sb s))" "block_free (sb s) (av (ablk_of s)) b"
    and Q: "\<And>t bns'. in_trans t start bns' \<Longrightarrow> lframe s t \<Longrightarrow> av (ablk_of t) = taken (sb s) b (av (ablk_of s)) \<Longrightarrow> Q (of_nat b) t"
  shows "wp (kthen (update_block (BBLOCK (of_nat b) (sb s), \<lambda>d. d(b mod BPB div 8 := d (b mod BPB div 8) OR bmask (b mod BPB))))
     (kthen (bzero 1 (of_nat b)) (kret (of_nat b :: u32)))) Q E s"
  unfolding wp_simps
proof (rule wp_update_block [OF tr], goal_cases)
  case 1 show ?case using ok b(1) by (simp add: bitmap_ok_def)
next
  case 2 show ?case using ok b(1) by (simp add: bitmap_ok_def)
next
  case 3 show ?case using room by (rule room_for_mono) simp
next
  case (4 t)
  let ?B = "unat (BBLOCK (of_nat b) (sb s))"
  have ub: "unat (of_nat b :: u32) = b" using b(1) u32_bound [of "sb_size (sb s)"] by (simp add: unat_of_nat)
  have nb: "b \<notin> log_area start" "b \<noteq> ?B" "b < disksize s" using ok b by (auto simp: bitmap_ok_def)
  show ?case
    unfolding bzero_update
  proof (rule wp_update_block [OF 4(1)], goal_cases)
    case 1 show ?case using nb ub by simp
  next
    case 2 show ?case using nb ub lframe_room(2) [OF 4(2)] by simp
  next
    case 3 show ?case using room lframe_room(1) [OF 4(2)] log_absorb_length room_for_mono by fastforce
  next
    case (4 u)
    then show ?case
      using Q [OF 4(1) lframe_trans [OF \<open>lframe s t\<close> 4(2)]] nb ub \<open>ablk_of t = _\<close> by (simp add: taken_def Let_def wp_simps)
  qed
qed


lemma blocks_left: "j * d < n \<Longrightarrow> 0 < d \<Longrightarrow> j < (n + d - 1) div d" for j d n :: nat
proof -
  assume "j * d < n" "0 < d"
  then have "Suc j * d \<le> n + d - 1" by simp
  then show ?thesis using \<open>0 < d\<close> by (simp add: less_eq_div_iff_mult_less_eq Suc_le_eq [symmetric])
qed

lemma wp_balloc_loop:
  assumes "in_trans s start bns" "bitmap_ok s start" "room_for s (Suc (length bns))"
    and "first_free (sb s) (av (ablk_of s)) (j * BPB) b" "m = (unat (sb_size (sb s)) + BPB - 1) div BPB"
    and "\<And>t bns'. in_trans t start bns' \<Longrightarrow> lframe s t \<Longrightarrow> av (ablk_of t) = taken (sb s) b (av (ablk_of s)) \<Longrightarrow> Q (of_nat b) t"
  shows "wp (balloc_loop 1 (map (\<lambda>k. k * BPB) [j..<m])) Q E s"
  using assms
proof (induction "m - j" arbitrary: j s)
  case 0
  then have "j * BPB < unat (sb_size (sb s))" by (auto simp: first_free_def)
  then show ?case using blocks_left [OF _ BPB_pos] 0 by fastforce
next
  case (Suc x)
  let ?bn = "BBLOCK (of_nat (j * BPB)) (sb s)" and ?D = "av (ablk_of s)"
  let ?r = "find (bfree_bit (?D (unat ?bn))) [0..<min BPB (unat (sb_size (sb s)) - j * BPB)]"
  have base: "j * BPB < unat (sb_size (sb s))" using Suc.prems(4) by (auto simp: first_free_def)
  then have bn: "unat ?bn < disksize s" using Suc.prems(2) unfolding bitmap_ok_def by blast
  obtain bp t where t: "bread 1 ?bn s = (Val bp, t)" "b_data (bufs t bp) = ?D (unat ?bn)" "sb t = sb s"
    and rel: "\<exists>u. brelse bp t = (Val (), u) \<and> same_view s u" using bread_known [OF Suc.prems(1) bn] by blast
  have list: "map (\<lambda>k. k * BPB) [j..<m] = j * BPB # map (\<lambda>k. k * BPB) [Suc j..<m]"
    using Suc.hyps(2) by (simp add: upt_conv_Cons)
  show ?case
  proof (cases ?r)
    case None
    obtain u where u: "brelse bp t = (Val (), u)" "same_view s u" using rel by blast
    have "balloc_loop 1 (map (\<lambda>k. k * BPB) [j..<m]) s = balloc_loop 1 (map (\<lambda>k. k * BPB) [Suc j..<m]) u"
      using t(1,2) u(1) None unfolding list balloc_loop.simps by (simp add: kbind_def kget_def)
    moreover have fr: "bframe s u" and a: "ablk_of u = ablk_of s" using u(2) by (simp_all add: same_view_def)
    have sbu: "sb u = sb s" using bframe_fs [OF fr] by simp
    note v = in_trans_view [OF Suc.prems(1) u(2)]
    have "wp (balloc_loop 1 (map (\<lambda>k. k * BPB) [Suc j..<m])) Q E u"
    proof (rule Suc.hyps(1), goal_cases)
      case 1 show ?case using Suc.hyps(2) by simp
    next
      case 2 show ?case by (rule v(1))
    next
      case 3 show ?case using Suc.prems(2) unfolding bitmap_ok_def sbu a v(3) .
    next
      case 4 show ?case using Suc.prems(3) v(2) by simp
    next
      case 5 show ?case using scan_block [OF Suc.prems(4)] None unfolding sbu a by simp
    next
      case 6 show ?case unfolding sbu by (rule Suc.prems(5))
    next
      case (7 t bns') show ?case using 7 lframe_trans [OF lframe_bframe [OF fr]] unfolding sbu a by (intro Suc.prems(6)) simp_all
    qed
    ultimately show ?thesis unfolding wp_def by simp
  next
    case (Some i)
    have i: "i < BPB" "b = j * BPB + i" using scan_block [OF Suc.prems(4)] Some by simp_all
    have b: "b < unat (sb_size (sb s))" "block_free (sb s) ?D b" using Suc.prems(4) by (auto simp: first_free_def)
    have bb: "BBLOCK (of_nat b) (sb s) = ?bn" "b mod BPB = i" using bitmap_index(1) [of i j] i b(1) by simp_all
    let ?take = "kthen (update_block (?bn, \<lambda>d. d(i div 8 := d (i div 8) OR bmask i))) (kthen (bzero 1 (of_nat b)) (kret (of_nat b)))"
    have "balloc_loop 1 (map (\<lambda>k. k * BPB) [j..<m]) s = ?take s"
      using t(1,2) Some i(2) unfolding list balloc_loop.simps update_block_def by (simp add: kbind_def kget_def split: outcome.splits prod.splits)
    moreover have "wp ?take Q E s"
      by (rule wp_take [OF Suc.prems(1-3) b, unfolded bb]) (erule Suc.prems(6); assumption)
    ultimately show ?thesis unfolding wp_def by simp
  qed
qed


lemma BBLOCK_inj:
  assumes "b < 2 ^ 32" "c < 2 ^ 32" "BBLOCK (of_nat b) q = BBLOCK (of_nat c) q" "b mod BPB = c mod BPB"
  shows "b = c"
proof -
  have "(of_nat b :: u32) div of_nat BPB = of_nat c div of_nat BPB" using assms(3) by (simp add: BBLOCK_def)
  then have "unat ((of_nat b :: u32) div of_nat BPB) = unat ((of_nat c :: u32) div of_nat BPB)" by simp
  then have "b div BPB = c div BPB" using assms(1,2) by (simp add: unat_div unat_of_nat BPB_def BSIZE_def)
  then show ?thesis using assms(4) by (metis div_mult_mod_eq)
qed

lemma BBLOCK_unat_inj:
  assumes "b < unat (sb_size q)" "c < unat (sb_size q)" "unat (BBLOCK (of_nat b) q) = unat (BBLOCK (of_nat c) q)" "b mod BPB = c mod BPB"
  shows "b = c"
  using assms u32_bound [of "sb_size q"] by (intro BBLOCK_inj [of b c q]) (simp_all add: word_unat_eq_iff)

lemma taken_free:
  assumes "b < unat (sb_size q)" "c < unat (sb_size q)" "b \<noteq> unat (BBLOCK (of_nat c) q)"
  shows "block_free q (taken q b D) c \<longleftrightarrow> block_free q D c \<and> c \<noteq> b"
proof (cases "unat (BBLOCK (of_nat c) q) = unat (BBLOCK (of_nat b) q)")
  case True
  then have "c mod BPB = b mod BPB \<longleftrightarrow> c = b" using BBLOCK_unat_inj [OF assms(2,1)] by blast
  moreover have "taken q b D (unat (BBLOCK (of_nat c) q)) =
      (D (unat (BBLOCK (of_nat b) q)))(b mod BPB div 8 := D (unat (BBLOCK (of_nat b) q)) (b mod BPB div 8) OR bmask (b mod BPB))"
    using assms(3) True by (simp add: taken_def Let_def)
  ultimately show ?thesis unfolding block_free_def using True by (simp add: bfree_bit_set)
next
  case False
  then show ?thesis using assms(3) by (auto simp: block_free_def taken_def Let_def)
qed

lemma balloc_first:
  assumes tr: "in_trans s start bns" and ok: "bitmap_ok s start" and room: "room_for s (Suc (length bns))"
    and f: "first_free (sb s) (av (ablk_of s)) 0 b"
  shows "\<exists>t. balloc 1 s = (Val (of_nat b), t) \<and> av (ablk_of t) = taken (sb s) b (av (ablk_of s))"
proof -
  have "wp (balloc_loop 1 (map (\<lambda>k. k * BPB) [0..<(unat (sb_size (sb s)) + BPB - 1) div BPB]))
      (\<lambda>r t. r = of_nat b \<and> av (ablk_of t) = taken (sb s) b (av (ablk_of s))) (\<lambda>_ _. False) s"
    by (rule wp_balloc_loop [OF tr ok room _ refl]) (use f in simp_all)
  then show ?thesis by (auto simp: wp_returns balloc_def kbind_def kget_def)
qed

lemma first_free_exists:
  assumes "b < unat (sb_size q)" "block_free q D b"
  shows "\<exists>b. first_free q D 0 b"
proof -
  let ?b = "LEAST b. block_free q D b"
  have "block_free q D ?b" "?b \<le> b" using assms(2) by (auto intro: LeastI Least_le)
  then show ?thesis using assms(1) not_less_Least unfolding first_free_def by (intro exI [of _ ?b]) auto
qed

section \<open>Giving a block back\<close>

definition released :: "superblock \<Rightarrow> nat \<Rightarrow> disk \<Rightarrow> disk" where
  "released q b D =
     (let B = unat (BBLOCK (of_nat b) q); i = b mod BPB in D(B := (D B)(i div 8 := D B (i div 8) AND NOT (bmask i))))"

lemma released_free:
  assumes "b < unat (sb_size q)" "c < unat (sb_size q)"
  shows "block_free q (released q b D) c \<longleftrightarrow> block_free q D c \<or> c = b"
proof (cases "unat (BBLOCK (of_nat c) q) = unat (BBLOCK (of_nat b) q)")
  case True
  then have "c mod BPB = b mod BPB \<longleftrightarrow> c = b" using BBLOCK_unat_inj [OF assms(2,1)] by blast
  then show ?thesis unfolding block_free_def released_def Let_def using True by (simp add: bfree_bit_clear)
next
  case False
  then show ?thesis by (auto simp: block_free_def released_def Let_def)
qed


lemma bfree_run:
  assumes tr: "in_trans s start bns" and ok: "bitmap_ok s start" and room: "room_for s (length bns)"
    and q: "1 < disksize s" "sb_of (av (ablk_of s) 1) = sb s" and b: "b < unat (sb_size (sb s))"
  shows "if block_free (sb s) (av (ablk_of s)) b then fst (bfree 1 (of_nat b) s) = Fault (Panic ''freeing free block'')
    else \<exists>t. bfree 1 (of_nat b) s = (Val (), t) \<and> av (ablk_of t) = released (sb s) b (av (ablk_of s))"
proof -
  let ?D = "av (ablk_of s)" and ?bn = "BBLOCK (of_nat b) (sb s)" and ?i = "b mod BPB"
  obtain b1 t1 u where r1: "bread 1 1 s = (Val b1, t1)" "b_data (bufs t1 b1) = ?D 1" "brelse b1 t1 = (Val (), u)" and v: "same_view s u"
    using bread_known [OF tr, of 1] q(1) by auto
  have sb: "readsb 1 s = (Val (sb s), u)" using r1 q(2) by (simp add: readsb_def kbind_def kget_def kret_def)
  have fr: "bframe s u" and a: "ablk_of u = ablk_of s" using v by (simp_all add: same_view_def)
  have sbu: "sb u = sb s" "u\<lparr>sb := sb s\<rparr> = u" using bframe_fs [OF fr] by simp_all
  note w = in_trans_view [OF tr v]
  have bn: "unat ?bn < disksize u" "unat ?bn \<notin> log_area start" using ok b w(3) by (simp_all add: bitmap_ok_def)
  obtain bp t where t: "bread 1 ?bn u = (Val bp, t)" "b_data (bufs t bp) = ?D (unat ?bn)"
    using bread_known [OF w(1) bn(1)] a by auto
  have ub: "unat (of_nat b :: u32) = b" using b u32_bound [of "sb_size (sb s)"] by (simp add: unat_of_nat)
  note e = bfree_def sb kbind_def kget_def kmod_def sbu t ub Let_def
  show ?thesis
  proof (cases "block_free (sb s) ?D b")
    case True
    then show ?thesis by (simp add: e block_free_def kfail_def)
  next
    case False
    let ?u = "(?bn, \<lambda>d. d(?i div 8 := d (?i div 8) AND NOT (bmask ?i)))"
    have "bfree 1 (of_nat b) s = update_block ?u u"
      using False by (simp add: e block_free_def update_block_def)
    moreover have "wp (update_block ?u) (\<lambda>_ t. av (ablk_of t) = released (sb s) b ?D) (\<lambda>_ _. False) u"
      by (rule wp_update_block [OF w(1)]) (use bn room w(2) a in \<open>simp_all add: released_def Let_def\<close>)
    ultimately show ?thesis using False by (auto simp: wp_returns)
  qed
qed

text \<open>
  C39: the block allocator.  Inside a transaction balloc returns the first free block, marks exactly this block as
  used in the bitmap, fills it with zeros and changes no other block; it ends also when the bitmap has several
  blocks.  bfree marks exactly the given block as free again, and panics when it was free.
\<close>

theorem balloc_bfree_correct:
  assumes "in_trans s start bns" "bitmap_ok s start" "room_for s (Suc (length bns))"
    and "n = unat (sb_size (sb s))" "D = av (ablk_of s)"
  shows "((\<exists>b < n. block_free (sb s) D b) \<longrightarrow>
      (\<exists>b t. balloc 1 s = (Val (of_nat b), t) \<and> first_free (sb s) D 0 b \<and>
        (\<forall>c < n. block_free (sb s) (av (ablk_of t)) c \<longleftrightarrow> block_free (sb s) D c \<and> c \<noteq> b) \<and>
        (\<forall>i < BSIZE. av (ablk_of t) b i = 0) \<and>
        (\<forall>x. x \<noteq> b \<and> x \<noteq> unat (BBLOCK (of_nat b) (sb s)) \<longrightarrow> av (ablk_of t) x = D x))) \<and>
    (\<forall>b < n. 1 < disksize s \<and> sb_of (D 1) = sb s \<longrightarrow>
      (if block_free (sb s) D b then fst (bfree 1 (of_nat b) s) = Fault (Panic ''freeing free block'')
       else \<exists>t. bfree 1 (of_nat b) s = (Val (), t) \<and>
         (\<forall>c < n. block_free (sb s) (av (ablk_of t)) c \<longleftrightarrow> block_free (sb s) D c \<or> c = b) \<and>
         (\<forall>x. x \<noteq> unat (BBLOCK (of_nat b) (sb s)) \<longrightarrow> av (ablk_of t) x = D x)))"
proof ((rule conjI; intro allI impI), goal_cases)
  case 1
  then obtain b where f: "first_free (sb s) D 0 b" using first_free_exists assms(4) by blast
  have b: "b < n" "block_free (sb s) D b" using f assms(4) by (auto simp: first_free_def)
  obtain t where t: "balloc 1 s = (Val (of_nat b), t)" "av (ablk_of t) = taken (sb s) b D"
    using balloc_first [OF assms(1-3)] f assms(5) by blast
  have apart: "b \<noteq> unat (BBLOCK (of_nat c) (sb s))" if "c < n" for c
    using assms(2,4,5) b that unfolding bitmap_ok_def by blast
  show ?case
  proof (intro exI [of _ b] exI [of _ t] conjI allI impI)
    show "block_free (sb s) (av (ablk_of t)) c \<longleftrightarrow> block_free (sb s) D c \<and> c \<noteq> b" if "c < n" for c
      unfolding t(2) by (rule taken_free) (use b that apart assms(4) in simp_all)
    show "av (ablk_of t) b i = 0" if "i < BSIZE" for i using that by (simp add: t(2) taken_def Let_def zero_bytes_def)
  qed (use f t in \<open>simp_all add: taken_def Let_def\<close>)
next
  case (2 b)
  have b: "b < unat (sb_size (sb s))" using 2 assms(4) by simp
  have q: "1 < disksize s" "sb_of (av (ablk_of s) 1) = sb s" using 2 assms(5) by simp_all
  have "room_for s (length bns)" using assms(3) by (rule room_for_mono) simp
  from bfree_run [OF assms(1,2) this q b] show ?case
    using released_free [OF b] unfolding assms(4,5) by (auto simp: released_def Let_def split: if_splits)
qed


section \<open>An example disk\<close>

text \<open>Forty blocks; the bitmap in block 33 marks the blocks 0 to 33 as used.\<close>

definition bitmap_ex :: block where
  "bitmap_ex i = (if i < 4 then 0xFF else if i = 4 then 3 else 0)"

definition bal_ex :: icst where
  "bal_ex = trans_ex\<lparr>sb := (sb trans_ex)\<lparr>sb_size := 40, sb_bmapstart := 33\<rparr>, memdisk := (memdisk trans_ex)(33 := bitmap_ex)\<rparr>"

lemma bal_ex_ready:
  "\<exists>s. binit bal_ex = (Val (), s) \<and> in_trans s 2 [] \<and> sb s = sb bal_ex \<and> disksize s = 1000 \<and>
     log_outstanding s = 1 \<and> log_size s = 30 \<and> av (ablk_of s) 33 = bitmap_ex"
proof -
  note d = bal_ex_def trans_ex_def cons_ex_def consst.defs logst.defs log_ex_def bst.defs
  have "cache_boot log_ex" by (rule log_ex_simps)
  then have b: "cache_boot bal_ex" by (simp add: d cache_boot_def quiet_def can_take_def curproc_def)
  have f: "log_start bal_ex = 2" "log_size bal_ex = 30" "log_dev bal_ex = 1" "log_outstanding bal_ex = 1"
    "lh_n bal_ex = 0" "\<not> log_committing bal_ex" by (simp_all add: d)
  have ds: "disksize bal_ex = 1000" using log_ex_simps(2) by (simp add: d)
  have "wp binit (\<lambda>_ s. in_trans s 2 [] \<and> sb s = sb bal_ex \<and> disksize s = 1000 \<and>
     log_outstanding s = 1 \<and> log_size s = 30 \<and> av (ablk_of s) 33 = bitmap_ex) (\<lambda>_ _. False) bal_ex"
  proof (rule wp_mono [OF binit_establishes [OF b]], goal_cases)
    case (1 x s)
    then have fr: "bframe bal_ex s" by simp
    have v: "av (ablk_of s) = memdisk bal_ex" using 1 view_clean [of s] by simp
    have "memdisk bal_ex 33 = bitmap_ex" by (simp add: bal_ex_def)
    then show ?case
      using 1 f ds v bframe_log [OF fr] bframe_fs [OF fr] bframe_keeps(1) [OF fr]
      by (simp add: in_trans_def log_trans_def log_area_ok_def homes_ok_def param_defs)
  qed simp
  then show ?thesis by (auto simp: wp_returns)
qed

lemma bal_ex_bitmap:
  assumes "sb s = sb bal_ex" "disksize s = 1000" "av (ablk_of s) 33 = bitmap_ex"
  shows "bitmap_ok s 2" "b < 40 \<Longrightarrow> block_free (sb s) (av (ablk_of s)) b \<longleftrightarrow> 34 \<le> b" "unat (sb_size (sb s)) = 40"
proof -
  have q: "sb_size (sb s) = 40" "sb_bmapstart (sb s) = 33" using assms(1) by (simp_all add: bal_ex_def)
  then show "unat (sb_size (sb s)) = 40" by simp
  have B: "unat (BBLOCK (of_nat b) (sb s)) = 33" if "b < 40" for b
  proof -
    have "BBLOCK (of_nat (0 * BPB + b)) (sb s) = BBLOCK (of_nat (0 * BPB)) (sb s)"
      by (rule bitmap_index(1)) (use that q in \<open>simp_all add: BPB_def BSIZE_def\<close>)
    then show ?thesis by (simp add: BBLOCK_def q)
  qed
  have m: "b mod BPB = b" if "b < 40" for b using that by (simp add: BPB_def BSIZE_def)
  have free: "block_free (sb s) (av (ablk_of s)) b \<longleftrightarrow> 34 \<le> b" if "b < 40" for b
  proof -
    have "\<forall>b \<in> set [0..<40]. bfree_bit bitmap_ex b \<longleftrightarrow> 34 \<le> b" unfolding bfree_bit_def bmask_def bitmap_ex_def by code_simp
    then show ?thesis using that B m assms(3) by (simp add: block_free_def)
  qed
  then show "b < 40 \<Longrightarrow> block_free (sb s) (av (ablk_of s)) b \<longleftrightarrow> 34 \<le> b" by blast
  show "bitmap_ok s 2"
    unfolding bitmap_ok_def using B free assms(2) q by (auto simp: log_area_def param_defs)
qed

theorem balloc_bfree_correct_witness:
  "\<exists>s t. binit bal_ex = (Val (), s) \<and> balloc 1 s = (Val 34, t) \<and> \<not> block_free (sb s) (av (ablk_of t)) 34"
proof -
  obtain s where s: "binit bal_ex = (Val (), s)" "in_trans s 2 []" "sb s = sb bal_ex" "disksize s = 1000" "log_outstanding s = 1"
    "log_size s = 30" "av (ablk_of s) 33 = bitmap_ex" using bal_ex_ready by blast
  note f = bal_ex_bitmap [OF s(3,4,7)]
  have room: "room_for s (Suc (length ([] :: u32 list)))" using s by (simp add: room_for_def param_defs)
  have "\<exists>b < unat (sb_size (sb s)). block_free (sb s) (av (ablk_of s)) b" using f(2) [of 34] f(3) by (intro exI [of _ 34]) simp
  with conjunct1 [OF balloc_bfree_correct [OF s(2) f(1) room refl refl]]
  obtain b t where t: "balloc 1 s = (Val (of_nat b), t)" "first_free (sb s) (av (ablk_of s)) 0 b"
    "\<forall>c < 40. block_free (sb s) (av (ablk_of t)) c \<longleftrightarrow> block_free (sb s) (av (ablk_of s)) c \<and> c \<noteq> b"
    unfolding f(3) by blast
  have "34 \<le> b" using t(2) f(2) [of b] f(3) by (simp add: first_free_def)
  moreover have "\<not> 34 < b" using t(2) f(2) [of 34] unfolding first_free_def by auto
  ultimately have "b = 34" by simp
  then show ?thesis using s(1) t by auto
qed

end
