(* ===== verification/Spec2Isabelle.thy ===== *)
theory Spec2Isabelle
  imports Xv6_Prelude Xv6_Spinlock Xv6_String Xv6_Grep Xv6_Mmu Xv6_Kalloc Xv6_Vm Xv6_Proc Xv6_Sched
    Xv6_Signal Xv6_Bio Xv6_Log Xv6_Kbd Xv6_Trap Xv6_Content Xv6_Usync Xv6_Calls Xv6_Icache Xv6_Balloc
begin

text \<open>
  Verification of an xv6 kernel extended with signals, alarms, user-level threads and semaphores.

  \<^bold>\<open>The program.\<close>  The kernel runs processes on several CPUs.  Spin locks protect its tables; the page
  allocator and the page tables give processes their memory; the scheduler switches them; traps bring system
  calls and interrupts.  Files live on a disk behind a buffer cache and a write-ahead log, and are named by
  paths.  Added to this are signals with user handlers, an alarm, and on top of both a thread library in
  user space with binary and counting semaphores.  Several files (\<open>proc.c\<close>, \<open>trapasm.S\<close>, \<open>uthread.c\<close>,
  \<open>uthread.h\<close>) hold both sides of an unresolved merge.  The definitions without suffix are the side \<open>HEAD\<close>;
  those with the suffix \<open>_theirs\<close> are the other side where it differs.

  \<^bold>\<open>How code becomes definitions.\<close>  A C function is a value of type \<open>('s, 'a) K\<close> (\<open>Xv6_Prelude\<close>): from a state it
  gives an outcome and a state.  The outcome is \<open>Val x\<close> or a \<open>Fault\<close>: a panic with its message, a fault at an
  address, a point at which the process sleeps, yields or exits, a lock that spins, a wild pointer, or a loop that
  ran out of fuel (\<open>Diverges\<close>).  Where a function gives up the CPU and goes on later, a second definition with
  the suffix \<open>_resume\<close> is the rest.  \<open>wp\<close> is the weakest precondition for this type, and the collection \<open>wp_simps\<close>
  carries the proofs.  The state is a record that grows with the layers: \<open>kbase\<close> (CPUs, locks), \<open>kmemst\<close>
  (memory, free list), \<open>vmst\<close> (page directories), \<open>ptst\<close> (process table), \<open>bst\<close> (buffers, disk), \<open>logst\<close>,
  \<open>consst\<close>, \<open>icst\<close> (inodes), \<open>ftst\<close> (open files, pipes), \<open>tkst\<close> (ticks).  The definitions of a layer are
  polymorphic in what comes above it.  User programs have records of their own, \<open>ust\<close> and \<open>uthst\<close>.  Machine words
  are \<open>32 word\<close>, \<open>16 word\<close> and \<open>8 word\<close>, so that wrap-around is the source's.

  \<^bold>\<open>Theories and what they show.\<close>

  \<^item> \<open>Xv6_Spinlock\<close> (\<open>spinlock.c\<close>): \<open>acquire\<close> and \<open>release\<close> cut at their atomic accesses, run by any number of CPUs;
    mutual exclusion, and no panic of callers that pair them.
  \<^item> \<open>Xv6_String\<close> (\<open>string.c\<close>, part of \<open>ulib.c\<close>): \<open>memmove\<close> with overlap, \<open>memset\<close> by words against bytes,
    the bounded string functions.
  \<^item> \<open>Xv6_Grep\<close> (\<open>grep.c\<close>): the matcher against the language of the pattern, the line loop, and the input on
    which it loses a line.
  \<^item> \<open>Xv6_Mmu\<close>, \<open>Xv6_Kalloc\<close>, \<open>Xv6_Vm\<close> (\<open>mmu.h\<close>, \<open>memlayout.h\<close>, \<open>kalloc.c\<close>, \<open>vm.c\<close>): the free list threaded through the free pages
    (locale \<open>page_allocator\<close>), page tables as bytes in memory, \<open>mappages\<close>, user memory (locale \<open>user_memory\<close>).
  \<^item> \<open>Xv6_Proc\<close>, \<open>Xv6_Sched\<close>, \<open>Xv6_Lifecycle\<close> (\<open>proc.c\<close>): the process table, and a step relation of several CPUs in the
    scheduler in which no process runs on two CPUs and giving up the CPU never panics.
  \<^item> \<open>Xv6_Signal\<close> (\<open>proc.c\<close>): delivery of a signal and return from its handler as a round trip through the user
    stack; alarms; two faults of the other side of the merge.
  \<^item> \<open>Xv6_Bio\<close> (\<open>sleeplock.c\<close>, \<open>bio.c\<close>, \<open>memide.c\<close>): the buffer cache refines a disk (locale \<open>block_cache\<close>).
  \<^item> \<open>Xv6_Log\<close> (\<open>log.c\<close>): a transaction cut off by a crash at any write is after recovery all or nothing (locale
    \<open>redo_log\<close>); the limit by one that makes \<open>log_write\<close> panic.
  \<^item> \<open>Xv6_Ring\<close>, \<open>Xv6_Console\<close>, \<open>Xv6_Kbd\<close> (\<open>console.c\<close>, \<open>uart.c\<close>, \<open>kbd.c\<close>): circular buffers with free-running indices (locale
    \<open>ring_buffer\<close>, used for the console and for pipes), \<open>cprintf\<close>, line editing, scan codes.
  \<^item> \<open>Xv6_Inode\<close>, \<open>Xv6_Fs\<close> (\<open>fs.c\<close>) with \<open>Xv6_Content\<close>, \<open>Xv6_Balloc\<close>, \<open>Xv6_Icache\<close>: what is written into a file is read back and
    nothing else changes; inodes on disk; the block allocator; one cache entry per file; path elements.
  \<^item> \<open>Xv6_File\<close> (\<open>file.c\<close>, \<open>pipe.c\<close>): a pipe is a bounded queue.
  \<^item> \<open>Xv6_Exec\<close>, \<open>Xv6_Sysfile\<close>, \<open>Xv6_Trap\<close> (\<open>exec.c\<close>, \<open>syscall.c\<close>, \<open>sysfile.c\<close>, \<open>sysproc.c\<close>, \<open>trap.c\<close>) with \<open>Xv6_Calls\<close>: system call arguments stay
    inside user memory; \<open>sigreturn\<close> as a system call loses \<open>eax\<close>.
  \<^item> \<open>Xv6_Umalloc\<close>, \<open>Xv6_Heap\<close> (\<open>umalloc.c\<close>): the circular free list of \<open>malloc\<close> and \<open>free\<close> on the bytes of a process, and
    the contract a program can rely on (locale \<open>allocator\<close>).
  \<^item> \<open>Xv6_Uthread\<close>, \<open>Xv6_Usched\<close>, \<open>Xv6_Usync\<close> (\<open>uthread.c\<close>): switching threads in the handler of \<open>SIGALRM\<close>, every runnable
    thread gets its turn; binary semaphores are a flag and a queue and give mutual exclusion, the
    counting semaphore never hands out more than it has; the semaphores of the other side deadlock.

  Each locale is interpreted on the definitions of the model in the theory that provides them.

  \<^bold>\<open>Bounds and fuel.\<close>  Loops over tables have the table's size.  Loops without such a bound carry fuel: the list
  walks of \<open>malloc\<close> and \<open>free\<close> with \<open>2 ^ 30\<close>, more than there can be headers of 8 bytes below \<open>KERNBASE\<close>, proved
  enough; the search of \<open>uthread_schedule\<close> likewise, where 64 steps are proved to do if a thread can run; the search for the
  saved registers with any fuel above the distance of their marker.  The shift loop of the other side's \<open>bsem_up\<close> is proved
  to exhaust every fuel.  Loops that write user memory or scan strings are bounded by the length of what they handle.

  \<^bold>\<open>Parameters.\<close>  The code of \<open>sigretwrapper\<close> is a list of bytes, keyboard and serial ports give lists of values, the
  grants of \<open>sbrk\<close> and the results of \<open>uptime\<close> seen by a user program are fields of its state.

  \<^bold>\<open>Not modelled.\<close>  Assembly and boot code (\<open>bootasm.S\<close>, \<open>bootmain.c\<close>, \<open>entry.S\<close>, \<open>entryother.S\<close>, \<open>initcode.S\<close>, \<open>swtch.S\<close>,
  \<open>vectors.pl\<close>, \<open>usys.S\<close>), \<open>main.c\<close>, the device set-up of \<open>lapic.c\<close>, \<open>ioapic.c\<close>, \<open>picirq.c\<close>, \<open>mp.c\<close>, \<open>timer.c\<close>, and the dialogue with
  the ports of a real disk in \<open>ide.c\<close>: they are hardware protocols.  The shell, \<open>mkfs.c\<close> and the small user programs
  only drive the system calls; the tests state no behaviour; \<open>uthreads-oldver.c\<close> is superseded and built by no rule.
  Interleavings are modelled for spin locks, the scheduler, the semaphores and the inode cache; elsewhere an operation is a function
  of the state it starts in.
\<close>

end
